(* ===== verification/Prelude.thy ===== *)
theory Prelude
  imports Main "HOL-Library.Word" "HOL-Library.Multiset"
begin

text \<open>
  Shared vocabulary of the development: the machine types of \<^verbatim>\<open>types.hpp\<close>, the ways in which an
  operation of the program can fail, the bind of the resulting error type, bounds-checked access to
  a \<^verbatim>\<open>std::vector\<close>, loops that may fail, and the generic lemmas the component theories rely on.
\<close>

section \<open>Lemma collections\<close>

named_theorems res_simps \<open>rewriting of computations that may fail\<close>
named_theorems vec_simps \<open>bounds-checked vector access inside the bounds\<close>
named_theorems fp_simps \<open>floating-point classification and order\<close>

section \<open>Machine types\<close>

type_synonym u8 = "8 word"
type_synonym u32 = "32 word"
type_synonym u64 = "64 word"
type_synonym byte = "8 word"
type_synonym bytes = "8 word list"

section \<open>Failures\<close>

text \<open>
  Exceptions are told apart by their C++ class. \<open>Undefined_behaviour\<close> marks an access the C++
  standard gives no meaning to (an index past the end of a vector, \<^verbatim>\<open>front()\<close> of an empty one): a
  theorem that a result is \<open>Inr\<close> therefore includes memory safety.
\<close>

datatype error =
    Invalid_argument
  | Runtime_error
  | System_error
  | Bad_optional_access
  | Json_exception
  | Undefined_behaviour

type_synonym 'a res = "error + 'a"

definition rbind :: "'a res \<Rightarrow> ('a \<Rightarrow> 'b res) \<Rightarrow> 'b res" where
  "rbind m f = (case m of Inl e \<Rightarrow> Inl e | Inr x \<Rightarrow> f x)"

lemma rbind_Inl [simp]: "rbind (Inl e) f = Inl e"
  by (simp add: rbind_def)

lemma rbind_Inr [simp]: "rbind (Inr x) f = f x"
  by (simp add: rbind_def)

lemma rbind_eq_Inr [res_simps]: "rbind m f = Inr y \<longleftrightarrow> (\<exists>x. m = Inr x \<and> f x = Inr y)"
  by (cases m) auto

lemma rbind_eq_Inl [res_simps]:
  "rbind m f = Inl e \<longleftrightarrow> m = Inl e \<or> (\<exists>x. m = Inr x \<and> f x = Inl e)"
  by (cases m) auto

lemma rbind_cong [fundef_cong]:
  assumes "m = m'" and "\<And>x. m' = Inr x \<Longrightarrow> f x = f' x"
  shows "rbind m f = rbind m' f'"
  using assms by (cases m') auto

lemma rbind_assoc: "rbind (rbind m f) g = rbind m (\<lambda>x. rbind (f x) g)"
  by (cases m) auto

section \<open>Vectors\<close>

text \<open>\<^verbatim>\<open>v[i]\<close> as an rvalue and as the target of an assignment.\<close>

definition vget :: "'a list \<Rightarrow> nat \<Rightarrow> 'a res" where
  "vget xs i = (if i < length xs then Inr (xs ! i) else Inl Undefined_behaviour)"

definition vset :: "'a list \<Rightarrow> nat \<Rightarrow> 'a \<Rightarrow> 'a list res" where
  "vset xs i v = (if i < length xs then Inr (xs[i := v]) else Inl Undefined_behaviour)"

text \<open>
  \<^verbatim>\<open>std::copy(ys.begin(), ys.end(), xs.begin() + off)\<close>: overwrite a range, undefined when it
  reaches past the end. \<open>span xs off n\<close> is the view \<^verbatim>\<open>std::span(xs.data() + off, n)\<close>.
\<close>

definition copy_into :: "'a list \<Rightarrow> nat \<Rightarrow> 'a list \<Rightarrow> 'a list res" where
  "copy_into xs off ys =
     (if off + length ys \<le> length xs
      then Inr (take off xs @ ys @ drop (off + length ys) xs)
      else Inl Undefined_behaviour)"

definition span :: "'a list \<Rightarrow> nat \<Rightarrow> nat \<Rightarrow> 'a list res" where
  "span xs off n =
     (if off + n \<le> length xs then Inr (take n (drop off xs)) else Inl Undefined_behaviour)"

lemma vget_in [vec_simps]: "i < length xs \<Longrightarrow> vget xs i = Inr (xs ! i)"
  by (simp add: vget_def)

lemma vset_in [vec_simps]: "i < length xs \<Longrightarrow> vset xs i v = Inr (xs[i := v])"
  by (simp add: vset_def)

lemma vget_eq_Inr [res_simps]: "vget xs i = Inr x \<longleftrightarrow> i < length xs \<and> x = xs ! i"
  by (auto simp: vget_def)

lemma vset_eq_Inr [res_simps]: "vset xs i v = Inr ys \<longleftrightarrow> i < length xs \<and> ys = xs[i := v]"
  by (auto simp: vset_def)

section \<open>Loops that may fail\<close>

text \<open>A range-based \<^verbatim>\<open>for\<close> whose body updates a state and may throw.\<close>

fun rfold :: "('a \<Rightarrow> 's \<Rightarrow> 's res) \<Rightarrow> 'a list \<Rightarrow> 's \<Rightarrow> 's res" where
  "rfold f [] s = Inr s"
| "rfold f (x # xs) s = rbind (f x s) (rfold f xs)"

lemma rfold_append: "rfold f (xs @ ys) s = rbind (rfold f xs s) (rfold f ys)"
  by (induction xs arbitrary: s) (auto simp: rbind_def split: sum.split)

lemma rfold_cong [fundef_cong]:
  assumes "xs = ys" and "s = t" and "\<And>x u. x \<in> set ys \<Longrightarrow> f x u = g x u"
  shows "rfold f xs s = rfold g ys t"
proof -
  have "(\<And>x u. x \<in> set ys \<Longrightarrow> f x u = g x u) \<Longrightarrow> rfold f ys t = rfold g ys t"
  proof (induction ys arbitrary: t)
    case (Cons y ys)
    then have "f y t = g y t" and "\<And>u. rfold f ys u = rfold g ys u"
      by simp_all
    then show ?case
      by (simp add: rbind_def split: sum.split)
  qed simp
  with assms show ?thesis
    by simp
qed

text \<open>The loop rule: an invariant the body establishes without failing survives the loop.\<close>

lemma rfold_inv:
  assumes "P s" and "\<And>x s. x \<in> set xs \<Longrightarrow> P s \<Longrightarrow> \<exists>s'. f x s = Inr s' \<and> P s'"
  shows "\<exists>s'. rfold f xs s = Inr s' \<and> P s'"
  using assms
proof (induction xs arbitrary: s)
  case (Cons x xs)
  from Cons.prems obtain s' where "f x s = Inr s'" "P s'"
    by (meson list.set_intros(1))
  then show ?case
    using Cons.IH [of s'] Cons.prems(2) by simp
qed simp

lemma rfold_total: "(\<And>x s. f x s = Inr (g x s)) \<Longrightarrow> rfold f xs s = Inr (fold g xs s)"
  by (induction xs arbitrary: s) simp_all

section \<open>Lists and multisets\<close>

lemma distinct_submset:
  assumes "mset ys \<subseteq># mset xs" and "distinct xs"
  shows "distinct ys"
proof -
  obtain zs where "mset xs = mset (ys @ zs)"
    using assms(1) by (metis ex_mset mset_append mset_subset_eq_exists_conv)
  with assms(2) have "distinct (ys @ zs)"
    by (metis mset_eq_imp_distinct_iff)
  then show ?thesis by simp
qed

section \<open>Words as indices\<close>

lemma unat_of_nat_u32 [simp]: "n < 2 ^ 32 \<Longrightarrow> unat (of_nat n :: u32) = n"
  by (simp add: unat_of_nat take_bit_nat_eq_self)

lemma of_nat_u32_eq_iff: "m < 2 ^ 32 \<Longrightarrow> n < 2 ^ 32 \<Longrightarrow> (of_nat m :: u32) = of_nat n \<longleftrightarrow> m = n"
  by (metis unat_of_nat_u32)

lemma unat_u32_inj [simp]: "unat (a :: u32) = unat b \<longleftrightarrow> a = b"
  by (metis word_eq_iff_unsigned)

lemma unat_u32_zero [simp]: "unat (i :: u32) = 0 \<longleftrightarrow> i = 0"
  by (metis unat_0 unat_u32_inj)

lemma unat_u32_less: "unat (x :: u32) < 2 ^ 32"
  using unsigned_less [of x] by simp

end
