(* ===== verification/Ieee_Float.thy ===== *)
theory Ieee_Float
  imports Prelude
begin

text \<open>
  The \<^verbatim>\<open>float\<close> and \<^verbatim>\<open>double\<close> of the program: IEEE 754 binary32 and binary64 with
  round-to-nearest-even, on bit patterns. Every finite number of a format is a whole multiple of the
  format's least positive number, so exact results are natural numbers (or quotients of two) counted
  in that unit, and one rounding function serves all operations. Every operation of the source is
  rounded once (no fused multiply-add, no excess precision).

  The lemmas show that rounding is monotone and fixes representable numbers, that the order on bit
  patterns is a total preorder away from NaN, and the sign and commutativity laws that the distance
  kernels need.
\<close>

section \<open>Formats\<close>

record fmt =
  prec :: nat   \<comment> \<open>significand bits, the implicit one included\<close>
  expw :: nat   \<comment> \<open>exponent bits\<close>

definition binary32 :: fmt where
  "binary32 = \<lparr>prec = 24, expw = 8\<rparr>"

definition binary64 :: fmt where
  "binary64 = \<lparr>prec = 53, expw = 11\<rparr>"

definition frac_size :: "fmt \<Rightarrow> nat" where
  "frac_size F = 2 ^ (prec F - 1)"

text \<open>The magnitude bits of infinity; smaller patterns are finite, larger ones NaN.\<close>

definition inf_bits :: "fmt \<Rightarrow> nat" where
  "inf_bits F = (2 ^ expw F - 1) * frac_size F"

text \<open>The least positive number of the format is \<open>2 ^ - unit_exp F\<close>.\<close>

definition unit_exp :: "fmt \<Rightarrow> nat" where
  "unit_exp F = 2 ^ (expw F - 1) - 1 + (prec F - 2)"

text \<open>A number is its sign and its magnitude bits.\<close>

type_synonym fp = "bool \<times> nat"

definition fp_is_nan :: "fmt \<Rightarrow> fp \<Rightarrow> bool" where
  "fp_is_nan F x \<longleftrightarrow> inf_bits F < snd x"

definition fp_is_inf :: "fmt \<Rightarrow> fp \<Rightarrow> bool" where
  "fp_is_inf F x \<longleftrightarrow> snd x = inf_bits F"

definition fp_nan :: "fmt \<Rightarrow> fp" where
  "fp_nan F = (False, inf_bits F + 2 ^ (prec F - 2))"

definition fp_inf :: "fmt \<Rightarrow> bool \<Rightarrow> fp" where
  "fp_inf F s = (s, inf_bits F)"

text \<open>The exact magnitude of a finite number, in units.\<close>

definition mag :: "fmt \<Rightarrow> nat \<Rightarrow> nat" where
  "mag F b = (let e = b div frac_size F; f = b mod frac_size F
              in if e = 0 then f else (frac_size F + f) * 2 ^ (e - 1))"

definition sval :: "fmt \<Rightarrow> fp \<Rightarrow> int" where
  "sval F x = (if fst x then - int (mag F (snd x)) else int (mag F (snd x)))"

section \<open>Rounding\<close>

fun nbits :: "nat \<Rightarrow> nat" where
  "nbits n = (if n = 0 then 0 else Suc (nbits (n div 2)))"

declare nbits.simps [simp del]

text \<open>\<open>n / d\<close> to the nearest integer, ties to even.\<close>

definition rne :: "nat \<Rightarrow> nat \<Rightarrow> nat" where
  "rne n d = (let q = n div d; r = n mod d
              in if 2 * r < d \<or> (2 * r = d \<and> even q) then q else Suc q)"

text \<open>\<open>n / d\<close> units to the nearest magnitude bits of the format.\<close>

definition round_units :: "fmt \<Rightarrow> nat \<Rightarrow> nat \<Rightarrow> nat" where
  "round_units F n d = (let e = nbits (n div d) - prec F
                        in min (inf_bits F) (rne n (d * 2 ^ e) + e * frac_size F))"

text \<open>The square root of \<open>n\<close> units squared, to the nearest magnitude bits.\<close>

fun isqrt :: "nat \<Rightarrow> nat" where
  "isqrt n = (if n = 0 then 0
              else let r = 2 * isqrt (n div 4) in if Suc r * Suc r \<le> n then Suc r else r)"

declare isqrt.simps [simp del]

definition round_sqrt :: "fmt \<Rightarrow> nat \<Rightarrow> nat" where
  "round_sqrt F n =
     (let e = nbits (isqrt n) - prec F;
          q = isqrt (n div 4 ^ e);
          h = (2 * q + 1) * (2 * q + 1) * 4 ^ e
      in min (inf_bits F)
           ((if 4 * n < h \<or> (4 * n = h \<and> even q) then q else Suc q) + e * frac_size F))"

section \<open>Arithmetic\<close>

definition fp_neg :: "fp \<Rightarrow> fp" where
  "fp_neg x = (\<not> fst x, snd x)"

definition fp_add :: "fmt \<Rightarrow> fp \<Rightarrow> fp \<Rightarrow> fp" where
  "fp_add F x y =
     (if fp_is_nan F x \<or> fp_is_nan F y then fp_nan F
      else if fp_is_inf F x then (if fp_is_inf F y \<and> fst x \<noteq> fst y then fp_nan F else x)
      else if fp_is_inf F y then y
      else let v = sval F x + sval F y
           in if v = 0 then (fst x \<and> fst y, 0)
              else (v < 0, round_units F (nat \<bar>v\<bar>) 1))"

definition fp_sub :: "fmt \<Rightarrow> fp \<Rightarrow> fp \<Rightarrow> fp" where
  "fp_sub F x y = fp_add F x (fp_neg y)"

definition fp_mul :: "fmt \<Rightarrow> fp \<Rightarrow> fp \<Rightarrow> fp" where
  "fp_mul F x y =
     (if fp_is_nan F x \<or> fp_is_nan F y then fp_nan F
      else if (fp_is_inf F x \<and> snd y = 0) \<or> (fp_is_inf F y \<and> snd x = 0) then fp_nan F
      else if fp_is_inf F x \<or> fp_is_inf F y then fp_inf F (fst x \<noteq> fst y)
      else (fst x \<noteq> fst y, round_units F (mag F (snd x) * mag F (snd y)) (2 ^ unit_exp F)))"

definition fp_div :: "fmt \<Rightarrow> fp \<Rightarrow> fp \<Rightarrow> fp" where
  "fp_div F x y =
     (if fp_is_nan F x \<or> fp_is_nan F y then fp_nan F
      else if (fp_is_inf F x \<and> fp_is_inf F y) \<or> (snd x = 0 \<and> snd y = 0) then fp_nan F
      else if fp_is_inf F x \<or> snd y = 0 then fp_inf F (fst x \<noteq> fst y)
      else if fp_is_inf F y then (fst x \<noteq> fst y, 0)
      else (fst x \<noteq> fst y, round_units F (mag F (snd x) * 2 ^ unit_exp F) (mag F (snd y))))"

definition fp_sqrt :: "fmt \<Rightarrow> fp \<Rightarrow> fp" where
  "fp_sqrt F x =
     (if fp_is_nan F x then fp_nan F
      else if snd x = 0 then x
      else if fst x then fp_nan F
      else if fp_is_inf F x then x
      else (False, round_sqrt F (mag F (snd x) * 2 ^ unit_exp F)))"

definition fp_of_int :: "fmt \<Rightarrow> int \<Rightarrow> fp" where
  "fp_of_int F i = (i < 0, round_units F (nat \<bar>i\<bar> * 2 ^ unit_exp F) 1)"

text \<open>Conversion between formats (\<^verbatim>\<open>static_cast<float>(double)\<close> and back).\<close>

definition fp_convert :: "fmt \<Rightarrow> fmt \<Rightarrow> fp \<Rightarrow> fp" where
  "fp_convert F G x =
     (if fp_is_nan F x then fp_nan G
      else if fp_is_inf F x then fp_inf G (fst x)
      else (fst x, round_units G (mag F (snd x) * 2 ^ unit_exp G) (2 ^ unit_exp F)))"

section \<open>Order\<close>

text \<open>Sign-magnitude bit patterns are ordered as the numbers they denote; both zeros have key 0.\<close>

definition fp_key :: "fp \<Rightarrow> int" where
  "fp_key x = (if fst x then - int (snd x) else int (snd x))"

definition fp_lt :: "fmt \<Rightarrow> fp \<Rightarrow> fp \<Rightarrow> bool" where
  "fp_lt F x y \<longleftrightarrow> \<not> fp_is_nan F x \<and> \<not> fp_is_nan F y \<and> fp_key x < fp_key y"

definition fp_eq :: "fmt \<Rightarrow> fp \<Rightarrow> fp \<Rightarrow> bool" where
  "fp_eq F x y \<longleftrightarrow> \<not> fp_is_nan F x \<and> \<not> fp_is_nan F y \<and> fp_key x = fp_key y"

section \<open>Float and double\<close>

type_synonym f32 = "32 word"
type_synonym f64 = "64 word"

definition unpack32 :: "f32 \<Rightarrow> fp" where
  "unpack32 w = (2 ^ 31 \<le> unat w, unat w mod 2 ^ 31)"

definition pack32 :: "fp \<Rightarrow> f32" where
  "pack32 x = of_nat (snd x + (if fst x then 2 ^ 31 else 0))"

definition unpack64 :: "f64 \<Rightarrow> fp" where
  "unpack64 w = (2 ^ 63 \<le> unat w, unat w mod 2 ^ 63)"

definition pack64 :: "fp \<Rightarrow> f64" where
  "pack64 x = of_nat (snd x + (if fst x then 2 ^ 63 else 0))"

definition f32_add :: "f32 \<Rightarrow> f32 \<Rightarrow> f32" where
  "f32_add a b = pack32 (fp_add binary32 (unpack32 a) (unpack32 b))"

definition f32_sub :: "f32 \<Rightarrow> f32 \<Rightarrow> f32" where
  "f32_sub a b = pack32 (fp_sub binary32 (unpack32 a) (unpack32 b))"

definition f32_mul :: "f32 \<Rightarrow> f32 \<Rightarrow> f32" where
  "f32_mul a b = pack32 (fp_mul binary32 (unpack32 a) (unpack32 b))"

definition f32_div :: "f32 \<Rightarrow> f32 \<Rightarrow> f32" where
  "f32_div a b = pack32 (fp_div binary32 (unpack32 a) (unpack32 b))"

definition f32_sqrt :: "f32 \<Rightarrow> f32" where
  "f32_sqrt a = pack32 (fp_sqrt binary32 (unpack32 a))"

definition f32_neg :: "f32 \<Rightarrow> f32" where
  "f32_neg a = pack32 (fp_neg (unpack32 a))"

definition f32_lt :: "f32 \<Rightarrow> f32 \<Rightarrow> bool" where
  "f32_lt a b \<longleftrightarrow> fp_lt binary32 (unpack32 a) (unpack32 b)"

definition f32_eq :: "f32 \<Rightarrow> f32 \<Rightarrow> bool" where
  "f32_eq a b \<longleftrightarrow> fp_eq binary32 (unpack32 a) (unpack32 b)"

definition f32_is_nan :: "f32 \<Rightarrow> bool" where
  "f32_is_nan a \<longleftrightarrow> fp_is_nan binary32 (unpack32 a)"

definition f32_key :: "f32 \<Rightarrow> int" where
  "f32_key a = fp_key (unpack32 a)"

definition f64_lt :: "f64 \<Rightarrow> f64 \<Rightarrow> bool" where
  "f64_lt a b \<longleftrightarrow> fp_lt binary64 (unpack64 a) (unpack64 b)"

definition f64_is_nan :: "f64 \<Rightarrow> bool" where
  "f64_is_nan a \<longleftrightarrow> fp_is_nan binary64 (unpack64 a)"

definition f64_of_int :: "int \<Rightarrow> f64" where
  "f64_of_int i = pack64 (fp_of_int binary64 i)"

definition f64_add :: "f64 \<Rightarrow> f64 \<Rightarrow> f64" where
  "f64_add a b = pack64 (fp_add binary64 (unpack64 a) (unpack64 b))"

definition f64_mul :: "f64 \<Rightarrow> f64 \<Rightarrow> f64" where
  "f64_mul a b = pack64 (fp_mul binary64 (unpack64 a) (unpack64 b))"

definition f64_div :: "f64 \<Rightarrow> f64 \<Rightarrow> f64" where
  "f64_div a b = pack64 (fp_div binary64 (unpack64 a) (unpack64 b))"

definition f64_neg :: "f64 \<Rightarrow> f64" where
  "f64_neg a = pack64 (fp_neg (unpack64 a))"

definition f64_sub :: "f64 \<Rightarrow> f64 \<Rightarrow> f64" where
  "f64_sub a b = pack64 (fp_sub binary64 (unpack64 a) (unpack64 b))"

definition f64_one :: f64 where
  "f64_one = 0x3FF0000000000000"

definition f64_sqrt :: "f64 \<Rightarrow> f64" where
  "f64_sqrt a = pack64 (fp_sqrt binary64 (unpack64 a))"

definition f64_of_f32 :: "f32 \<Rightarrow> f64" where
  "f64_of_f32 a = pack64 (fp_convert binary32 binary64 (unpack32 a))"

definition f32_of_f64 :: "f64 \<Rightarrow> f32" where
  "f32_of_f64 a = pack32 (fp_convert binary64 binary32 (unpack64 a))"

text \<open>The constants the source writes: \<^verbatim>\<open>0.0F\<close>, \<^verbatim>\<open>1.0F\<close>, \<^verbatim>\<open>-1.0F\<close> and the largest finite \<^verbatim>\<open>float\<close>.\<close>

definition f32_zero :: f32 where "f32_zero = 0"
definition f32_one :: f32 where "f32_one = 0x3F800000"
definition f32_minus_one :: f32 where "f32_minus_one = 0xBF800000"
definition f32_max :: f32 where "f32_max = 0x7F7FFFFF"

section \<open>Rounding is monotone and fixes representable numbers\<close>

lemma nbits_0 [simp]: "nbits 0 = 0"
  by (simp add: nbits.simps)

lemma less_two_power_nbits: "n < 2 ^ nbits n"
proof (induction n rule: nbits.induct)
  case (1 n)
  show ?case
  proof (cases "n = 0")
    case False
    with 1 have "n div 2 < 2 ^ nbits (n div 2)" by simp
    with False show ?thesis
      by (simp add: nbits.simps [of n])
  qed simp
qed

lemma two_power_nbits_le: "0 < n \<Longrightarrow> 2 ^ (nbits n - 1) \<le> n"
proof (induction n rule: nbits.induct)
  case (1 n)
  show ?case
  proof (cases "n div 2 = 0")
    case True
    with "1.prems" show ?thesis
      by (simp add: nbits.simps [of n])
  next
    case False
    with 1 have "2 ^ (nbits (n div 2) - 1) \<le> n div 2" by simp
    moreover have "0 < nbits (n div 2)"
      using False by (simp add: nbits.simps [of "n div 2"])
    then have "2 ^ nbits (n div 2) = 2 * (2::nat) ^ (nbits (n div 2) - 1)"
      by (metis Suc_pred' power_Suc)
    ultimately show ?thesis
      using "1.prems" by (simp add: nbits.simps [of n])
  qed
qed

lemma nbits_le_iff: "nbits n \<le> k \<longleftrightarrow> n < 2 ^ k"
proof
  assume "nbits n \<le> k"
  then have "(2::nat) ^ nbits n \<le> 2 ^ k" by simp
  with less_two_power_nbits show "n < 2 ^ k" by (rule less_le_trans)
next
  assume less: "n < 2 ^ k"
  show "nbits n \<le> k"
  proof (cases "n = 0")
    case False
    then have "(2::nat) ^ (nbits n - 1) < 2 ^ k"
      using two_power_nbits_le [of n] less by linarith
    then have "nbits n - 1 < k"
      by (rule power_less_imp_less_exp [rotated]) simp
    then show ?thesis by simp
  qed simp
qed

lemma nbits_mono: "m \<le> n \<Longrightarrow> nbits m \<le> nbits n"
  using less_two_power_nbits [of n] by (simp add: nbits_le_iff)

lemma nbits_eqI: "2 ^ k \<le> n \<Longrightarrow> n < 2 ^ Suc k \<Longrightarrow> nbits n = Suc k"
  using nbits_le_iff [of n k] nbits_le_iff [of n "Suc k"] by simp

lemma rne_exact [simp]: "0 < d \<Longrightarrow> rne (q * d) d = q"
  by (simp add: rne_def)

lemma rne_bounds: "n div d \<le> rne n d" "rne n d \<le> Suc (n div d)"
  by (simp_all add: rne_def Let_def)

lemma rne_mono:
  assumes "m \<le> n"
  shows "rne m d \<le> rne n d"
proof (cases "m div d = n div d")
  case True
  then have "m mod d \<le> n mod d"
    using assms by (metis add_le_cancel_left div_mult_mod_eq)
  then show ?thesis
    using True by (auto simp: rne_def Let_def)
next
  case False
  with assms have "Suc (m div d) \<le> n div d"
    by (metis Suc_leI div_le_mono le_neq_implies_less)
  then show ?thesis
    using rne_bounds [of m d] rne_bounds [of n d] by linarith
qed

lemma rne_le: "0 < d \<Longrightarrow> n \<le> q * d \<Longrightarrow> rne n d \<le> q"
  using rne_mono [of n "q * d" d] by simp

lemma rne_ge: "0 < d \<Longrightarrow> q * d \<le> n \<Longrightarrow> q \<le> rne n d"
  using rne_mono [of "q * d" n d] by simp

text \<open>The significand a rounding works on has at most \<open>prec\<close> bits, and exactly that many when the
  exponent is not the least one.\<close>

lemma round_significand:
  fixes n d F
  assumes "0 < d" and "0 < prec F"
  defines "e \<equiv> nbits (n div d) - prec F"
  shows "rne n (d * 2 ^ e) \<le> 2 * frac_size F"
    and "0 < e \<Longrightarrow> frac_size F \<le> rne n (d * 2 ^ e)"
proof -
  have two: "2 * frac_size F = 2 ^ prec F"
    using assms(2) by (simp add: frac_size_def flip: power_Suc)
  have "n div d < 2 ^ (e + prec F)"
    using less_two_power_nbits [of "n div d"] by (simp add: e_def flip: nbits_le_iff)
  then have "n < 2 ^ (e + prec F) * d"
    using assms(1) by (simp add: div_less_iff_less_mult)
  then have "n \<le> 2 ^ prec F * (d * 2 ^ e)"
    by (simp add: power_add ac_simps)
  then show "rne n (d * 2 ^ e) \<le> 2 * frac_size F"
    using assms(1) unfolding two by (intro rne_le) simp_all
  assume pos: "0 < e"
  then have "0 < n div d"
    by (cases "n div d = 0") (simp_all add: e_def)
  then have "2 ^ (nbits (n div d) - 1) \<le> n div d"
    by (rule two_power_nbits_le)
  moreover have "nbits (n div d) - 1 = e + (prec F - 1)"
    using pos assms(2) by (simp add: e_def)
  ultimately have "2 ^ (e + (prec F - 1)) * d \<le> n"
    using assms(1) by (simp add: less_eq_div_iff_mult_less_eq)
  then show "frac_size F \<le> rne n (d * 2 ^ e)"
    by (intro rne_ge) (simp_all add: assms(1) frac_size_def power_add ac_simps)
qed

lemma round_units_le_inf: "round_units F n d \<le> inf_bits F"
  by (simp add: round_units_def Let_def)

lemma round_units_mono:
  assumes "0 < d" and "0 < prec F" and "m \<le> n"
  shows "round_units F m d \<le> round_units F n d"
proof -
  define e e' where "e = nbits (m div d) - prec F" and "e' = nbits (n div d) - prec F"
  have "e \<le> e'"
    using assms(3) unfolding e_def e'_def by (intro diff_le_mono nbits_mono div_le_mono)
  have "rne m (d * 2 ^ e) + e * frac_size F \<le> rne n (d * 2 ^ e') + e' * frac_size F"
  proof (cases "e = e'")
    case True
    with assms(3) show ?thesis by (simp add: rne_mono)
  next
    case False
    with \<open>e \<le> e'\<close> have "e < e'" by simp
    have "rne m (d * 2 ^ e) + e * frac_size F \<le> Suc e * frac_size F + frac_size F"
      using round_significand(1) [OF assms(1,2), of m] by (simp add: e_def)
    also have "\<dots> \<le> e' * frac_size F + frac_size F"
      using \<open>e < e'\<close> by (metis Suc_leI add_le_mono1 mult_le_mono1)
    also have "\<dots> \<le> rne n (d * 2 ^ e') + e' * frac_size F"
      using round_significand(2) [OF assms(1,2), of n] \<open>e < e'\<close> by (simp add: e'_def)
    finally show ?thesis .
  qed
  then show ?thesis
    by (simp add: round_units_def Let_def e_def e'_def min_le_iff_disj)
qed

lemma frac_size_pos [simp]: "0 < frac_size F"
  by (simp add: frac_size_def)

text \<open>A finite number rounds to itself.\<close>

lemma round_units_mag:
  assumes "b < inf_bits F" and "0 < prec F"
  shows "round_units F (mag F b) 1 = b"
proof -
  define e f where "e = b div frac_size F" and "f = b mod frac_size F"
  have b: "b = e * frac_size F + f" and f: "f < frac_size F"
    by (simp_all add: e_def f_def)
  show ?thesis
  proof (cases e)
    case 0
    with b f have "b < frac_size F" by simp
    then have m: "mag F b = b"
      by (simp add: mag_def)
    from \<open>b < frac_size F\<close> have "nbits b - prec F = 0"
      by (simp add: frac_size_def flip: nbits_le_iff)
    then show ?thesis
      using assms rne_exact [of 1 b] by (simp add: round_units_def m)
  next
    case (Suc k)
    then have m: "mag F b = (frac_size F + f) * 2 ^ k"
      by (simp add: mag_def Let_def flip: e_def f_def)
    have p: "2 * frac_size F = 2 ^ prec F"
      using assms(2) by (simp add: frac_size_def flip: power_Suc)
    have "nbits (mag F b) = Suc (prec F - 1 + k)"
    proof (rule nbits_eqI)
      show "2 ^ (prec F - 1 + k) \<le> mag F b"
        by (simp add: m power_add frac_size_def)
      have "(frac_size F + f) * 2 ^ k < 2 ^ prec F * 2 ^ k"
        using f p by simp
      then show "mag F b < 2 ^ Suc (prec F - 1 + k)"
        using assms(2) by (simp add: m flip: power_add)
    qed
    then have "nbits (mag F b) - prec F = k"
      using assms(2) by simp
    moreover have "frac_size F + f + k * frac_size F = b"
      using b Suc by simp
    ultimately show ?thesis
      using assms(1) by (simp add: round_units_def m)
  qed
qed

lemma mag_strict_mono:
  assumes "a < b" and "b < inf_bits F" and "0 < prec F"
  shows "mag F a < mag F b"
proof (rule ccontr)
  assume "\<not> mag F a < mag F b"
  then have "round_units F (mag F b) 1 \<le> round_units F (mag F a) 1"
    using assms(3) by (intro round_units_mono) simp_all
  with assms show False
    by (simp add: round_units_mag del: One_nat_def)
qed

section \<open>Words and numbers\<close>

lemma binary32_simps [simp]:
  "prec binary32 = 24" "frac_size binary32 = 8388608"
  "inf_bits binary32 = 2139095040" "unit_exp binary32 = 149"
  by (simp_all add: binary32_def frac_size_def inf_bits_def unit_exp_def)

lemma binary64_simps [simp]:
  "prec binary64 = 53" "frac_size binary64 = 4503599627370496"
  "inf_bits binary64 = 9218868437227405312" "unit_exp binary64 = 1074"
  by (simp_all add: binary64_def frac_size_def inf_bits_def unit_exp_def)

definition fits32 :: "fp \<Rightarrow> bool" where
  "fits32 x \<longleftrightarrow> snd x < 2 ^ 31"

lemma unpack_pack32: "fits32 x \<Longrightarrow> unpack32 (pack32 x) = x"
proof -
  assume "fits32 x"
  then have "unat (pack32 x) = snd x + (if fst x then 2 ^ 31 else 0)"
    unfolding pack32_def by (intro unat_of_nat_u32) (simp add: fits32_def)
  with \<open>fits32 x\<close> show ?thesis
    by (cases x) (simp add: fits32_def unpack32_def)
qed

lemma pack_unpack32: "pack32 (unpack32 w) = w"
proof -
  have "unat w mod 2 ^ 31 + (if 2 ^ 31 \<le> unat w then 2 ^ 31 else 0) = unat w"
    using unat_u32_less [of w] by (auto simp: mod_nat_eqI not_le le_mod_geq)
  then have "pack32 (unpack32 w) = of_nat (unat w)"
    by (simp only: pack32_def unpack32_def fst_conv snd_conv)
  then show ?thesis by simp
qed

lemma fits_unpack32 [simp]: "fits32 (unpack32 w)"
  by (simp add: fits32_def unpack32_def)

lemma fits_fp_neg [simp]: "fits32 (fp_neg x) = fits32 x"
  by (simp add: fits32_def fp_neg_def)

lemma round_sqrt_le_inf: "round_sqrt F n \<le> inf_bits F"
  unfolding round_sqrt_def Let_def by (rule min.cobounded1)

lemma fits_round:
  "fits32 (s, round_units binary32 n d)"
  "fits32 (s, round_sqrt binary32 n)"
  using round_units_le_inf [of binary32 n d] round_sqrt_le_inf [of binary32 n]
  by (simp_all add: fits32_def)

lemma fits_fp_op [simp]:
  assumes "fits32 x" and "fits32 y"
  shows "fits32 (fp_add binary32 x y)" "fits32 (fp_sub binary32 x y)"
    "fits32 (fp_mul binary32 x y)" "fits32 (fp_div binary32 x y)"
  using assms
  by (auto simp: fp_add_def fp_sub_def fp_mul_def fp_div_def Let_def fits_round
      fp_nan_def fp_inf_def) (simp_all add: fits32_def fp_neg_def)

lemma fits_fp_sqrt [simp]: "fits32 x \<Longrightarrow> fits32 (fp_sqrt binary32 x)"
  by (auto simp: fp_sqrt_def fits_round fp_nan_def) (simp_all add: fits32_def)

lemma unpack_f32_op [fp_simps]:
  "unpack32 (f32_add a b) = fp_add binary32 (unpack32 a) (unpack32 b)"
  "unpack32 (f32_sub a b) = fp_sub binary32 (unpack32 a) (unpack32 b)"
  "unpack32 (f32_mul a b) = fp_mul binary32 (unpack32 a) (unpack32 b)"
  "unpack32 (f32_div a b) = fp_div binary32 (unpack32 a) (unpack32 b)"
  "unpack32 (f32_sqrt a) = fp_sqrt binary32 (unpack32 a)"
  "unpack32 (f32_neg a) = fp_neg (unpack32 a)"
  by (simp_all add: f32_add_def f32_sub_def f32_mul_def f32_div_def f32_sqrt_def f32_neg_def
      unpack_pack32)

lemma unpack32_inj: "unpack32 a = unpack32 b \<longleftrightarrow> a = b"
  by (metis pack_unpack32)

section \<open>The order on floats\<close>

lemma f32_lt_iff [fp_simps]:
  "f32_lt a b \<longleftrightarrow> \<not> f32_is_nan a \<and> \<not> f32_is_nan b \<and> f32_key a < f32_key b"
  by (simp add: f32_lt_def fp_lt_def f32_is_nan_def f32_key_def)

lemma f32_key_bounds: "- (2 ^ 31) < f32_key a" "f32_key a < 2 ^ 31"
  using fits_unpack32 [of a] by (auto simp: f32_key_def fp_key_def fits32_def)

text \<open>The keys order the finite numbers of a format as their values.\<close>

lemma fp_key_less_iff_sval:
  assumes "snd x < inf_bits F" and "snd y < inf_bits F" and "0 < prec F"
  shows "fp_key x < fp_key y \<longleftrightarrow> sval F x < sval F y"
proof -
  have mono: "mag F a < mag F b \<longleftrightarrow> a < b" if "a < inf_bits F" "b < inf_bits F" for a b
    using mag_strict_mono [of a b F] mag_strict_mono [of b a F] that assms(3)
    by (metis less_asym linorder_neqE_nat)
  have zero: "mag F 0 = 0"
    by (simp add: mag_def)
  have pos: "0 < mag F a \<longleftrightarrow> 0 < a" if "a < inf_bits F" for a
    using mono [of 0 a] that zero by auto
  show ?thesis
    using mono [of "snd x" "snd y"] mono [of "snd y" "snd x"] pos [of "snd x"] pos [of "snd y"]
      assms(1,2) by (auto simp: fp_key_def sval_def)
qed


section \<open>Algebraic laws\<close>

lemma fp_neg_simps [simp]:
  "snd (fp_neg x) = snd x" "fst (fp_neg x) = (\<not> fst x)"
  "fp_is_nan F (fp_neg x) = fp_is_nan F x" "fp_is_inf F (fp_neg x) = fp_is_inf F x"
  "sval F (fp_neg x) = - sval F x"
  by (simp_all add: fp_neg_def fp_is_nan_def fp_is_inf_def sval_def)

lemma fp_add_commute: "fp_add F x y = fp_add F y x"
proof -
  have "x = y" if "fp_is_inf F x" "fp_is_inf F y" "fst x = fst y"
    using that by (simp add: fp_is_inf_def prod_eq_iff)
  then show ?thesis
    by (auto simp: fp_add_def Let_def add.commute conj_commute)
qed

lemma fp_mul_commute: "fp_mul F x y = fp_mul F y x"
  by (auto simp: fp_mul_def fp_inf_def mult.commute)

lemma snd_fp_sub_commute: "snd (fp_sub F x y) = snd (fp_sub F y x)"
proof -
  have "sval F x - sval F y = 0 \<longleftrightarrow> sval F y - sval F x = 0"
    and "nat \<bar>sval F x - sval F y\<bar> = nat \<bar>sval F y - sval F x\<bar>"
    by linarith+
  then show ?thesis
    by (auto simp: fp_sub_def fp_add_def Let_def fp_is_inf_def)
qed

lemma fp_mul_self_cong: "snd x = snd y \<Longrightarrow> fp_mul F x x = fp_mul F y y"
  by (simp add: fp_mul_def fp_is_nan_def fp_is_inf_def)

text \<open>Squares and sums of non-negative numbers are non-negative, or NaN.\<close>

definition fp_nonneg :: "fmt \<Rightarrow> fp \<Rightarrow> bool" where
  "fp_nonneg F x \<longleftrightarrow> fp_is_nan F x \<or> \<not> fst x"

lemma fp_is_nan_nan [simp]: "0 < prec F \<Longrightarrow> fp_is_nan F (fp_nan F)"
  by (simp add: fp_is_nan_def fp_nan_def)

lemma fp_mul_self_nonneg: "0 < prec F \<Longrightarrow> fp_nonneg F (fp_mul F x x)"
  by (auto simp: fp_nonneg_def fp_mul_def fp_inf_def)

lemma fp_add_nonneg:
  assumes "fp_nonneg F x" and "fp_nonneg F y" and "0 < prec F"
  shows "fp_nonneg F (fp_add F x y)"
proof (cases "fp_is_nan F x \<or> fp_is_nan F y")
  case False
  with assms have "\<not> fst x" "\<not> fst y"
    by (auto simp: fp_nonneg_def)
  then show ?thesis
    by (auto simp: fp_nonneg_def fp_add_def Let_def sval_def assms(3))
qed (auto simp: fp_nonneg_def fp_add_def assms(3))

lemma fp_sub_self:
  "snd x < inf_bits F \<Longrightarrow> fp_sub F x x = (False, 0)"
  by (auto simp: fp_sub_def fp_add_def fp_is_nan_def fp_is_inf_def)

section \<open>Exact conversions\<close>

lemma rne_cancel: "0 < c \<Longrightarrow> rne (n * c) (d * c) = rne n d"
  by (simp add: rne_def Let_def mult.assoc [symmetric] flip: mult_mod_left)

lemma nbits_mult_power: "0 < n \<Longrightarrow> nbits (n * 2 ^ k) = nbits n + k"
proof -
  assume "0 < n"
  then have "0 < nbits n"
    by (simp add: nbits.simps [of n])
  then obtain b where b: "nbits n = Suc b"
    by (cases "nbits n") auto
  have "nbits (n * 2 ^ k) = Suc (b + k)"
    using two_power_nbits_le [OF \<open>0 < n\<close>] less_two_power_nbits [of n] b
    by (intro nbits_eqI) (simp_all add: power_add)
  with b show ?thesis by simp
qed

text \<open>A multiple \<open>n * 2 ^ k\<close> of the unit whose factor fits the significand is represented exactly.\<close>

lemma mag_round_units_exact:
  assumes "n < 2 ^ prec F" and "0 < prec F"
    and "round_units F (n * 2 ^ k) 1 < inf_bits F"
  shows "mag F (round_units F (n * 2 ^ k) 1) = n * 2 ^ k"
proof -
  define m e r where "m = n * 2 ^ k" and "e = nbits m - prec F" and "r = m div 2 ^ e"
  have H: "2 * frac_size F = 2 ^ prec F"
    using assms(2) by (simp add: frac_size_def flip: power_Suc)
  have "n * 2 ^ k < 2 ^ (prec F + k)"
    using assms(1) by (simp add: power_add)
  then have "nbits m \<le> prec F + k"
    by (simp only: m_def nbits_le_iff)
  then have "e \<le> k"
    by (simp add: e_def)
  then have "2 ^ e dvd m"
    unfolding m_def by (metis dvd_mult le_imp_power_dvd)
  then have m: "m = r * 2 ^ e"
    by (simp add: r_def)
  have r: "rne m (1 * 2 ^ e) = r"
    unfolding m by simp
  have bits: "round_units F m 1 = r + e * frac_size F"
    using assms(3) r unfolding m_def [symmetric] by (simp add: round_units_def e_def)
  have "r \<le> 2 * frac_size F" and ge: "0 < e \<Longrightarrow> frac_size F \<le> r"
    using round_significand [of 1 F m] assms(2) r by (simp_all add: e_def)
  moreover have "m < 2 ^ prec F * 2 ^ e"
    using less_two_power_nbits [of m] by (simp add: e_def flip: nbits_le_iff power_add)
  then have "r < 2 * frac_size F"
    unfolding H by (simp add: m)
  ultimately show ?thesis
    unfolding m_def [symmetric] bits
    by (cases "r < frac_size F") (auto simp: mag_def Let_def m div_add1_eq not_less le_div_geq le_mod_geq)
qed

lemma sval_of_int_exact:
  assumes "\<bar>i\<bar> \<le> 2 ^ 53"
  shows "snd (fp_of_int binary64 i) < inf_bits binary64"
    and "sval binary64 (fp_of_int binary64 i) = i * 2 ^ 1074"
proof -
  let ?n = "nat \<bar>i\<bar>" and ?F = binary64
  have n: "?n \<le> 2 ^ 53"
    using assms by (simp add: nat_le_iff)
  have top: "mag ?F 0x4340000000000000 = 2 ^ 53 * 2 ^ 1074"
    by (simp add: mag_def)
  have "round_units ?F (?n * 2 ^ 1074) 1 \<le> round_units ?F (mag ?F 0x4340000000000000) 1"
    unfolding top using n by (intro round_units_mono mult_le_mono1) simp_all
  also have "\<dots> = 0x4340000000000000"
    by (rule round_units_mag) simp_all
  finally have fin: "round_units ?F (?n * 2 ^ 1074) 1 < inf_bits ?F"
    by simp
  then show "snd (fp_of_int ?F i) < inf_bits ?F"
    by (simp add: fp_of_int_def)
  have "mag ?F (round_units ?F (?n * 2 ^ 1074) 1) = ?n * 2 ^ 1074"
  proof (cases "?n = 2 ^ 53")
    case True
    then have "?n * 2 ^ 1074 = mag ?F 0x4340000000000000"
      by (simp only: top)
    then show ?thesis
      using round_units_mag [of "0x4340000000000000" ?F] by (simp only:) simp
  next
    case False
    with n have "?n < 2 ^ prec ?F" by simp
    with fin show ?thesis
      by (intro mag_round_units_exact) simp_all
  qed
  then have "mag ?F (snd (fp_of_int ?F i)) = ?n * 2 ^ 1074"
    by (simp only: fp_of_int_def snd_conv binary64_simps)
  then show "sval ?F (fp_of_int ?F i) = i * 2 ^ 1074"
    by (simp add: sval_def) (simp add: fp_of_int_def)
qed

definition fits64 :: "fp \<Rightarrow> bool" where
  "fits64 x \<longleftrightarrow> snd x < 2 ^ 63"

lemma unpack_pack64: "fits64 x \<Longrightarrow> unpack64 (pack64 x) = x"
proof -
  assume "fits64 x"
  then have "unat (pack64 x) = snd x + (if fst x then 2 ^ 63 else 0)"
    unfolding pack64_def unat_of_nat by (intro mod_less) (simp add: fits64_def)
  with \<open>fits64 x\<close> show ?thesis
    by (cases x) (simp add: fits64_def unpack64_def)
qed

lemma fits64_round:
  "fits64 (s, round_units binary64 n d)"
  "fits64 (s, round_sqrt binary64 n)"
  using round_units_le_inf [of binary64 n d] round_sqrt_le_inf [of binary64 n]
  by (simp_all add: fits64_def)

lemma fits64_unpack [simp]: "fits64 (unpack64 w)"
  by (simp add: fits64_def unpack64_def)

lemma fits64_op:
  assumes "fits64 x" and "fits64 y"
  shows "fits64 (fp_add binary64 x y)" "fits64 (fp_mul binary64 x y)" "fits64 (fp_div binary64 x y)"
  using assms
  by (auto simp: fp_add_def fp_mul_def fp_div_def Let_def fits64_round fp_nan_def fp_inf_def)
    (simp_all add: fits64_def)

lemma fits64_sqrt: "fits64 x \<Longrightarrow> fits64 (fp_sqrt binary64 x)"
  by (auto simp: fp_sqrt_def fits64_round fp_nan_def) (simp_all add: fits64_def)

lemma fits64_convert: "fits64 (fp_convert binary32 binary64 x)"
  by (auto simp: fp_convert_def fits64_round fp_nan_def fp_inf_def) (simp_all add: fits64_def)

lemma unpack_f64_op:
  "unpack64 (f64_add a b) = fp_add binary64 (unpack64 a) (unpack64 b)"
  "unpack64 (f64_mul a b) = fp_mul binary64 (unpack64 a) (unpack64 b)"
  "unpack64 (f64_div a b) = fp_div binary64 (unpack64 a) (unpack64 b)"
  "unpack64 (f64_sqrt a) = fp_sqrt binary64 (unpack64 a)"
  "unpack64 (f64_of_f32 c) = fp_convert binary32 binary64 (unpack32 c)"
  by (simp_all add: f64_add_def f64_mul_def f64_div_def f64_sqrt_def f64_of_f32_def unpack_pack64 fits64_op
      fits64_sqrt fits64_convert)

lemma unpack_f64_sub:
  "unpack64 (f64_neg a) = fp_neg (unpack64 a)"
  "unpack64 (f64_sub a b) = fp_sub binary64 (unpack64 a) (unpack64 b)"
proof -
  have neg: "fits64 (fp_neg (unpack64 a))" for a
    using fits64_unpack [of a] by (simp add: fits64_def fp_neg_def)
  then show "unpack64 (f64_neg a) = fp_neg (unpack64 a)"
    by (simp add: f64_neg_def unpack_pack64)
  show "unpack64 (f64_sub a b) = fp_sub binary64 (unpack64 a) (unpack64 b)"
    by (simp add: f64_sub_def fp_sub_def unpack_pack64 fits64_op neg)
qed

lemma unpack_f32_of_f64: "unpack32 (f32_of_f64 a) = fp_convert binary64 binary32 (unpack64 a)"
proof -
  have "fits32 (fp_convert binary64 binary32 (unpack64 a))"
    by (auto simp: fp_convert_def fits_round fp_nan_def fp_inf_def) (simp_all add: fits32_def)
  then show ?thesis
    by (simp add: f32_of_f64_def unpack_pack32)
qed

lemma unpack_f64_of_int: "unpack64 (f64_of_int i) = fp_of_int binary64 i"
proof -
  have "fits64 (fp_of_int binary64 i)"
    using round_units_le_inf [of binary64 "nat \<bar>i\<bar> * 2 ^ 1074" 1] by (simp add: fits64_def fp_of_int_def)
  then show ?thesis
    by (simp add: f64_of_int_def unpack_pack64)
qed

lemma f64_of_int_less_iff:
  assumes "\<bar>i\<bar> \<le> 2 ^ 53" and "\<bar>j\<bar> \<le> 2 ^ 53"
  shows "f64_lt (f64_of_int i) (f64_of_int j) \<longleftrightarrow> i < j"
  using sval_of_int_exact [OF assms(1)] sval_of_int_exact [OF assms(2)]
    fp_key_less_iff_sval [of "fp_of_int binary64 i" binary64 "fp_of_int binary64 j"]
  by (simp add: f64_lt_def fp_lt_def fp_is_nan_def unpack_f64_of_int)

lemma fp_of_int_bits:
  assumes "0 < i" and "prec F < nbits (nat i)"
  shows "round_units F (nat \<bar>i\<bar> * 2 ^ u) 1 =
    min (inf_bits F) (rne (nat i) (2 ^ (nbits (nat i) - prec F)) + (nbits (nat i) + u - prec F) * frac_size F)"
  using assms rne_cancel [of "2 ^ u" "nat i" "2 ^ (nbits (nat i) - prec F)"]
  by (simp add: round_units_def Let_def nbits_mult_power power_add [symmetric])

section \<open>Evaluation on literals\<close>

lemma nbits_eval:
  "nbits 1 = 1" "nbits (Suc 0) = 1"
  "nbits (numeral num.One) = 1"
  "nbits (numeral (num.Bit0 k)) = Suc (nbits (numeral k))"
  "nbits (numeral (num.Bit1 k)) = Suc (nbits (numeral k))"
  by (simp_all add: nbits.simps [of "numeral _"] nbits.simps [of "Suc 0"])

lemma isqrt_eval:
  "isqrt 0 = 0" "isqrt 1 = 1" "isqrt (Suc 0) = 1"
  "isqrt (numeral k) =
     (let r = 2 * isqrt (numeral k div 4) in if Suc r * Suc r \<le> numeral k then Suc r else r)"
  by (simp_all add: isqrt.simps [of "numeral _"] isqrt.simps [of 0] isqrt.simps [of "Suc 0"])

lemmas fp_eval =
  nbits_eval isqrt_eval f32_add_def f32_sub_def f32_mul_def f32_div_def f32_sqrt_def f32_neg_def
  f32_lt_def f32_eq_def f32_is_nan_def f32_key_def f32_zero_def f32_one_def f32_minus_one_def
  f32_max_def unpack32_def pack32_def fp_add_def fp_sub_def fp_neg_def fp_mul_def fp_div_def
  fp_sqrt_def fp_lt_def fp_eq_def fp_key_def fp_is_nan_def fp_is_inf_def fp_nan_def fp_inf_def
  mag_def sval_def round_units_def round_sqrt_def rne_def

end
