(* ===== verification/Distance.thy ===== *)
theory Distance
  imports Ieee_Float
begin

text \<open>
  \<^verbatim>\<open>include/toyvdb/types.hpp\<close> and \<^verbatim>\<open>include/toyvdb/distance.hpp\<close>: the identifier types, the search hit
  record and the three distance kernels, each a loop over the first \<open>d\<close> components of two arrays that
  reads them with a bounds check. The lemmas give the kernels' values on arrays that are long enough
  and the metric properties they keep in floating point: symmetry, non-negativity of L2, the range of
  cosine.
\<close>

section \<open>Types\<close>

type_synonym internal_id = u32
type_synonym dim = u32
type_synonym score = f32
type_synonym fvec = "f32 list"

definition kInvalidId :: internal_id where
  "kInvalidId = - 1"

record search_result =
  sr_id :: internal_id
  sr_score :: score

datatype metric_kind = L2 | Cosine | Dot

section \<open>Kernels\<close>

definition l2_step :: "fvec \<Rightarrow> fvec \<Rightarrow> nat \<Rightarrow> score \<Rightarrow> score res" where
  "l2_step a b i acc =
     rbind (vget a i) (\<lambda>x. rbind (vget b i) (\<lambda>y.
       let diff = f32_sub x y in Inr (f32_add acc (f32_mul diff diff))))"

definition l2_distance :: "fvec \<Rightarrow> fvec \<Rightarrow> dim \<Rightarrow> score res" where
  "l2_distance a b d = rfold (l2_step a b) [0..<unat d] f32_zero"

definition dot_step :: "fvec \<Rightarrow> fvec \<Rightarrow> nat \<Rightarrow> score \<Rightarrow> score res" where
  "dot_step a b i dot =
     rbind (vget a i) (\<lambda>x. rbind (vget b i) (\<lambda>y. Inr (f32_add dot (f32_mul x y))))"

definition dot_distance :: "fvec \<Rightarrow> fvec \<Rightarrow> dim \<Rightarrow> score res" where
  "dot_distance a b d =
     rbind (rfold (dot_step a b) [0..<unat d] f32_zero) (\<lambda>dot. Inr (f32_neg dot))"

definition cosine_step ::
  "fvec \<Rightarrow> fvec \<Rightarrow> nat \<Rightarrow> score \<times> score \<times> score \<Rightarrow> (score \<times> score \<times> score) res" where
  "cosine_step a b i acc =
     rbind (vget a i) (\<lambda>x. rbind (vget b i) (\<lambda>y.
       case acc of (dot, na, nb) \<Rightarrow>
         Inr (f32_add dot (f32_mul x y), f32_add na (f32_mul x x), f32_add nb (f32_mul y y))))"

definition cosine_finish :: "score \<times> score \<times> score \<Rightarrow> score" where
  "cosine_finish acc =
     (case acc of (dot, na, nb) \<Rightarrow>
       let denom = f32_mul (f32_sqrt na) (f32_sqrt nb)
       in if f32_eq denom f32_zero then f32_one
          else let sim = f32_div dot denom;
                   sim = (if f32_lt f32_one sim then f32_one else sim);
                   sim = (if f32_lt sim f32_minus_one then f32_minus_one else sim)
               in f32_sub f32_one sim)"

definition cosine_distance :: "fvec \<Rightarrow> fvec \<Rightarrow> dim \<Rightarrow> score res" where
  "cosine_distance a b d =
     rbind (rfold (cosine_step a b) [0..<unat d] (f32_zero, f32_zero, f32_zero))
       (\<lambda>acc. Inr (cosine_finish acc))"

fun metric_distance :: "metric_kind \<Rightarrow> fvec \<Rightarrow> fvec \<Rightarrow> dim \<Rightarrow> score res" where
  "metric_distance L2 = l2_distance"
| "metric_distance Cosine = cosine_distance"
| "metric_distance Dot = dot_distance"

fun metric_name :: "metric_kind \<Rightarrow> string" where
  "metric_name L2 = ''l2''"
| "metric_name Cosine = ''cosine''"
| "metric_name Dot = ''dot''"

text \<open>The span overload: the dimension is the first span's size.\<close>

definition distance_spans :: "metric_kind \<Rightarrow> fvec \<Rightarrow> fvec \<Rightarrow> score res" where
  "distance_spans m a b = metric_distance m a b (of_nat (length a))"

section \<open>Kernel values\<close>

text \<open>The value a kernel computes when both arrays reach up to the dimension.\<close>

definition l2_value :: "fvec \<Rightarrow> fvec \<Rightarrow> score" where
  "l2_value a b =
     fold (\<lambda>(x, y) acc. f32_add acc (f32_mul (f32_sub x y) (f32_sub x y))) (zip a b) f32_zero"

definition dot_value :: "fvec \<Rightarrow> fvec \<Rightarrow> score" where
  "dot_value a b = f32_neg (fold (\<lambda>(x, y) dot. f32_add dot (f32_mul x y)) (zip a b) f32_zero)"

definition cosine_value :: "fvec \<Rightarrow> fvec \<Rightarrow> score" where
  "cosine_value a b =
     cosine_finish (fold (\<lambda>(x, y) (dot, na, nb).
       (f32_add dot (f32_mul x y), f32_add na (f32_mul x x), f32_add nb (f32_mul y y)))
       (zip a b) (f32_zero, f32_zero, f32_zero))"

fun metric_value :: "metric_kind \<Rightarrow> fvec \<Rightarrow> fvec \<Rightarrow> score" where
  "metric_value L2 = l2_value"
| "metric_value Cosine = cosine_value"
| "metric_value Dot = dot_value"

lemma rfold_index:
  assumes "n \<le> length a" and "n \<le> length b"
    and "\<And>i s. i < n \<Longrightarrow> f i s = Inr (g (a ! i, b ! i) s)"
  shows "rfold f [0..<n] s = Inr (fold g (zip (take n a) (take n b)) s)"
  using assms
proof (induction n arbitrary: s)
  case (Suc n)
  have "zip (take (Suc n) a) (take (Suc n) b) = zip (take n a) (take n b) @ [(a ! n, b ! n)]"
    using Suc.prems by (simp add: take_Suc_conv_app_nth)
  with Suc show ?case
    by (simp add: rfold_append)
qed simp

lemma metric_distance_value:
  assumes "unat d \<le> length a" and "unat d \<le> length b"
  shows "metric_distance m a b d = Inr (metric_value m (take (unat d) a) (take (unat d) b))"
proof (cases m)
  case L2
  have "rfold (l2_step a b) [0..<unat d] f32_zero = Inr (l2_value (take (unat d) a) (take (unat d) b))"
    unfolding l2_value_def using assms
    by (intro rfold_index) (simp_all add: l2_step_def vec_simps Let_def)
  with L2 show ?thesis
    by (simp add: l2_distance_def)
next
  case Dot
  have "rfold (dot_step a b) [0..<unat d] f32_zero =
      Inr (fold (\<lambda>(x, y) dot. f32_add dot (f32_mul x y)) (zip (take (unat d) a) (take (unat d) b)) f32_zero)"
    using assms by (intro rfold_index) (simp_all add: dot_step_def vec_simps)
  with Dot show ?thesis
    by (simp add: dot_distance_def dot_value_def)
next
  case Cosine
  have "rfold (cosine_step a b) [0..<unat d] acc = Inr (fold (\<lambda>(x, y) (dot, na, nb).
       (f32_add dot (f32_mul x y), f32_add na (f32_mul x x), f32_add nb (f32_mul y y)))
       (zip (take (unat d) a) (take (unat d) b)) acc)" for acc
    using assms by (intro rfold_index) (simp_all add: cosine_step_def vec_simps split: prod.split)
  with Cosine show ?thesis
    by (simp add: cosine_distance_def cosine_value_def)
qed

section \<open>Symmetry\<close>

lemma l2_step_commute: "l2_step a b = l2_step b a"
proof (intro ext)
  fix i acc
  have "f32_mul (f32_sub x y) (f32_sub x y) = f32_mul (f32_sub y x) (f32_sub y x)" for x y
    unfolding f32_mul_def unpack_f32_op
    by (rule arg_cong [where f = pack32]) (rule fp_mul_self_cong, rule snd_fp_sub_commute)
  then show "l2_step a b i acc = l2_step b a i acc"
    by (auto simp: l2_step_def vget_def Let_def)
qed

lemma f32_mul_commute: "f32_mul x y = f32_mul y x"
  by (simp add: f32_mul_def fp_mul_commute)

lemma dot_step_commute: "dot_step a b = dot_step b a"
  by (auto simp: dot_step_def vget_def f32_mul_commute fun_eq_iff)

lemma cosine_loop_commute:
  "rbind (rfold (cosine_step a b) is (dot, na, nb)) (\<lambda>acc. Inr (cosine_finish acc)) =
   rbind (rfold (cosine_step b a) is (dot, nb, na)) (\<lambda>acc. Inr (cosine_finish acc))"
proof (induction "is" arbitrary: dot na nb)
  case Nil
  show ?case
    by (simp add: cosine_finish_def f32_mul_commute)
next
  case (Cons i "is")
  have "vget a i = Inl Undefined_behaviour \<or> vget a i = Inr (a ! i)"
    and "vget b i = Inl Undefined_behaviour \<or> vget b i = Inr (b ! i)"
    by (auto simp: vget_def)
  with Cons show ?case
    by (auto simp: cosine_step_def f32_mul_commute)
qed

text \<open>Every metric is symmetric, bit for bit: exchanging the vectors gives the same float, or the same
  failure.\<close>

lemma metric_distance_sym: "metric_distance m a b d = metric_distance m b a d"
proof (cases m)
  case Cosine
  then show ?thesis
    by (simp add: cosine_distance_def cosine_loop_commute [of a b])
qed (simp_all add: l2_distance_def dot_distance_def l2_step_commute [of a] dot_step_commute [of a])

section \<open>Ranges\<close>

definition f32_nonneg :: "f32 \<Rightarrow> bool" where
  "f32_nonneg x \<longleftrightarrow> fp_nonneg binary32 (unpack32 x)"

lemma f32_nonneg_not_lt: "f32_nonneg x \<Longrightarrow> \<not> f32_lt x f32_zero"
  by (auto simp: f32_nonneg_def fp_nonneg_def f32_lt_def fp_lt_def fp_key_def f32_zero_def unpack32_def)

lemma l2_loop_nonneg:
  "f32_nonneg acc \<Longrightarrow> rfold (l2_step a b) is acc = Inr s \<Longrightarrow> f32_nonneg s"
proof (induction "is" arbitrary: acc)
  case (Cons i "is")
  from Cons.prems(2) obtain z where "l2_step a b i acc = Inr z" and "rfold (l2_step a b) is z = Inr s"
    by (auto simp: res_simps)
  moreover from this Cons.prems(1) have "f32_nonneg z"
    by (auto simp: l2_step_def Let_def res_simps f32_nonneg_def unpack_f32_op
        intro!: fp_add_nonneg fp_mul_self_nonneg)
  ultimately show ?case
    using Cons.IH by blast
qed simp

lemma l2_distance_nonneg: "l2_distance a b d = Inr s \<Longrightarrow> \<not> f32_lt s f32_zero"
  unfolding l2_distance_def
  by (rule f32_nonneg_not_lt, rule l2_loop_nonneg)
    (auto simp: f32_nonneg_def fp_nonneg_def f32_zero_def unpack32_def)

definition f32_finite :: "f32 \<Rightarrow> bool" where
  "f32_finite x \<longleftrightarrow> snd (unpack32 x) < inf_bits binary32"

lemma f32_add_mul_zero: "f32_finite x \<Longrightarrow> f32_add f32_zero (f32_mul (f32_sub x x) (f32_sub x x)) = f32_zero"
proof -
  assume "f32_finite x"
  then have "f32_sub x x = f32_zero"
    by (simp add: f32_sub_def f32_finite_def fp_sub_self pack32_def f32_zero_def)
  moreover have "f32_add f32_zero (f32_mul f32_zero f32_zero) = f32_zero"
    by (simp add: fp_eval)
  ultimately show ?thesis by simp
qed

text \<open>The squared L2 distance of a finite vector to itself is positive zero.\<close>

lemma l2_distance_refl:
  assumes "\<forall>x \<in> set a. f32_finite x" and "unat d \<le> length a"
  shows "l2_distance a a d = Inr f32_zero"
proof -
  have "rfold (l2_step a a) is f32_zero = Inr f32_zero" if "\<forall>i \<in> set is. i < length a" for "is"
    using that assms(1) by (induction "is") (simp_all add: l2_step_def vec_simps f32_add_mul_zero)
  with assms(2) show ?thesis
    by (simp add: l2_distance_def)
qed

lemma l2_distance_refl_witness: "l2_distance [f32_one] [f32_one] 1 = Inr f32_zero"
  using l2_distance_refl [of "[f32_one]" 1] by (simp add: f32_finite_def fp_eval)

text \<open>One minus a similarity between -1 and 1 lies between 0 and 2.\<close>

definition f32_two :: f32 where "f32_two = 0x40000000"

lemma one_minus_range:
  assumes "\<not> f32_is_nan s" and "\<bar>f32_key s\<bar> \<le> f32_key f32_one"
  shows "0 \<le> f32_key (f32_sub f32_one s) \<and> f32_key (f32_sub f32_one s) \<le> f32_key f32_two"
proof -
  let ?F = binary32 and ?s = "unpack32 s"
  have one: "unpack32 f32_one = (False, 1065353216)" and two: "f32_key f32_two = 1073741824"
    by (simp_all add: f32_one_def f32_two_def unpack32_def f32_key_def fp_key_def)
  have fin: "snd ?s \<le> 1065353216"
    using assms(2) by (auto simp: f32_key_def one fp_key_def split: if_splits)
  have "mag ?F (snd ?s) \<le> mag ?F 1065353216"
    using fin mag_strict_mono [of "snd ?s" 1065353216 ?F] by (cases "snd ?s = 1065353216") simp_all
  then have v: "0 \<le> sval ?F (False, 1065353216) + sval ?F (fp_neg ?s)"
    "nat \<bar>sval ?F (False, 1065353216) + sval ?F (fp_neg ?s)\<bar> \<le> mag ?F 1073741824"
    by (auto simp: sval_def mag_def)
  have "round_units ?F (nat \<bar>sval ?F (False, 1065353216) + sval ?F (fp_neg ?s)\<bar>) 1 \<le> 1073741824"
    using round_units_mono [OF _ _ v(2), of 1 ?F] round_units_mag [of 1073741824 ?F] by simp
  then show ?thesis
    unfolding two using v(1) fin
    by (auto simp: f32_key_def unpack_f32_op one fp_sub_def fp_add_def fp_is_nan_def
        fp_is_inf_def fp_key_def Let_def)
qed

lemma cosine_finish_range: "\<not> f32_lt (cosine_finish acc) f32_zero \<and> \<not> f32_lt f32_two (cosine_finish acc)"
proof -
  obtain dot na nb where acc: "acc = (dot, na, nb)"
    by (cases acc)
  define clamp where "clamp = (\<lambda>s. let s = (if f32_lt f32_one s then f32_one else s)
    in (if f32_lt s f32_minus_one then f32_minus_one else s))"
  have keys: "f32_key f32_one = 1065353216" "f32_key f32_minus_one = - 1065353216"
    "f32_key f32_zero = 0" "f32_key f32_two = 1073741824" "\<not> f32_is_nan f32_one"
    "\<not> f32_is_nan f32_minus_one"
    by (simp_all add: fp_eval f32_two_def)
  have "f32_is_nan (f32_sub f32_one s) \<or> (0 \<le> f32_key (f32_sub f32_one s) \<and> f32_key (f32_sub f32_one s) \<le> f32_key f32_two)"
    if "s = clamp t" for s t
  proof (cases "f32_is_nan s")
    case True
    then show ?thesis
      by (simp add: f32_is_nan_def unpack_f32_op fp_sub_def fp_add_def)
  next
    case False
    then have "\<bar>f32_key s\<bar> \<le> f32_key f32_one"
      using that keys by (auto simp: clamp_def Let_def f32_lt_iff split: if_splits)
    with False show ?thesis
      using one_minus_range by blast
  qed
  from this [OF refl, of "f32_div dot (f32_mul (f32_sqrt na) (f32_sqrt nb))"] show ?thesis
    unfolding acc cosine_finish_def clamp_def using keys
    by (auto simp: Let_def f32_lt_iff split: if_splits)
qed

lemma distance_in_range:
  "l2_distance a b d = Inr s \<Longrightarrow> \<not> f32_lt s f32_zero"
  "cosine_distance a b d = Inr s \<Longrightarrow> \<not> f32_lt s f32_zero \<and> \<not> f32_lt f32_two s"
  by (rule l2_distance_nonneg, assumption) (auto simp: cosine_distance_def res_simps cosine_finish_range)

text \<open>On arrays that reach up to the dimension no kernel reads out of bounds; a squared L2 distance is
  never negative and a cosine distance never leaves the interval from 0 to 2, whatever the rounding
  errors, overflows and NaNs of its computation.\<close>

lemma distance_ranges:
  assumes "unat d \<le> length a" and "unat d \<le> length b"
  shows "\<exists>s. metric_distance m a b d = Inr s \<and>
    (m = L2 \<longrightarrow> \<not> f32_lt s f32_zero) \<and>
    (m = Cosine \<longrightarrow> \<not> f32_lt s f32_zero \<and> \<not> f32_lt f32_two s)"
proof -
  obtain s where "metric_distance m a b d = Inr s"
    using metric_distance_value [OF assms] by blast
  then show ?thesis
    using distance_in_range by (cases m) auto
qed

lemma distance_ranges_witness:
  "\<exists>s. cosine_distance [f32_one, f32_minus_one] [f32_minus_one, f32_one] 2 = Inr s \<and>
     \<not> f32_lt s f32_zero \<and> \<not> f32_lt f32_two s"
  using distance_ranges [of 2 "[f32_one, f32_minus_one]" "[f32_minus_one, f32_one]" Cosine] by simp

end
