(* ===== verification/Metadata.thy ===== *)
theory Metadata
  imports Ieee_Float "HOL-Library.Char_ord" "HOL-Library.List_Lexorder" "HOL-Library.AList"
begin

text \<open>
  \<^verbatim>\<open>include/toyvdb/metadata.hpp\<close>: metadata values, their three-way comparison, and the filter
  expression tree. A metadata map is the list of its entries in iteration order, with distinct keys;
  lookups go through \<open>map_of\<close> and assignments through \<open>AList.update\<close>.
\<close>

section \<open>Values and maps\<close>

datatype meta_value =
    MInt u64        \<comment> \<open>\<^verbatim>\<open>std::int64_t\<close>, as its bits\<close>
  | MDouble f64
  | MString string
  | MBool bool

type_synonym metadata = "(string \<times> meta_value) list"

definition meta_wf :: "metadata \<Rightarrow> bool" where
  "meta_wf m \<longleftrightarrow> distinct (map fst m)"

definition meta_find :: "metadata \<Rightarrow> string \<Rightarrow> meta_value option" where
  "meta_find m k = map_of m k"

definition meta_assign :: "string \<Rightarrow> meta_value \<Rightarrow> metadata \<Rightarrow> metadata" where
  "meta_assign k v m = AList.update k v m"

section \<open>Comparison\<close>

fun as_number :: "meta_value \<Rightarrow> f64 option" where
  "as_number (MInt i) = Some (f64_of_int (sint i))"
| "as_number (MDouble d) = Some d"
| "as_number (MString _) = None"
| "as_number (MBool _) = None"

definition compare :: "meta_value \<Rightarrow> meta_value \<Rightarrow> int option" where
  "compare a b =
     (case (as_number a, as_number b) of
        (Some na, Some nb) \<Rightarrow>
          (if f64_lt na nb then Some (- 1) else if f64_lt nb na then Some 1 else Some 0)
      | _ \<Rightarrow>
          (case (a, b) of
             (MString p, MString rhs) \<Rightarrow>
               Some (if p < rhs then - 1 else if rhs < p then 1 else 0)
           | (MBool p, MBool rhs) \<Rightarrow>
               (if p = rhs then Some 0 else if p then Some 1 else Some (- 1))
           | _ \<Rightarrow> None))"

section \<open>Filters\<close>

datatype cmp = Eq | Ne | Lt | Le | Gt | Ge

datatype filter =
    FCmp string cmp meta_value
  | FIn string "meta_value list"
  | FAnd "filter list"
  | FOr "filter list"
  | FNot "filter"

definition filter_cmp :: "string \<Rightarrow> cmp \<Rightarrow> meta_value \<Rightarrow> filter" where "filter_cmp k c v = FCmp k c v"
definition filter_eq :: "string \<Rightarrow> meta_value \<Rightarrow> filter" where "filter_eq k v = filter_cmp k Eq v"
definition filter_ne :: "string \<Rightarrow> meta_value \<Rightarrow> filter" where "filter_ne k v = filter_cmp k Ne v"
definition filter_lt :: "string \<Rightarrow> meta_value \<Rightarrow> filter" where "filter_lt k v = filter_cmp k Lt v"
definition filter_le :: "string \<Rightarrow> meta_value \<Rightarrow> filter" where "filter_le k v = filter_cmp k Le v"
definition filter_gt :: "string \<Rightarrow> meta_value \<Rightarrow> filter" where "filter_gt k v = filter_cmp k Gt v"
definition filter_ge :: "string \<Rightarrow> meta_value \<Rightarrow> filter" where "filter_ge k v = filter_cmp k Ge v"
definition filter_in :: "string \<Rightarrow> meta_value list \<Rightarrow> filter" where "filter_in k vs = FIn k vs"
definition filter_all_of :: "filter list \<Rightarrow> filter" where "filter_all_of cs = FAnd cs"
definition filter_any_of :: "filter list \<Rightarrow> filter" where "filter_any_of cs = FOr cs"
definition filter_negate :: "filter \<Rightarrow> filter" where "filter_negate c = FNot c"

lemmas filter_factory_defs =
  filter_cmp_def filter_eq_def filter_ne_def filter_lt_def filter_le_def filter_gt_def filter_ge_def
  filter_in_def filter_all_of_def filter_any_of_def filter_negate_def

fun eval_cmp :: "int \<Rightarrow> cmp \<Rightarrow> bool" where
  "eval_cmp c Eq = (c = 0)"
| "eval_cmp c Ne = (c \<noteq> 0)"
| "eval_cmp c Lt = (c < 0)"
| "eval_cmp c Le = (c \<le> 0)"
| "eval_cmp c Gt = (c > 0)"
| "eval_cmp c Ge = (c \<ge> 0)"

fun matches :: "filter \<Rightarrow> metadata \<Rightarrow> bool" where
  "matches (FCmp key op value) m =
     (case meta_find m key of
        None \<Rightarrow> False
      | Some v \<Rightarrow> (case compare v value of None \<Rightarrow> False | Some c \<Rightarrow> eval_cmp c op))"
| "matches (FIn key vs) m =
     (case meta_find m key of
        None \<Rightarrow> False
      | Some v \<Rightarrow> list_ex (\<lambda>x. compare v x = Some 0) vs)"
| "matches (FAnd cs) m = list_all (\<lambda>c. matches c m) cs"
| "matches (FOr cs) m = list_ex (\<lambda>c. matches c m) cs"
| "matches (FNot c) m = (\<not> matches c m)"

section \<open>Properties of the comparison\<close>

lemma f64_lt_asym: "f64_lt a b \<Longrightarrow> \<not> f64_lt b a"
  by (auto simp: f64_lt_def fp_lt_def)

text \<open>Swapping the operands of a comparison negates its sign and keeps incomparability.\<close>

lemma compare_antisym: "compare b a = map_option uminus (compare a b)"
  by (cases a; cases b) (auto simp: compare_def dest: f64_lt_asym)

text \<open>Two 64-bit integers of magnitude at most 2 to the 53 compare as integers, although the
  comparison goes through doubles.\<close>

lemma compare_int_exact:
  assumes "\<bar>sint a\<bar> \<le> 2 ^ 53" and "\<bar>sint b\<bar> \<le> 2 ^ 53"
  shows "compare (MInt a) (MInt b) = Some (sgn (sint a - sint b))"
  using f64_of_int_less_iff [OF assms] f64_of_int_less_iff [OF assms(2,1)]
  by (auto simp: compare_def)

lemma compare_int_exact_witness:
  "compare (MInt 5) (MInt (- 7)) = Some 1"
  using compare_int_exact [of 5 "- 7"] by simp

text \<open>Past that magnitude distinct integers compare as equal: 2 to the 53 and its successor.\<close>

lemma compare_int_rounds:
  "compare (MInt (2 ^ 53)) (MInt (2 ^ 53 + 1)) = Some 0"
proof -
  have "round_units binary64 (nat \<bar>2 ^ 53 + 1\<bar> * 2 ^ 1074) 1 =
      round_units binary64 (nat \<bar>2 ^ 53\<bar> * 2 ^ 1074) 1"
    by (subst fp_of_int_bits, simp, simp add: nbits_eval)+ (simp add: nbits_eval rne_def)
  then have "fp_of_int binary64 (2 ^ 53 + 1) = fp_of_int binary64 (2 ^ 53)"
    by (simp add: fp_of_int_def)
  then have "f64_of_int (2 ^ 53 + 1) = f64_of_int (2 ^ 53)"
    by (simp add: f64_of_int_def)
  moreover have "sint (2 ^ 53 :: u64) = 2 ^ 53" "sint (2 ^ 53 + 1 :: u64) = 2 ^ 53 + 1"
    by simp_all
  ultimately show ?thesis
    by (simp only: compare_def as_number.simps) (simp add: f64_lt_def fp_lt_def)
qed

text \<open>A NaN compares equal to every number, so an equality filter on a NaN entry matches any
  number and a NaN filter value matches any numeric entry.\<close>

lemma compare_nan: "f64_is_nan d \<Longrightarrow> as_number v \<noteq> None \<Longrightarrow> compare (MDouble d) v = Some 0"
  by (cases v) (simp_all add: compare_def f64_lt_def fp_lt_def f64_is_nan_def)

lemma compare_nan_witness: "compare (MDouble 0x7FF8000000000000) (MInt 3) = Some 0"
  by (rule compare_nan) (simp_all add: f64_is_nan_def fp_is_nan_def unpack64_def)

section \<open>Properties of filters\<close>

text \<open>Negation distributes over a conjunction of filters as a disjunction of negations.\<close>

lemma matches_de_morgan:
  "matches (filter_negate (filter_all_of cs)) m = matches (filter_any_of (map filter_negate cs)) m"
  by (auto simp: filter_factory_defs list_all_iff list_ex_iff)

text \<open>The leaves on one key are coherent: less-or-equal is less or equal, greater-or-equal is greater or
  equal, different is less or greater, less and greater exclude each other, \<open>in\<close> is a disjunction of
  equalities; and a missing key matches no leaf, not even the negated comparison.\<close>

lemma matches_leaves:
  "(matches (filter_le k v) m \<longleftrightarrow> matches (filter_lt k v) m \<or> matches (filter_eq k v) m)
   \<and> (matches (filter_ge k v) m \<longleftrightarrow> matches (filter_gt k v) m \<or> matches (filter_eq k v) m)
   \<and> (matches (filter_ne k v) m \<longleftrightarrow> matches (filter_lt k v) m \<or> matches (filter_gt k v) m)
   \<and> \<not> (matches (filter_lt k v) m \<and> matches (filter_gt k v) m)
   \<and> (matches (filter_in k vs) m \<longleftrightarrow> matches (filter_any_of (map (filter_eq k) vs)) m)
   \<and> (case meta_find m k of None \<Rightarrow> \<not> matches (FCmp k c v) m \<and> \<not> matches (FIn k vs) m | Some _ \<Rightarrow> True)"
  by (auto simp: filter_factory_defs list_ex_iff split: option.splits)

end
