(* ===== verification/Vector_Store.thy ===== *)
theory Vector_Store
  imports Distance Metadata
begin

text \<open>
  \<^verbatim>\<open>include/toyvdb/vector_store.hpp\<close> and \<^verbatim>\<open>src/vector_store.cpp\<close>: the storage layer. The state keeps the
  source's structure-of-arrays: one flat arena of floats, the liveness bytes, the external ids, the
  metadata, the map from external to internal ids and the live counter. The abstraction is the map
  from external ids to the vector and metadata of the live entries; every operation preserves the
  representation invariant, never touches memory out of bounds, and acts on the abstraction as the
  logical operation it stands for.
\<close>

section \<open>Operations of the log\<close>

datatype op_type = Insert | Update | Delete

record op =
  op_type :: op_type
  op_ext_id :: string
  op_vec :: fvec
  op_meta :: "metadata option"

section \<open>The store\<close>

record vector_store =
  vs_dim :: dim
  arena :: fvec
  live :: "u8 list"
  ext_ids :: "string list"
  metas :: "metadata list"
  ext_to_int :: "string \<rightharpoonup> internal_id"
  live_count :: nat

definition vs_empty :: "dim \<Rightarrow> vector_store" where
  "vs_empty d = \<lparr>vs_dim = d, arena = [], live = [], ext_ids = [], metas = [],
                 ext_to_int = Map.empty, live_count = 0\<rparr>"

definition vs_new :: "dim \<Rightarrow> vector_store res" where
  "vs_new d = (if d = 0 then Inl Invalid_argument else Inr (vs_empty d))"

definition validate_dim :: "vector_store \<Rightarrow> fvec \<Rightarrow> unit res" where
  "validate_dim s vec =
     (if (of_nat (length vec) :: dim) \<noteq> vs_dim s then Inl Invalid_argument else Inr ())"

definition slot_count :: "vector_store \<Rightarrow> nat" where
  "slot_count s = length (ext_ids s)"

definition vs_size :: "vector_store \<Rightarrow> nat" where
  "vs_size s = live_count s"

definition do_insert ::
  "string \<Rightarrow> fvec \<Rightarrow> metadata \<Rightarrow> vector_store \<Rightarrow> (internal_id \<times> vector_store) res" where
  "do_insert ext_id vec meta s =
     rbind (validate_dim s vec) (\<lambda>_.
       case ext_to_int s ext_id of
         Some i \<Rightarrow>
           rbind (copy_into (arena s) (unat i * unat (vs_dim s)) vec) (\<lambda>ar.
           rbind (vset (metas s) (unat i) meta) (\<lambda>ms.
           rbind (vget (live s) (unat i)) (\<lambda>l.
             if l = 0
             then rbind (vset (live s) (unat i) 1) (\<lambda>lv.
                    Inr (i, s\<lparr>arena := ar, metas := ms, live := lv,
                              live_count := live_count s + 1\<rparr>))
             else Inr (i, s\<lparr>arena := ar, metas := ms\<rparr>))))
       | None \<Rightarrow>
           let i = of_nat (length (ext_ids s)) in
           Inr (i, s\<lparr>arena := arena s @ vec,
                     live := live s @ [1],
                     ext_ids := ext_ids s @ [ext_id],
                     metas := metas s @ [meta],
                     ext_to_int := (ext_to_int s)(ext_id \<mapsto> i),
                     live_count := live_count s + 1\<rparr>))"

definition do_update ::
  "string \<Rightarrow> fvec \<Rightarrow> metadata option \<Rightarrow> vector_store \<Rightarrow> (internal_id option \<times> vector_store) res" where
  "do_update ext_id vec meta s =
     (case ext_to_int s ext_id of
        None \<Rightarrow> Inr (None, s)
      | Some i \<Rightarrow>
          rbind (vget (live s) (unat i)) (\<lambda>l.
            if l = 0 then Inr (None, s)
            else
              rbind (validate_dim s vec) (\<lambda>_.
              rbind (copy_into (arena s) (unat i * unat (vs_dim s)) vec) (\<lambda>ar.
                case meta of
                  None \<Rightarrow> Inr (Some i, s\<lparr>arena := ar\<rparr>)
                | Some m \<Rightarrow>
                    rbind (vset (metas s) (unat i) m) (\<lambda>ms.
                      Inr (Some i, s\<lparr>arena := ar, metas := ms\<rparr>))))))"

definition do_erase :: "string \<Rightarrow> vector_store \<Rightarrow> (internal_id option \<times> vector_store) res" where
  "do_erase ext_id s =
     (case ext_to_int s ext_id of
        None \<Rightarrow> Inr (None, s)
      | Some i \<Rightarrow>
          rbind (vget (live s) (unat i)) (\<lambda>l.
            if l = 0 then Inr (None, s)
            else rbind (vset (live s) (unat i) 0) (\<lambda>lv.
                   Inr (Some i, s\<lparr>live := lv, live_count := live_count s - 1\<rparr>))))"

definition vs_apply :: "op \<Rightarrow> vector_store \<Rightarrow> (internal_id option \<times> vector_store) res" where
  "vs_apply p s =
     (case op_type p of
        Insert \<Rightarrow>
          rbind (do_insert (op_ext_id p) (op_vec p) (case op_meta p of Some m \<Rightarrow> m | None \<Rightarrow> []) s)
            (\<lambda>(i, s'). Inr (Some i, s'))
      | Update \<Rightarrow> do_update (op_ext_id p) (op_vec p) (op_meta p) s
      | Delete \<Rightarrow> do_erase (op_ext_id p) s)"

definition vs_insert ::
  "string \<Rightarrow> fvec \<Rightarrow> metadata \<Rightarrow> vector_store \<Rightarrow> (internal_id \<times> vector_store) res" where
  "vs_insert ext_id vec meta s =
     rbind (vs_apply \<lparr>op_type = Insert, op_ext_id = ext_id, op_vec = vec, op_meta = Some meta\<rparr> s)
       (\<lambda>(r, s'). case r of None \<Rightarrow> Inl Bad_optional_access | Some i \<Rightarrow> Inr (i, s'))"

definition vs_update ::
  "string \<Rightarrow> fvec \<Rightarrow> metadata option \<Rightarrow> vector_store \<Rightarrow> (bool \<times> vector_store) res" where
  "vs_update ext_id vec meta s =
     rbind (vs_apply \<lparr>op_type = Update, op_ext_id = ext_id, op_vec = vec, op_meta = meta\<rparr> s)
       (\<lambda>(r, s'). Inr (r \<noteq> None, s'))"

definition vs_erase :: "string \<Rightarrow> vector_store \<Rightarrow> (bool \<times> vector_store) res" where
  "vs_erase ext_id s =
     rbind (vs_apply \<lparr>op_type = Delete, op_ext_id = ext_id, op_vec = [], op_meta = None\<rparr> s)
       (\<lambda>(r, s'). Inr (r \<noteq> None, s'))"

subsection \<open>Reading\<close>

definition vs_get :: "vector_store \<Rightarrow> internal_id \<Rightarrow> fvec res" where
  "vs_get s i = span (arena s) (unat i * unat (vs_dim s)) (unat (vs_dim s))"

definition resolve :: "vector_store \<Rightarrow> string \<Rightarrow> internal_id option res" where
  "resolve s ext_id =
     (case ext_to_int s ext_id of
        None \<Rightarrow> Inr None
      | Some i \<Rightarrow> rbind (vget (live s) (unat i)) (\<lambda>l. Inr (if l = 0 then None else Some i)))"

definition vs_metadata :: "vector_store \<Rightarrow> internal_id \<Rightarrow> metadata option" where
  "vs_metadata s i = (if length (metas s) \<le> unat i then None else Some (metas s ! unat i))"

definition is_live :: "vector_store \<Rightarrow> internal_id \<Rightarrow> bool" where
  "is_live s i \<longleftrightarrow> unat i < length (live s) \<and> live s ! unat i \<noteq> 0"

definition external_id :: "vector_store \<Rightarrow> internal_id \<Rightarrow> string res" where
  "external_id s i = vget (ext_ids s) (unat i)"

section \<open>Rows of the arena\<close>

definition row :: "nat \<Rightarrow> 'a list \<Rightarrow> nat \<Rightarrow> 'a list" where
  "row d xs i = take d (drop (i * d) xs)"

lemma row_in_bounds: "length xs = n * d \<Longrightarrow> i < n \<Longrightarrow> i * d + d \<le> length xs"
  using mult_le_mono1 [of "Suc i" n d] by simp

lemma length_row: "length xs = n * d \<Longrightarrow> i < n \<Longrightarrow> length (row d xs i) = d"
  using row_in_bounds [of xs n d i] by (simp add: row_def)

lemma row_append:
  assumes "length xs = n * d" and "length ys = d" and "i \<le> n"
  shows "row d (xs @ ys) i = (if i = n then ys else row d xs i)"
proof (cases "i = n")
  case False
  with assms have "i * d + d \<le> length xs"
    using row_in_bounds [OF assms(1), of i] by simp
  with False show ?thesis by (simp add: row_def)
qed (simp add: row_def assms)

lemma take_drop_prefix:
  assumes "b + d \<le> a" and "a \<le> length xs"
  shows "take d (drop b (take a xs @ zs)) = take d (drop b xs)"
proof -
  have "length (drop b (take a xs)) = a - b" and "d \<le> a - b"
    using assms by simp_all
  then show ?thesis
    using assms by (simp add: drop_take min_def)
qed

lemma row_copy:
  assumes "length xs = n * d" and "length ys = d" and "i < n" and "j < n"
  shows "row d (take (i * d) xs @ ys @ drop (i * d + d) xs) j = (if j = i then ys else row d xs j)"
proof -
  have i: "i * d + d \<le> length xs" and j: "j * d + d \<le> length xs"
    using row_in_bounds [OF assms(1)] assms(3,4) by simp_all
  consider "j < i" | "j = i" | "i < j" by linarith
  then show ?thesis
  proof cases
    case 1
    then have "j * d + d \<le> i * d"
      using mult_le_mono1 [of "Suc j" i d] by simp
    with i 1 show ?thesis
      unfolding row_def by (subst take_drop_prefix) simp_all
  next
    case 2
    with i assms(2) show ?thesis
      by (simp add: row_def min_def)
  next
    case 3
    then have "i * d + d \<le> j * d"
      using mult_le_mono1 [of "Suc i" j d] by simp
    with i 3 assms(2) show ?thesis
      by (simp add: row_def min_def)
  qed
qed

section \<open>Representation invariant\<close>

definition store_wf :: "vector_store \<Rightarrow> bool" where
  "store_wf s \<longleftrightarrow>
     vs_dim s \<noteq> 0
   \<and> length (ext_ids s) < 2 ^ 32
   \<and> length (arena s) = length (ext_ids s) * unat (vs_dim s)
   \<and> length (live s) = length (ext_ids s)
   \<and> length (metas s) = length (ext_ids s)
   \<and> (\<forall>k i. ext_to_int s k = Some i \<longleftrightarrow> unat i < length (ext_ids s) \<and> ext_ids s ! unat i = k)
   \<and> live_count s = length (filter (\<lambda>l. l \<noteq> 0) (live s))
   \<and> (\<forall>m \<in> set (metas s). meta_wf m)"

text \<open>The vector of a slot, and the live entries as a map.\<close>

definition slot_vec :: "vector_store \<Rightarrow> internal_id \<Rightarrow> fvec" where
  "slot_vec s i = row (unat (vs_dim s)) (arena s) (unat i)"

definition store_abs :: "vector_store \<Rightarrow> string \<rightharpoonup> fvec \<times> metadata" where
  "store_abs s k =
     (case ext_to_int s k of
        None \<Rightarrow> None
      | Some i \<Rightarrow> if live s ! unat i = 0 then None else Some (slot_vec s i, metas s ! unat i))"

section \<open>Specification\<close>

text \<open>What a logical operation does to the map of live entries.\<close>

definition spec_apply ::
  "op \<Rightarrow> (string \<rightharpoonup> fvec \<times> metadata) \<Rightarrow> (string \<rightharpoonup> fvec \<times> metadata)" where
  "spec_apply p m =
     (case op_type p of
        Insert \<Rightarrow> m(op_ext_id p \<mapsto> (op_vec p, case op_meta p of Some x \<Rightarrow> x | None \<Rightarrow> []))
      | Update \<Rightarrow>
          (case m (op_ext_id p) of
             None \<Rightarrow> m
           | Some (_, old) \<Rightarrow>
               m(op_ext_id p \<mapsto> (op_vec p, case op_meta p of Some x \<Rightarrow> x | None \<Rightarrow> old)))
      | Delete \<Rightarrow> m(op_ext_id p := None))"

text \<open>An operation is admissible for a dimension when its vector has it (a delete carries none) and its
  metadata is a map.\<close>

definition op_ok :: "dim \<Rightarrow> op \<Rightarrow> bool" where
  "op_ok d p \<longleftrightarrow>
     (op_type p \<noteq> Delete \<longrightarrow> length (op_vec p) = unat d)
   \<and> (\<forall>m. op_meta p = Some m \<longrightarrow> meta_wf m)"

text \<open>There is a slot left for a new external id; the last id value is the invalid one.\<close>

definition has_room :: "vector_store \<Rightarrow> bool" where
  "has_room s \<longleftrightarrow> length (ext_ids s) < 2 ^ 32 - 1"

section \<open>Access to a well-formed store\<close>

lemma store_wfD:
  assumes "store_wf s"
  shows "vs_dim s \<noteq> 0" "length (ext_ids s) < 2 ^ 32"
    "length (arena s) = length (ext_ids s) * unat (vs_dim s)"
    "length (live s) = length (ext_ids s)" "length (metas s) = length (ext_ids s)"
    "live_count s = length (filter (\<lambda>l. l \<noteq> 0) (live s))"
    "\<And>m. m \<in> set (metas s) \<Longrightarrow> meta_wf m"
    "\<And>k i. ext_to_int s k = Some i \<longleftrightarrow> unat i < length (ext_ids s) \<and> ext_ids s ! unat i = k"
  using assms by (simp_all add: store_wf_def)

lemma ext_to_int_bound:
  assumes "store_wf s" and "ext_to_int s k = Some i"
  shows "unat i < length (ext_ids s)" "unat i < length (live s)" "unat i < length (metas s)"
    "ext_ids s ! unat i = k"
  using store_wfD [OF assms(1)] assms(2) by simp_all

lemma ext_to_int_inj:
  "store_wf s \<Longrightarrow> ext_to_int s k = Some i \<Longrightarrow> ext_to_int s l = Some i \<Longrightarrow> k = l"
  using store_wfD(8) [of s] by metis

lemma resolve_total: "store_wf s \<Longrightarrow>
  resolve s k = Inr (case ext_to_int s k of None \<Rightarrow> None | Some i \<Rightarrow> if live s ! unat i = 0 then None else Some i)"
  by (auto simp: resolve_def vec_simps ext_to_int_bound split: option.split)

lemma resolve_abs: "store_wf s \<Longrightarrow> \<exists>r. resolve s k = Inr r \<and> (r = None \<longleftrightarrow> store_abs s k = None)"
  by (auto simp: resolve_total store_abs_def split: option.split)

lemma vs_get_slot: "store_wf s \<Longrightarrow> unat i < slot_count s \<Longrightarrow> vs_get s i = Inr (slot_vec s i)"
  using row_in_bounds [of "arena s" "length (ext_ids s)" "unat (vs_dim s)" "unat i"]
  by (simp add: vs_get_def span_def slot_vec_def row_def slot_count_def store_wfD)

lemma length_slot_vec: "store_wf s \<Longrightarrow> unat i < slot_count s \<Longrightarrow> length (slot_vec s i) = unat (vs_dim s)"
  unfolding slot_vec_def slot_count_def by (rule length_row [OF store_wfD(3)])

lemma validate_dim_ok: "length vec = unat (vs_dim s) \<Longrightarrow> validate_dim s vec = Inr ()"
  by (simp add: validate_dim_def)

lemma validate_dim_fail:
  "length vec < 2 ^ 32 \<Longrightarrow> length vec \<noteq> unat (vs_dim s) \<Longrightarrow> validate_dim s vec = Inl Invalid_argument"
  by (metis unat_of_nat_u32 validate_dim_def)

text \<open>The arena with one slot overwritten.\<close>

definition slot_put :: "vector_store \<Rightarrow> internal_id \<Rightarrow> fvec \<Rightarrow> fvec" where
  "slot_put s i vec = take (unat i * unat (vs_dim s)) (arena s) @ vec @
     drop (unat i * unat (vs_dim s) + unat (vs_dim s)) (arena s)"

lemma slot_put:
  assumes "store_wf s" and "unat i < length (ext_ids s)" and "length vec = unat (vs_dim s)"
  shows "copy_into (arena s) (unat i * unat (vs_dim s)) vec = Inr (slot_put s i vec)"
    and "length (slot_put s i vec) = length (arena s)"
    and "unat j < length (ext_ids s) \<Longrightarrow>
      row (unat (vs_dim s)) (slot_put s i vec) (unat j) = (if j = i then vec else slot_vec s j)"
proof -
  note len = store_wfD(3) [OF assms(1)]
  note fits = row_in_bounds [OF len assms(2)]
  show "copy_into (arena s) (unat i * unat (vs_dim s)) vec = Inr (slot_put s i vec)"
    and "length (slot_put s i vec) = length (arena s)"
    using fits assms(3) by (simp_all add: copy_into_def slot_put_def)
  assume "unat j < length (ext_ids s)"
  then show "row (unat (vs_dim s)) (slot_put s i vec) (unat j) = (if j = i then vec else slot_vec s j)"
    using row_copy [OF len assms(3,2)] by (simp add: slot_put_def slot_vec_def)
qed

lemma live_filter_set:
  "i < length xs \<Longrightarrow> xs ! i = 0 \<Longrightarrow>
   length (filter (\<lambda>l. l \<noteq> (0::u8)) (xs[i := 1])) = Suc (length (filter (\<lambda>l. l \<noteq> 0) xs))"
  by (induction xs arbitrary: i) (auto simp: nth_Cons less_Suc_eq_0_disj split: nat.split)

lemma live_filter_reset:
  "i < length xs \<Longrightarrow> xs ! i \<noteq> 0 \<Longrightarrow>
   Suc (length (filter (\<lambda>l. l \<noteq> (0::u8)) (xs[i := 0]))) = length (filter (\<lambda>l. l \<noteq> 0) xs)"
  by (induction xs arbitrary: i) (auto simp: nth_Cons less_Suc_eq_0_disj split: nat.split)

text \<open>Every operation on a known external id rewrites the vector, metadata and liveness of its slot.\<close>

lemma store_overwrite:
  assumes wf: "store_wf s" and id: "ext_to_int s k = Some i"
    and len: "length vec = unat (vs_dim s)" and meta: "meta_wf m"
    and cnt: "c = length (filter (\<lambda>l. l \<noteq> 0) ((live s)[unat i := l]))"
  defines "s' \<equiv> s\<lparr>arena := slot_put s i vec, metas := (metas s)[unat i := m],
      live := (live s)[unat i := l], live_count := c\<rparr>"
  shows "store_wf s'"
    and "store_abs s' = (store_abs s)(k := if l = 0 then None else Some (vec, m))"
proof -
  note b = ext_to_int_bound [OF wf id] and D = store_wfD [OF wf] and put = slot_put [OF wf b(1) len]
  show "store_wf s'"
    using D(1,2,4,5) D(3) [symmetric] D(8) put(2) meta D(7)
    by (auto simp: store_wf_def s'_def cnt dest!: set_update_subset_insert [THEN subsetD])
  show "store_abs s' = (store_abs s)(k := if l = 0 then None else Some (vec, m))"
  proof
    fix x
    show "store_abs s' x = ((store_abs s)(k := if l = 0 then None else Some (vec, m))) x"
    proof (cases "ext_to_int s x")
      case None
      with id show ?thesis by (auto simp: store_abs_def s'_def)
    next
      case (Some j)
      have "j = i \<longleftrightarrow> x = k"
        using Some id ext_to_int_inj [OF wf] by auto
      then show ?thesis
        using Some put(3) [of j] ext_to_int_bound [OF wf Some] b
        by (auto simp: store_abs_def s'_def slot_vec_def nth_list_update)
    qed
  qed
qed

lemma store_append:
  assumes wf: "store_wf s" and id: "ext_to_int s k = None" and room: "has_room s"
    and len: "length vec = unat (vs_dim s)" and meta: "meta_wf m"
  defines "s' \<equiv> s\<lparr>arena := arena s @ vec, live := live s @ [1], ext_ids := ext_ids s @ [k],
      metas := metas s @ [m], ext_to_int := (ext_to_int s)(k \<mapsto> of_nat (length (ext_ids s))),
      live_count := live_count s + 1\<rparr>"
  shows "store_wf s'" and "store_abs s' = (store_abs s)(k \<mapsto> (vec, m))"
proof -
  note D = store_wfD [OF wf]
  let ?n = "length (ext_ids s)"
  have n: "unat (of_nat ?n :: u32) = ?n"
    using D(2) by (rule unat_of_nat_u32)
  have fresh: "ext_ids s ! unat i \<noteq> k" if "unat i < ?n" for i :: u32
    using D(8) [of k i] id that by simp
  have new: "unat i = ?n \<longleftrightarrow> i = of_nat ?n" for i :: u32
    using n by (metis unat_u32_inj)
  have "ext_to_int s' x = Some i \<longleftrightarrow> unat i < length (ext_ids s') \<and> ext_ids s' ! unat i = x" for x i
    using D(8) [of x i] fresh [of i] new [of i] n
    by (auto simp: s'_def nth_append less_Suc_eq)
  then show "store_wf s'"
    using D room len meta by (auto simp: store_wf_def s'_def has_room_def)
  show "store_abs s' = (store_abs s)(k \<mapsto> (vec, m))"
  proof
    fix x
    show "store_abs s' x = ((store_abs s)(k \<mapsto> (vec, m))) x"
    proof (cases "x = k")
      case True
      then show ?thesis
        using n D(3,4,5) row_append [OF D(3) len le_refl]
        by (simp add: store_abs_def s'_def slot_vec_def nth_append)
    next
      case False
      have "row (unat (vs_dim s)) (arena s @ vec) (unat j) = slot_vec s j"
        if "ext_to_int s x = Some j" for j
        using row_append [OF D(3) len, of "unat j"] ext_to_int_bound(1) [OF wf that]
        by (simp add: slot_vec_def)
      then show ?thesis
        using False D(4,5) ext_to_int_bound [OF wf]
        by (auto simp: store_abs_def s'_def slot_vec_def nth_append split: option.split)
    qed
  qed
qed

section \<open>The operations\<close>

lemma do_insert_spec:
  assumes wf: "store_wf s" and len: "length vec = unat (vs_dim s)" and meta: "meta_wf m"
    and room: "ext_to_int s k = None \<Longrightarrow> has_room s"
  shows "\<exists>i s'. do_insert k vec m s = Inr (i, s') \<and> store_wf s' \<and> vs_dim s' = vs_dim s
    \<and> store_abs s' = (store_abs s)(k \<mapsto> (vec, m)) \<and> ext_to_int s' k = Some i
    \<and> ext_ids s' = (if ext_to_int s k = None then ext_ids s @ [k] else ext_ids s)
    \<and> (\<forall>j. is_live s' j \<longleftrightarrow> j = i \<or> is_live s j)"
proof (cases "ext_to_int s k")
  case None
  with room have room: "has_room s" by simp
  have "is_live (s\<lparr>live := live s @ [1]\<rparr>) j \<longleftrightarrow> j = of_nat (length (ext_ids s)) \<or> is_live s j" for j
  proof -
    have "unat j = length (ext_ids s) \<longleftrightarrow> j = of_nat (length (ext_ids s))"
      using unat_of_nat_u32 [OF store_wfD(2) [OF wf]] by (metis unat_u32_inj)
    then show ?thesis
      by (auto simp: is_live_def nth_append store_wfD(4) [OF wf] less_Suc_eq)
  qed
  then show ?thesis
    using None store_append [OF wf None room len meta]
    by (simp add: do_insert_def validate_dim_ok len is_live_def Let_def)
next
  case (Some i)
  note b = ext_to_int_bound [OF wf Some]
  let ?l = "if live s ! unat i = 0 then 1 else live s ! unat i"
  let ?s = "s\<lparr>arena := slot_put s i vec, metas := (metas s)[unat i := m],
      live := (live s)[unat i := ?l], live_count := length (filter (\<lambda>l. l \<noteq> 0) ((live s)[unat i := ?l]))\<rparr>"
  have "do_insert k vec m s = Inr (i, ?s)"
    using b slot_put(1) [OF wf b(1) len]
    by (simp add: do_insert_def validate_dim_ok len Some vec_simps live_filter_set store_wfD(6) [OF wf])
  moreover have "is_live ?s j \<longleftrightarrow> j = i \<or> is_live s j" for j
    using b by (auto simp: is_live_def nth_list_update)
  ultimately show ?thesis
    using Some store_overwrite [OF wf Some len meta refl, of ?l]
    by (simp add: is_live_def)
qed

lemma do_update_spec:
  assumes wf: "store_wf s" and len: "length vec = unat (vs_dim s)"
    and meta: "\<And>x. m = Some x \<Longrightarrow> meta_wf x"
  shows "\<exists>s' r. do_update k vec m s = Inr (r, s') \<and> resolve s k = Inr r \<and> store_wf s' \<and> vs_dim s' = vs_dim s
    \<and> store_abs s' = (case store_abs s k of None \<Rightarrow> store_abs s
         | Some (_, old) \<Rightarrow> (store_abs s)(k \<mapsto> (vec, case m of Some x \<Rightarrow> x | None \<Rightarrow> old)))
    \<and> ext_ids s' = ext_ids s \<and> live s' = live s"
proof (cases "ext_to_int s k")
  case None
  with wf show ?thesis
    by (simp add: do_update_def resolve_total store_abs_def)
next
  case (Some i)
  note b = ext_to_int_bound [OF wf Some]
  show ?thesis
  proof (cases "live s ! unat i = 0")
    case True
    with Some wf b show ?thesis
      by (simp add: do_update_def resolve_total store_abs_def vec_simps)
  next
    case False
    let ?x = "case m of Some x \<Rightarrow> x | None \<Rightarrow> metas s ! unat i"
    have "meta_wf ?x"
      using meta b(3) store_wfD(7) [OF wf] by (auto split: option.split)
    note ow = store_overwrite [OF wf Some len this refl, of "live s ! unat i"]
    have "do_update k vec m s = Inr (Some i, s\<lparr>arena := slot_put s i vec, metas := (metas s)[unat i := ?x]\<rparr>)"
      using False b slot_put(1) [OF wf b(1) len]
      by (auto simp: do_update_def validate_dim_ok len Some vec_simps split: option.split)
    moreover have "s\<lparr>arena := slot_put s i vec, metas := (metas s)[unat i := ?x]\<rparr> =
        s\<lparr>arena := slot_put s i vec, metas := (metas s)[unat i := ?x], live := (live s)[unat i := live s ! unat i],
          live_count := length (filter (\<lambda>l. l \<noteq> 0) ((live s)[unat i := live s ! unat i]))\<rparr>"
      by (simp add: store_wfD(6) [OF wf, symmetric])
    ultimately show ?thesis
      using ow False Some wf by (auto simp: resolve_total store_abs_def split: option.split)
  qed
qed

lemma do_erase_spec:
  assumes wf: "store_wf s"
  shows "\<exists>s' r. do_erase k s = Inr (r, s') \<and> resolve s k = Inr r \<and> store_wf s' \<and> vs_dim s' = vs_dim s
    \<and> store_abs s' = (store_abs s)(k := None) \<and> ext_ids s' = ext_ids s
    \<and> (\<forall>j. is_live s' j \<longleftrightarrow> r \<noteq> Some j \<and> is_live s j)"
proof (cases "ext_to_int s k")
  case None
  then have "store_abs s k = None"
    by (simp add: store_abs_def)
  with None wf show ?thesis
    by (auto simp: do_erase_def resolve_total)
next
  case (Some i)
  note b = ext_to_int_bound [OF wf Some]
  show ?thesis
  proof (cases "live s ! unat i = 0")
    case True
    then have "store_abs s k = None"
      using Some by (simp add: store_abs_def)
    with True Some wf b show ?thesis
      by (auto simp: do_erase_def resolve_total vec_simps)
  next
    case False
    let ?s = "s\<lparr>live := (live s)[unat i := 0], live_count := live_count s - 1\<rparr>"
    have e: "do_erase k s = Inr (Some i, ?s)"
      using False b by (simp add: do_erase_def Some vec_simps)
    have cnt: "live_count s - 1 = length (filter (\<lambda>l. l \<noteq> 0) ((live s)[unat i := 0]))"
      using live_filter_reset [OF b(2) False] store_wfD(6) [OF wf] by simp
    have "store_wf ?s"
      using wf cnt by (simp add: store_wf_def)
    moreover have "store_abs ?s = (store_abs s)(k := None)"
    proof
      fix x
      show "store_abs ?s x = ((store_abs s)(k := None)) x"
        using Some b ext_to_int_inj [OF wf Some, of x]
        by (cases "ext_to_int s x") (auto simp: store_abs_def slot_vec_def nth_list_update)
    qed
    moreover have "is_live ?s j \<longleftrightarrow> Some i \<noteq> Some j \<and> is_live s j" for j
      using b by (auto simp: is_live_def nth_list_update)
    ultimately show ?thesis
      using e False Some wf by (simp add: resolve_total)
  qed
qed

lemma vs_apply_spec:
  assumes "store_wf s" and "op_ok (vs_dim s) p"
    and "ext_to_int s (op_ext_id p) = None \<Longrightarrow> op_type p = Insert \<Longrightarrow> has_room s"
  shows "\<exists>r s'. vs_apply p s = Inr (r, s') \<and> store_wf s' \<and> vs_dim s' = vs_dim s
    \<and> store_abs s' = spec_apply p (store_abs s)
    \<and> (op_type p = Insert \<longrightarrow> resolve s' (op_ext_id p) = Inr r \<and> r \<noteq> None)
    \<and> (op_type p \<noteq> Insert \<longrightarrow> resolve s (op_ext_id p) = Inr r)"
proof (cases "op_type p")
  case Insert
  have "meta_wf (case op_meta p of Some m \<Rightarrow> m | None \<Rightarrow> [])"
    using assms(2) by (auto simp: op_ok_def meta_wf_def split: option.split)
  then obtain i s' where "do_insert (op_ext_id p) (op_vec p) (case op_meta p of Some m \<Rightarrow> m | None \<Rightarrow> []) s = Inr (i, s')"
    "store_wf s'" "vs_dim s' = vs_dim s"
    "store_abs s' = (store_abs s)(op_ext_id p \<mapsto> (op_vec p, case op_meta p of Some m \<Rightarrow> m | None \<Rightarrow> []))"
    "ext_to_int s' (op_ext_id p) = Some i" "\<forall>j. is_live s' j \<longleftrightarrow> j = i \<or> is_live s j"
    using do_insert_spec [of s "op_vec p" "case op_meta p of Some m \<Rightarrow> m | None \<Rightarrow> []" "op_ext_id p"]
      assms Insert by (auto simp: op_ok_def)
  moreover from this(6) have "is_live s' i"
    by simp
  then have "live s' ! unat i \<noteq> 0"
    by (simp add: is_live_def)
  ultimately show ?thesis
    using Insert by (simp add: vs_apply_def spec_apply_def resolve_total)
next
  case Update
  then show ?thesis
    using do_update_spec [of s "op_vec p" "op_meta p" "op_ext_id p"] assms
    by (auto simp: op_ok_def vs_apply_def spec_apply_def)
next
  case Delete
  then show ?thesis
    using do_erase_spec [of s "op_ext_id p"] assms
    by (auto simp: vs_apply_def spec_apply_def)
qed


lemma vs_empty_wf: "d \<noteq> 0 \<Longrightarrow> store_wf (vs_empty d)" "store_abs (vs_empty d) = Map.empty"
  by (auto simp: store_wf_def vs_empty_def store_abs_def)

lemma vs_empty_fields [simp]:
  "vs_dim (vs_empty d) = d" "slot_count (vs_empty d) = 0" "ext_to_int (vs_empty d) = Map.empty"
  "ext_ids (vs_empty d) = []" "live (vs_empty d) = []"
  by (simp_all add: vs_empty_def slot_count_def)

text \<open>C27: On a well-formed store with room for a new id, an admissible operation succeeds (no
  exception, no access out of bounds), keeps the store well formed, acts on the live entries as its
  logical operation, and returns the id: of the entry it made, or of the live entry it changed.\<close>

theorem vs_apply_refines:
  assumes "store_wf s" and "op_ok (vs_dim s) p"
    and "ext_to_int s (op_ext_id p) = None \<Longrightarrow> op_type p = Insert \<Longrightarrow> has_room s"
  shows "\<exists>r s'. vs_apply p s = Inr (r, s') \<and> store_wf s' \<and> vs_dim s' = vs_dim s
    \<and> store_abs s' = spec_apply p (store_abs s)
    \<and> (op_type p = Insert \<longrightarrow> resolve s' (op_ext_id p) = Inr r \<and> r \<noteq> None)
    \<and> (op_type p \<noteq> Insert \<longrightarrow> resolve s (op_ext_id p) = Inr r)"
  using assms by (rule vs_apply_spec)

theorem vs_apply_refines_witness:
  "\<exists>s'. vs_apply \<lparr>op_type = Insert, op_ext_id = ''a'', op_vec = [f32_one], op_meta = None\<rparr> (vs_empty 1)
     = Inr (Some 0, s') \<and> store_wf s' \<and> store_abs s' ''a'' = Some ([f32_one], [])"
  using vs_apply_refines [OF vs_empty_wf(1), of 1 "\<lparr>op_type = Insert, op_ext_id = ''a'', op_vec = [f32_one], op_meta = None\<rparr>"]
  by (simp add: op_ok_def has_room_def spec_apply_def vs_apply_def do_insert_def validate_dim_def Let_def)

text \<open>A vector of the wrong length is rejected with \<open>invalid_argument\<close>, except that an update of an
  absent or deleted id is a no-op that never looks at the vector.\<close>

lemma vs_apply_wrong_dim:
  assumes "store_wf s" and "length (op_vec p) < 2 ^ 32" and "length (op_vec p) \<noteq> unat (vs_dim s)"
  shows "vs_apply p s =
    (case op_type p of
       Insert \<Rightarrow> Inl Invalid_argument
     | Update \<Rightarrow> (if store_abs s (op_ext_id p) = None then Inr (None, s) else Inl Invalid_argument)
     | Delete \<Rightarrow> vs_apply p s)"
  using validate_dim_fail [OF assms(2,3)] assms(1)
  by (auto simp: vs_apply_def do_insert_def do_update_def store_abs_def vec_simps ext_to_int_bound
      split: op_type.split option.split)

lemma vs_apply_wrong_dim_witness:
  "vs_apply \<lparr>op_type = Insert, op_ext_id = ''a'', op_vec = [], op_meta = None\<rparr> (vs_empty 1) = Inl Invalid_argument"
  using vs_apply_wrong_dim [OF vs_empty_wf(1), of 1 "\<lparr>op_type = Insert, op_ext_id = ''a'', op_vec = [], op_meta = None\<rparr>"]
  by simp

section \<open>The live counter\<close>

lemma length_filter_card: "length (filter P xs) = card {i. i < length xs \<and> P (xs ! i)}"
  by (rule length_filter_conv_card)

lemma live_dom:
  assumes "store_wf s"
  shows "dom (store_abs s) = (\<lambda>i. ext_ids s ! i) ` {i. i < length (live s) \<and> live s ! i \<noteq> 0}"
proof (intro set_eqI iffI)
  fix k assume "k \<in> dom (store_abs s)"
  then obtain i where "ext_to_int s k = Some i" "live s ! unat i \<noteq> 0"
    by (auto simp: store_abs_def split: option.splits if_splits)
  then show "k \<in> (\<lambda>i. ext_ids s ! i) ` {i. i < length (live s) \<and> live s ! i \<noteq> 0}"
    using ext_to_int_bound [OF assms, of k i] by (auto intro!: image_eqI [where x = "unat i"])
next
  fix k assume "k \<in> (\<lambda>i. ext_ids s ! i) ` {i. i < length (live s) \<and> live s ! i \<noteq> 0}"
  then obtain i where "i < length (live s)" "live s ! i \<noteq> 0" "k = ext_ids s ! i"
    by auto
  moreover from this have "ext_to_int s k = Some (of_nat i)"
    using store_wfD(2,4) [OF assms] store_wfD(8) [OF assms, of k "of_nat i"] by simp
  ultimately show "k \<in> dom (store_abs s)"
    using store_wfD(2,4) [OF assms] by (auto simp: store_abs_def)
qed

lemma ext_ids_inj:
  assumes "store_wf s" and "i < length (ext_ids s)" and "j < length (ext_ids s)"
    and "ext_ids s ! i = ext_ids s ! j"
  shows "i = j"
proof -
  have id: "ext_to_int s (ext_ids s ! x) = Some (of_nat x)" if "x < length (ext_ids s)" for x
    using that store_wfD(2) [OF assms(1)] store_wfD(8) [OF assms(1), of "ext_ids s ! x" "of_nat x"] by simp
  have "(of_nat i :: u32) = of_nat j"
    using id [OF assms(2)] id [OF assms(3)] assms(4) by simp
  then show ?thesis
    using assms(2,3) store_wfD(2) [OF assms(1)] of_nat_u32_eq_iff [of i j] by linarith
qed

lemma size_card:
  assumes wf: "store_wf s"
  shows "vs_size s = card (dom (store_abs s))"
proof -
  have "inj_on (\<lambda>i. ext_ids s ! i) {i. i < length (live s) \<and> live s ! i \<noteq> 0}"
    using ext_ids_inj [OF wf] store_wfD(4) [OF wf] by (auto simp: inj_on_def)
  then show ?thesis
    by (simp add: live_dom [OF wf] card_image vs_size_def store_wfD(6) [OF wf] length_filter_card)
qed

text \<open>The size the store reports is the number of live entries.\<close>

lemma vs_size_card: "store_wf s \<Longrightarrow> vs_size s = card (dom (store_abs s))"
  by (rule size_card)

lemma vs_size_card_witness: "vs_size (vs_empty 3) = 0"
  using vs_size_card [OF vs_empty_wf(1), of 3] by (simp add: vs_empty_wf(2))

section \<open>The interface of a store of logical operations\<close>

text \<open>
  Whatever applies logical operations refines the specification step by step as long as there is room;
  then it refines it along every history. The vector store is one provider, the engine another.
\<close>

locale op_store =
  fixes exec :: "op \<Rightarrow> 's \<Rightarrow> ('r \<times> 's) res"
    and inv :: "'s \<Rightarrow> bool"
    and abs :: "'s \<Rightarrow> string \<rightharpoonup> fvec \<times> metadata"
    and dim_of :: "'s \<Rightarrow> dim"
    and room :: "'s \<Rightarrow> nat"
  assumes exec: "inv s \<Longrightarrow> op_ok (dim_of s) p \<Longrightarrow> 0 < room s \<Longrightarrow>
    \<exists>r s'. exec p s = Inr (r, s') \<and> inv s' \<and> dim_of s' = dim_of s \<and> room s \<le> Suc (room s')
      \<and> abs s' = spec_apply p (abs s)"
begin

definition run :: "op list \<Rightarrow> 's \<Rightarrow> 's res" where
  "run ps s = rfold (\<lambda>p s. rbind (exec p s) (\<lambda>(_, s'). Inr s')) ps s"

lemma run_refines:
  assumes "inv s" and "\<forall>p \<in> set ps. op_ok (dim_of s) p" and "length ps \<le> room s"
  shows "\<exists>s'. run ps s = Inr s' \<and> inv s' \<and> dim_of s' = dim_of s \<and> room s \<le> room s' + length ps
    \<and> abs s' = fold spec_apply ps (abs s)"
  using assms
proof (induction ps arbitrary: s)
  case (Cons p ps)
  then obtain r s1 where s1: "exec p s = Inr (r, s1)" "inv s1" "dim_of s1 = dim_of s"
    "room s \<le> Suc (room s1)" "abs s1 = spec_apply p (abs s)"
    using exec [of s p] by auto
  moreover obtain s' where "run ps s1 = Inr s'" "inv s'" "dim_of s' = dim_of s1"
    "room s1 \<le> room s' + length ps" "abs s' = fold spec_apply ps (abs s1)"
    using Cons.IH [of s1] Cons.prems s1 by auto
  ultimately show ?case
    by (auto simp: run_def)
qed (simp add: run_def)

end

definition store_room :: "vector_store \<Rightarrow> nat" where
  "store_room s = 2 ^ 32 - 1 - slot_count s"

lemma vs_apply_slots:
  assumes "vs_apply p s = Inr (r, s')"
  shows "length (ext_ids s') \<le> Suc (length (ext_ids s))"
  using assms
  by (auto simp: vs_apply_def do_insert_def do_update_def do_erase_def res_simps Let_def
      split: op_type.splits option.splits if_splits)

interpretation store: op_store vs_apply store_wf store_abs vs_dim store_room
proof
  fix s p
  assume wf: "store_wf s" and ok: "op_ok (vs_dim s) p" and room: "0 < store_room s"
  then have "has_room s"
    by (simp add: store_room_def has_room_def slot_count_def)
  with wf ok obtain r s' where "vs_apply p s = Inr (r, s')" "store_wf s'" "vs_dim s' = vs_dim s"
    "store_abs s' = spec_apply p (store_abs s)"
    using vs_apply_spec [of s p] by blast
  with vs_apply_slots [of p s r s']
  show "\<exists>r s'. vs_apply p s = Inr (r, s') \<and> store_wf s' \<and> vs_dim s' = vs_dim s
      \<and> store_room s \<le> Suc (store_room s') \<and> store_abs s' = spec_apply p (store_abs s)"
    by (auto simp: store_room_def slot_count_def)
qed

end
