(* ===== verification/Bitset.thy ===== *)
theory Bitset
  imports Prelude
begin

unbundle bit_operations_syntax

text \<open>
  \<^verbatim>\<open>include/toyvdb/bitset.hpp\<close>: the fixed-size bitset over 64-bit words that carries the set of ids a
  metadata filter admits. The abstraction is the set of indices that \<open>test\<close> answers for; every
  operation is shown to act on it as the corresponding set operation, and the operations are an
  instance of the interface locale \<open>id_set\<close> on which the filtered search relies.
\<close>

section \<open>State and operations\<close>

record bitset =
  words :: "u64 list"
  bsize :: nat

definition bitset_resize :: "nat \<Rightarrow> bitset" where
  "bitset_resize n = \<lparr>words = replicate ((n + 63) div 64) 0, bsize = n\<rparr>"

definition bitset_clear :: "bitset \<Rightarrow> bitset" where
  "bitset_clear b = b\<lparr>words := map (\<lambda>_. 0) (words b)\<rparr>"

definition bitset_set :: "nat \<Rightarrow> bitset \<Rightarrow> bitset res" where
  "bitset_set i b =
     rbind (vget (words b) (i div 64)) (\<lambda>w.
     rbind (vset (words b) (i div 64) (w OR push_bit (i mod 64) 1)) (\<lambda>ws.
       Inr (b\<lparr>words := ws\<rparr>)))"

definition bitset_reset :: "nat \<Rightarrow> bitset \<Rightarrow> bitset res" where
  "bitset_reset i b =
     rbind (vget (words b) (i div 64)) (\<lambda>w.
     rbind (vset (words b) (i div 64) (w AND NOT (push_bit (i mod 64) 1))) (\<lambda>ws.
       Inr (b\<lparr>words := ws\<rparr>)))"

definition bitset_test :: "bitset \<Rightarrow> nat \<Rightarrow> bool res" where
  "bitset_test b i =
     (if bsize b \<le> i then Inr False
      else rbind (vget (words b) (i div 64)) (\<lambda>w. Inr ((drop_bit (i mod 64) w) AND 1 \<noteq> 0)))"

definition bitset_intersect :: "bitset \<Rightarrow> bitset \<Rightarrow> bitset" where
  "bitset_intersect b c =
     (let n = min (length (words b)) (length (words c))
      in b\<lparr>words := map2 (AND) (take n (words b)) (take n (words c))
                    @ map (\<lambda>_. 0) (drop n (words b))\<rparr>)"

fun popcount :: "nat \<Rightarrow> u64 \<Rightarrow> nat" where
  "popcount 0 w = 0"
| "popcount (Suc k) w = (if bit w k then 1 else 0) + popcount k w"

definition bitset_count :: "bitset \<Rightarrow> nat" where
  "bitset_count b = fold (\<lambda>w c. c + popcount 64 w) (words b) 0"

section \<open>Invariant and abstraction\<close>

definition bitset_wf :: "bitset \<Rightarrow> bool" where
  "bitset_wf b \<longleftrightarrow> length (words b) = (bsize b + 63) div 64"

text \<open>The bit the words hold at an index, and the set of ids the bitset stands for.\<close>

definition word_bit :: "bitset \<Rightarrow> nat \<Rightarrow> bool" where
  "word_bit b i \<longleftrightarrow> i div 64 < length (words b) \<and> bit (words b ! (i div 64)) (i mod 64)"

definition bitset_abs :: "bitset \<Rightarrow> nat set" where
  "bitset_abs b = {i. i < bsize b \<and> word_bit b i}"

lemma word_index_bound: "bitset_wf b \<Longrightarrow> i < bsize b \<Longrightarrow> i div 64 < length (words b)"
  by (simp add: bitset_wf_def)

lemma bit_two_power_u64: "i < 64 \<Longrightarrow> bit (2 ^ i :: u64) j \<longleftrightarrow> i = j"
  by (auto simp: bit_exp_iff)

lemma test_word_bit: "i < 64 \<Longrightarrow> (drop_bit i w :: u64) AND 1 \<noteq> 0 \<longleftrightarrow> bit w i"
  by (simp add: and_one_eq odd_iff_mod_2_eq_one bit_iff_odd_drop_bit)

lemma bitset_resize_wf [simp]: "bitset_wf (bitset_resize n)"
  by (simp add: bitset_resize_def bitset_wf_def)

lemma bitset_resize_abs [simp]: "bitset_abs (bitset_resize n) = {}"
  by (auto simp: bitset_abs_def word_bit_def bitset_resize_def)

lemma bsize_resize [simp]: "bsize (bitset_resize n) = n"
  by (simp add: bitset_resize_def)

lemma bitset_clear_abs: "bitset_abs (bitset_clear b) = {}"
  by (auto simp: bitset_abs_def word_bit_def bitset_clear_def)

lemma bitset_test_abs:
  assumes "bitset_wf b"
  shows "bitset_test b i = Inr (i \<in> bitset_abs b)"
  using assms word_index_bound [OF assms, of i]
  by (auto simp: bitset_test_def bitset_abs_def word_bit_def vec_simps test_word_bit)

lemma div_mod_64_eq: "i div 64 = j div 64 \<Longrightarrow> i mod 64 = j mod 64 \<Longrightarrow> i = (j :: nat)"
  by (metis div_mult_mod_eq)

lemma bitset_set_abs:
  assumes "bitset_wf b" and "i < bsize b"
  shows "\<exists>b'. bitset_set i b = Inr b' \<and> bitset_wf b' \<and> bsize b' = bsize b
    \<and> bitset_abs b' = insert i (bitset_abs b)"
proof -
  let ?b = "b\<lparr>words := (words b)[i div 64 := (words b ! (i div 64)) OR push_bit (i mod 64) 1]\<rparr>"
  have in_range: "i div 64 < length (words b)"
    using assms by (rule word_index_bound)
  then have "word_bit ?b j \<longleftrightarrow> j = i \<or> word_bit b j" for j
    using div_mod_64_eq [of i j]
    by (auto simp: word_bit_def nth_list_update bit_or_iff bit_two_power_u64)
  moreover have "bitset_set i b = Inr ?b"
    using in_range by (simp add: bitset_set_def vec_simps)
  ultimately show ?thesis
    using assms by (auto simp: bitset_abs_def bitset_wf_def)
qed

lemma bitset_reset_abs:
  assumes "bitset_wf b" and "i < bsize b"
  shows "\<exists>b'. bitset_reset i b = Inr b' \<and> bitset_wf b' \<and> bsize b' = bsize b
    \<and> bitset_abs b' = bitset_abs b - {i}"
proof -
  let ?b = "b\<lparr>words := (words b)[i div 64 := (words b ! (i div 64)) AND NOT (push_bit (i mod 64) 1)]\<rparr>"
  have in_range: "i div 64 < length (words b)"
    using assms by (rule word_index_bound)
  then have "word_bit ?b j \<longleftrightarrow> j \<noteq> i \<and> word_bit b j" for j
    using div_mod_64_eq [of i j]
    by (auto simp: word_bit_def nth_list_update bit_and_iff bit_not_iff bit_two_power_u64)
  moreover have "bitset_reset i b = Inr ?b"
    using in_range by (simp add: bitset_reset_def vec_simps)
  ultimately show ?thesis
    using assms by (auto simp: bitset_abs_def bitset_wf_def)
qed

lemma word_bit_intersect: "word_bit (bitset_intersect b c) i \<longleftrightarrow> word_bit b i \<and> word_bit c i"
  by (auto simp: word_bit_def bitset_intersect_def Let_def nth_append bit_and_iff)

lemma bitset_intersect_abs:
  "bsize b \<le> bsize c \<Longrightarrow> bitset_abs (bitset_intersect b c) = bitset_abs b \<inter> bitset_abs c"
  by (auto simp: bitset_abs_def word_bit_intersect) (auto simp: bitset_intersect_def Let_def)

text \<open>No bit is set at or past the size: then \<open>count\<close> is the size of the set.\<close>

definition bitset_clean :: "bitset \<Rightarrow> bool" where
  "bitset_clean b \<longleftrightarrow> (\<forall>i. word_bit b i \<longrightarrow> i < bsize b)"

lemma popcount_card: "popcount k w = card {j. j < k \<and> bit w j}"
proof (induction k)
  case (Suc k)
  have "{j. j < Suc k \<and> bit w j} =
      (if bit w k then insert k {j. j < k \<and> bit w j} else {j. j < k \<and> bit w j})"
    by (auto simp: less_Suc_eq)
  with Suc show ?case by simp
qed simp

lemma fold_popcount: "fold (\<lambda>w c. c + popcount 64 w) ws c = c + sum_list (map (popcount 64) ws)"
  by (induction ws arbitrary: c) simp_all

lemma card_word_bits:
  "card {i. i div 64 < length ws \<and> bit (ws ! (i div 64) :: u64) (i mod 64)} = sum_list (map (popcount 64) ws)"
proof (induction ws rule: rev_induct)
  case (snoc w ws)
  let ?A = "{i. i div 64 < length ws \<and> bit (ws ! (i div 64)) (i mod 64)}"
  let ?B = "(\<lambda>j. 64 * length ws + j) ` {j. j < 64 \<and> bit w j}"
  have "{i. i div 64 < length (ws @ [w]) \<and> bit ((ws @ [w]) ! (i div 64)) (i mod 64)} = ?A \<union> ?B"
  proof (intro set_eqI iffI)
    fix i assume "i \<in> {i. i div 64 < length (ws @ [w]) \<and> bit ((ws @ [w]) ! (i div 64)) (i mod 64)}"
    moreover have "i \<in> ?B" if "i div 64 = length ws" "bit w (i mod 64)"
      using that mult_div_mod_eq [of 64 i] by (intro image_eqI [where x = "i mod 64"]) simp_all
    ultimately show "i \<in> ?A \<union> ?B"
      by (auto simp: nth_append less_Suc_eq)
  qed (auto simp: nth_append)
  moreover have "finite ?A"
    by (rule finite_subset [of _ "{..<64 * length ws}"]) auto
  moreover have "?A \<inter> ?B = {}"
    by auto
  moreover have "card ?B = popcount 64 w"
    by (subst card_image) (simp_all add: popcount_card)
  ultimately show ?case
    using snoc by (simp add: card_Un_disjoint)
qed simp

lemma bitset_count_abs: "bitset_clean b \<Longrightarrow> bitset_count b = card (bitset_abs b)"
proof -
  assume "bitset_clean b"
  then have "bitset_abs b = {i. i div 64 < length (words b) \<and> bit (words b ! (i div 64)) (i mod 64)}"
    by (auto simp: bitset_abs_def bitset_clean_def word_bit_def)
  then show ?thesis
    by (simp add: bitset_count_def fold_popcount card_word_bits)
qed

section \<open>The interface the filtered search uses\<close>

text \<open>
  A set of ids below a capacity fixed at creation. The loop that fills it with the ids satisfying a
  predicate is the client: it never fails and the result answers for exactly those ids.
\<close>

locale id_set =
  fixes make :: "nat \<Rightarrow> 's"
    and add :: "nat \<Rightarrow> 's \<Rightarrow> 's res"
    and has :: "'s \<Rightarrow> nat \<Rightarrow> bool res"
    and capacity :: "'s \<Rightarrow> nat"
    and ids :: "'s \<Rightarrow> nat set"
    and invar :: "'s \<Rightarrow> bool"
  assumes make: "invar (make n)" "capacity (make n) = n" "ids (make n) = {}"
    and add: "invar s \<Longrightarrow> i < capacity s \<Longrightarrow>
      \<exists>s'. add i s = Inr s' \<and> invar s' \<and> capacity s' = capacity s \<and> ids s' = insert i (ids s)"
    and has: "invar s \<Longrightarrow> has s i = Inr (i \<in> ids s)"
begin

lemma collect_loop:
  assumes "invar s" and "\<forall>i \<in> set is. i < capacity s"
  shows "\<exists>s'. rfold (\<lambda>i s. if P i then add i s else Inr s) is s = Inr s'
    \<and> invar s' \<and> ids s' = ids s \<union> {i \<in> set is. P i}"
  using assms
proof (induction "is" arbitrary: s)
  case (Cons i "is")
  show ?case
  proof (cases "P i")
    case True
    with Cons.prems obtain s' where s': "add i s = Inr s'" "invar s'" "capacity s' = capacity s"
      "ids s' = insert i (ids s)"
      using add [of s i] by auto
    with Cons.IH [of s'] Cons.prems True show ?thesis
      by auto
  next
    case False
    then have "{j \<in> set (i # is). P j} = {j \<in> set is. P j}"
      by auto
    with Cons False show ?thesis by simp
  qed
qed simp

lemma collect:
  "\<exists>s. rfold (\<lambda>i s. if P i then add i s else Inr s) [0..<n] (make n) = Inr s
    \<and> invar s \<and> (\<forall>i. has s i = Inr (i < n \<and> P i))"
  using collect_loop [of "make n" "[0..<n]" P] by (auto simp: make has)

end

interpretation bits: id_set bitset_resize bitset_set bitset_test bsize bitset_abs bitset_wf
  by unfold_locales (simp_all add: bitset_set_abs bitset_test_abs)

end
