(* ===== verification/Priority_Queue.thy ===== *)
theory Priority_Queue
  imports Distance
begin

text \<open>
  The parts of the C++ standard library the indexes use: \<^verbatim>\<open>std::priority_queue\<close> with a comparator and
  \<^verbatim>\<open>std::sort\<close>. A queue is the list of its elements with the top first; among equal elements the newest
  comes first (the standard leaves the choice open, and no result below depends on it). The interface
  locale \<open>max_queue\<close> states what a client may rely on, over the multiset of the elements; the client
  lemmas are the bounded selections of the two indexes.
\<close>

section \<open>The queue and the sort\<close>

definition pq_push :: "('a \<Rightarrow> 'a \<Rightarrow> bool) \<Rightarrow> 'a \<Rightarrow> 'a list \<Rightarrow> 'a list" where
  "pq_push lt x q = takeWhile (lt x) q @ x # dropWhile (lt x) q"

definition pq_pop :: "'a list \<Rightarrow> 'a list" where
  "pq_pop q = tl q"

fun insert_by :: "('a \<Rightarrow> 'a \<Rightarrow> bool) \<Rightarrow> 'a \<Rightarrow> 'a list \<Rightarrow> 'a list" where
  "insert_by lt x [] = [x]"
| "insert_by lt x (y # ys) = (if lt y x then y # insert_by lt x ys else x # y # ys)"

definition sort_by :: "('a \<Rightarrow> 'a \<Rightarrow> bool) \<Rightarrow> 'a list \<Rightarrow> 'a list" where
  "sort_by lt xs = foldr (insert_by lt) xs []"

lemma pq_push_rec:
  "pq_push lt x [] = [x]"
  "pq_push lt x (y # q) = (if lt x y then y # pq_push lt x q else x # y # q)"
  by (simp_all add: pq_push_def)

lemma mset_pq_push: "mset (pq_push lt x q) = add_mset x (mset q)"
  by (induction q) (simp_all add: pq_push_rec)

lemma set_pq_push: "set (pq_push lt x q) = insert x (set q)"
  by (metis mset_pq_push set_mset_add_mset_insert set_mset_mset)

lemma length_pq_push: "length (pq_push lt x q) = Suc (length q)"
  by (metis mset_pq_push size_add_mset size_mset)

section \<open>Selections\<close>

text \<open>\<open>A\<close> holds \<open>k\<close> elements of \<open>S\<close> (all of them if there are fewer), none larger than one left out.\<close>

definition k_smallest :: "('a \<Rightarrow> int) \<Rightarrow> nat \<Rightarrow> 'a multiset \<Rightarrow> 'a multiset \<Rightarrow> bool" where
  "k_smallest key k A S \<longleftrightarrow>
     A \<subseteq># S \<and> size A = min k (size S) \<and> (\<forall>a \<in># A. \<forall>b \<in># S - A. key a \<le> key b)"

lemma k_smallest_empty: "k_smallest key k {#} {#}"
  by (simp add: k_smallest_def)

lemma k_smallest_all:
  assumes "k_smallest key k A S" and "size A < k"
  shows "A = S"
proof -
  have "size A = size S"
    using assms by (auto simp: k_smallest_def min_def split: if_splits)
  with assms show ?thesis
    by (metis k_smallest_def mset_subset_size nless_le subset_mset.le_neq_trans)
qed

section \<open>The interface\<close>

locale max_queue =
  fixes push :: "'a \<Rightarrow> 'q \<Rightarrow> 'q"
    and pop :: "'q \<Rightarrow> 'q"
    and front :: "'q \<Rightarrow> 'a"
    and elems :: "'q \<Rightarrow> 'a multiset"
    and inv :: "'q \<Rightarrow> bool"
    and ok :: "'a \<Rightarrow> bool"
    and key :: "'a \<Rightarrow> int"
  assumes push: "inv q \<Longrightarrow> ok x \<Longrightarrow> inv (push x q)" "inv q \<Longrightarrow> ok x \<Longrightarrow> elems (push x q) = add_mset x (elems q)"
    and top_in: "inv q \<Longrightarrow> elems q \<noteq> {#} \<Longrightarrow> front q \<in># elems q"
    and top_max: "inv q \<Longrightarrow> x \<in># elems q \<Longrightarrow> key x \<le> key (front q)"
    and pop: "inv q \<Longrightarrow> elems q \<noteq> {#} \<Longrightarrow> inv (pop q)"
      "inv q \<Longrightarrow> elems q \<noteq> {#} \<Longrightarrow> elems (pop q) = elems q - {#front q#}"
begin

lemma take_more:
  assumes "inv q" and "ok x" and "k_smallest key k (elems q) S" and "size (elems q) < k"
  shows "inv (push x q) \<and> k_smallest key k (elems (push x q)) (add_mset x S)"
  using k_smallest_all [OF assms(3,4)] assms by (auto simp: push k_smallest_def)

lemma keep:
  assumes "inv q" and "k_smallest key k (elems q) S" and "size (elems q) = k" and "0 < k"
    and "key (front q) \<le> key x"
  shows "k_smallest key k (elems q) (add_mset x S)"
proof -
  have sub: "elems q \<subseteq># S" and le: "\<forall>a \<in># elems q. \<forall>b \<in># S - elems q. key a \<le> key b"
    using assms(2) by (auto simp: k_smallest_def)
  have "add_mset x S - elems q = add_mset x (S - elems q)"
    using sub by (metis add_mset_add_single multiset_diff_union_assoc subset_mset.add_diff_assoc2)
  moreover have "key a \<le> key x" if "a \<in># elems q" for a
    using top_max [OF assms(1) that] assms(5) by linarith
  ultimately show ?thesis
    using assms(2,3) sub le by (auto simp: k_smallest_def subset_mset.le_imp_diff_is_add
        intro: subset_mset.order_trans)
qed

lemma replace:
  assumes "inv q" and "ok x" and "k_smallest key k (elems q) S" and "size (elems q) = k" and "0 < k"
    and "key x \<le> key (front q)"
  shows "inv (push x (pop q)) \<and> k_smallest key k (elems (push x (pop q))) (add_mset x S)"
proof -
  have ne: "elems q \<noteq> {#}"
    using assms(4,5) by auto
  have sub: "elems q \<subseteq># S" and le: "\<forall>a \<in># elems q. \<forall>b \<in># S - elems q. key a \<le> key b"
    using assms(3) by (auto simp: k_smallest_def)
  define A where "A = elems q - {#front q#}"
  have A: "elems q = add_mset (front q) A"
    using top_in [OF assms(1) ne] by (simp add: A_def)
  have "add_mset x S - add_mset x A = add_mset (front q) (S - elems q)"
    using sub unfolding A by (metis (no_types) add_mset_diff_bothsides insert_DiffM mset_subset_eq_insertD
        diff_diff_add_mset mset_subset_eq_multiset_union_diff_commute subset_mset.add_diff_inverse
        union_mset_add_mset_left union_mset_add_mset_right add_diff_cancel_left')
  moreover have "key a \<le> key (front q)" if "a \<in># add_mset x A" for a
    using that top_max [OF assms(1)] assms(6) by (auto simp: A)
  moreover have "key a \<le> key b" if "a \<in># add_mset x A" "b \<in># S - elems q" for a b
    using that le assms(6) by (auto simp: A intro: order_trans)
  moreover have "add_mset x A \<subseteq># add_mset x S"
    using sub unfolding A by (metis add_mset_add_single mset_subset_eq_add_left mset_subset_eq_add_mset_cancel subset_mset.dual_order.trans)
  moreover have "size (add_mset x A) = min k (size (add_mset x S))"
    using assms(3,4) A by (auto simp: k_smallest_def)
  ultimately show ?thesis
    using assms(1,2) ne by (auto simp: push pop k_smallest_def A_def)
qed

end

section \<open>The list model satisfies the interface\<close>

text \<open>A comparator that orders the admissible elements by a key.\<close>

locale keyed_order =
  fixes lt :: "'a \<Rightarrow> 'a \<Rightarrow> bool"
    and ok :: "'a \<Rightarrow> bool"
    and key :: "'a \<Rightarrow> int"
  assumes lt_iff: "ok x \<Longrightarrow> ok y \<Longrightarrow> lt x y \<longleftrightarrow> key x < key y"
begin

definition pq_inv :: "'a list \<Rightarrow> bool" where
  "pq_inv q \<longleftrightarrow> (\<forall>x \<in> set q. ok x) \<and> sorted_wrt (\<lambda>a b. key b \<le> key a) q"

lemma pq_push_inv:
  assumes "pq_inv q" and "ok x"
  shows "pq_inv (pq_push lt x q)"
  using assms
proof (induction q)
  case (Cons y q)
  then have "pq_inv (pq_push lt x q)"
    by (simp add: pq_inv_def)
  moreover have "lt x y \<longleftrightarrow> key x < key y"
    using Cons.prems by (intro lt_iff) (simp_all add: pq_inv_def)
  ultimately show ?case
    using Cons.prems by (auto simp: pq_inv_def pq_push_rec set_pq_push)
qed (simp add: pq_inv_def pq_push_rec)

sublocale max_queue "pq_push lt" pq_pop hd mset pq_inv ok key
proof
  fix q x
  assume "pq_inv q" and "ok x"
  then show "pq_inv (pq_push lt x q)"
    by (rule pq_push_inv)
next
  fix q x
  show "mset (pq_push lt x q) = add_mset x (mset q)"
    by (rule mset_pq_push)
next
  fix q :: "'a list"
  assume "mset q \<noteq> {#}"
  then show "hd q \<in># mset q"
    by (cases q) simp_all
next
  fix q x
  assume "pq_inv q" and "x \<in># mset q"
  then show "key x \<le> key (hd q)"
    by (cases q) (auto simp: pq_inv_def)
next
  fix q :: "'a list"
  assume "pq_inv q" and "mset q \<noteq> {#}"
  then show "pq_inv (pq_pop q)"
    by (cases q) (auto simp: pq_inv_def pq_pop_def)
next
  fix q :: "'a list"
  assume "mset q \<noteq> {#}"
  then show "mset (pq_pop q) = mset q - {#hd q#}"
    by (cases q) (simp_all add: pq_pop_def)
qed

lemma insert_by_sorted:
  assumes "\<forall>y \<in> set ys. ok y" and "ok x" and "sorted_wrt (\<lambda>a b. key a \<le> key b) ys"
  shows "sorted_wrt (\<lambda>a b. key a \<le> key b) (insert_by lt x ys)"
  using assms
proof (induction ys)
  case (Cons y ys)
  have "set (insert_by lt x ys) = insert x (set ys)" for ys
    by (induction ys) auto
  with Cons lt_iff [of y x] show ?case by auto
qed simp

lemma sort_by_sorted:
  assumes "\<forall>x \<in> set xs. ok x"
  shows "sorted_wrt (\<lambda>a b. key a \<le> key b) (sort_by lt xs)"
  using assms
proof (induction xs)
  case (Cons x xs)
  have "set (insert_by lt x ys) = insert x (set ys)" for x ys
    by (induction ys) auto
  then have "set (foldr (insert_by lt) xs []) = set xs"
    by (induction xs) auto
  with Cons show ?case
    by (simp add: sort_by_def insert_by_sorted)
qed (simp add: sort_by_def)

end

lemma mset_sort_by [simp]: "mset (sort_by lt xs) = mset xs"
proof -
  have ins: "mset (insert_by lt x ys) = add_mset x (mset ys)" for x ys
    by (induction ys) auto
  show ?thesis
    unfolding sort_by_def by (induction xs) (simp_all add: ins)
qed

lemma set_sort_by [simp]: "set (sort_by lt xs) = set xs"
  by (metis mset_sort_by set_mset_mset)

lemma length_sort_by [simp]: "length (sort_by lt xs) = length xs"
  by (metis mset_sort_by size_mset)

end
