(* ===== verification/Flat_Index.thy ===== *)
theory Flat_Index
  imports Vector_Store Bitset Priority_Queue
begin

text \<open>
  \<^verbatim>\<open>include/toyvdb/index.hpp\<close>, \<^verbatim>\<open>include/toyvdb/flat_index.hpp\<close> and \<^verbatim>\<open>src/flat_index.cpp\<close>: the search
  parameters and hits of the index interface, and the exact brute-force index. The index keeps ids
  only and reads vectors from the store, which is an argument here. The main lemma is exactness: the
  scan returns the \<open>k\<close> nearest of the live, admitted entries in ascending order.
\<close>

section \<open>The index interface\<close>

record search_params =
  sp_ef :: nat
  sp_allowed :: "bitset option"

definition default_params :: search_params where
  "default_params = \<lparr>sp_ef = 64, sp_allowed = None\<rparr>"

text \<open>\<^verbatim>\<open>params.allowed == nullptr || params.allowed->test(id)\<close>\<close>

definition allowed_test :: "bitset option \<Rightarrow> internal_id \<Rightarrow> bool res" where
  "allowed_test a i = (case a of None \<Rightarrow> Inr True | Some b \<Rightarrow> bitset_test b (unat i))"

section \<open>The flat index\<close>

record flat_index =
  flat_metric :: metric_kind
  flat_ids :: "internal_id list"

definition make_flat_index :: "metric_kind \<Rightarrow> flat_index" where
  "make_flat_index m = \<lparr>flat_metric = m, flat_ids = []\<rparr>"

definition flat_add :: "internal_id \<Rightarrow> flat_index \<Rightarrow> flat_index" where
  "flat_add i x = x\<lparr>flat_ids := flat_ids x @ [i]\<rparr>"

definition flat_remove :: "internal_id \<Rightarrow> flat_index \<Rightarrow> flat_index" where
  "flat_remove i x = x\<lparr>flat_ids := filter (\<lambda>j. j \<noteq> i) (flat_ids x)\<rparr>"

definition worse :: "search_result \<Rightarrow> search_result \<Rightarrow> bool" where
  "worse a b \<longleftrightarrow> f32_lt (sr_score a) (sr_score b)"

definition flat_step ::
  "vector_store \<Rightarrow> metric_kind \<Rightarrow> fvec \<Rightarrow> nat \<Rightarrow> search_params \<Rightarrow> internal_id \<Rightarrow>
   search_result list \<Rightarrow> search_result list res" where
  "flat_step s m q k params i heap =
     (if \<not> is_live s i then Inr heap
      else rbind (allowed_test (sp_allowed params) i) (\<lambda>ok.
        if \<not> ok then Inr heap
        else rbind (vs_get s i) (\<lambda>v.
          rbind (metric_distance m q v (vs_dim s)) (\<lambda>d.
            if length heap < k then Inr (pq_push worse \<lparr>sr_id = i, sr_score = d\<rparr> heap)
            else case heap of
                [] \<Rightarrow> Inl Undefined_behaviour
              | t # _ \<Rightarrow>
                  if f32_lt d (sr_score t)
                  then Inr (pq_push worse \<lparr>sr_id = i, sr_score = d\<rparr> (pq_pop heap))
                  else Inr heap))))"

text \<open>The output vector is filled from its end with successive tops.\<close>

fun drain :: "'a list \<Rightarrow> 'a list \<Rightarrow> 'a list" where
  "drain [] out = out"
| "drain (t # heap) out = drain heap (t # out)"

definition flat_search ::
  "vector_store \<Rightarrow> flat_index \<Rightarrow> fvec \<Rightarrow> nat \<Rightarrow> search_params \<Rightarrow> search_result list res" where
  "flat_search s x q k params =
     (if k = 0 then Inr []
      else rbind (rfold (flat_step s (flat_metric x) q k params) (flat_ids x) [])
             (\<lambda>heap. Inr (drain heap [])))"

section \<open>What a search may return\<close>

definition hit :: "vector_store \<Rightarrow> metric_kind \<Rightarrow> fvec \<Rightarrow> internal_id \<Rightarrow> search_result" where
  "hit s m q i = \<lparr>sr_id = i, sr_score = metric_value m q (slot_vec s i)\<rparr>"

definition hit_key :: "search_result \<Rightarrow> int" where
  "hit_key h = f32_key (sr_score h)"

definition admits :: "bitset option \<Rightarrow> internal_id \<Rightarrow> bool" where
  "admits a i \<longleftrightarrow> (case a of None \<Rightarrow> True | Some b \<Rightarrow> unat i \<in> bitset_abs b)"

definition allowed_wf :: "bitset option \<Rightarrow> bool" where
  "allowed_wf a \<longleftrightarrow> (\<forall>b. a = Some b \<longrightarrow> bitset_wf b)"

text \<open>No distance from the query to a slot of the store is NaN.\<close>

definition nan_free :: "vector_store \<Rightarrow> metric_kind \<Rightarrow> fvec \<Rightarrow> bool" where
  "nan_free s m q \<longleftrightarrow>
     (\<forall>i. unat i < slot_count s \<longrightarrow> \<not> f32_is_nan (metric_value m q (slot_vec s i)))"

text \<open>Hits in ascending order, at most \<open>k\<close>, each of a live admitted entry with its true distance.\<close>

definition sound_hits ::
  "vector_store \<Rightarrow> metric_kind \<Rightarrow> fvec \<Rightarrow> nat \<Rightarrow> bitset option \<Rightarrow> search_result list \<Rightarrow> bool" where
  "sound_hits s m q k a out \<longleftrightarrow>
     length out \<le> k \<and> distinct (map sr_id out)
   \<and> sorted_wrt (\<lambda>g h. hit_key g \<le> hit_key h) out
   \<and> (\<forall>h \<in> set out. is_live s (sr_id h) \<and> admits a (sr_id h) \<and> h = hit s m q (sr_id h))"

definition live_admitted :: "vector_store \<Rightarrow> bitset option \<Rightarrow> internal_id list \<Rightarrow> internal_id list" where
  "live_admitted s a js = filter (\<lambda>i. is_live s i \<and> admits a i) js"

lemma allowed_test_admits: "allowed_wf a \<Longrightarrow> allowed_test a i = Inr (admits a i)"
  by (auto simp: allowed_test_def admits_def allowed_wf_def bitset_test_abs split: option.split)

lemma is_live_slot: "store_wf s \<Longrightarrow> is_live s i \<Longrightarrow> unat i < slot_count s"
  by (simp add: is_live_def slot_count_def store_wfD)

lemma slot_distance:
  assumes "store_wf s" and "unat i < slot_count s" and "length q = unat (vs_dim s)"
  shows "metric_distance m q (slot_vec s i) (vs_dim s) = Inr (metric_value m q (slot_vec s i))"
  using metric_distance_value [of "vs_dim s" q "slot_vec s i"] length_slot_vec [OF assms(1,2)] assms(3)
  by simp

lemma drain_rev: "drain heap out = rev heap @ out"
  by (induction heap arbitrary: out) simp_all

interpretation flat_queue: keyed_order worse "\<lambda>h. \<not> f32_is_nan (sr_score h)" hit_key
  by unfold_locales (simp add: worse_def f32_lt_iff hit_key_def)

section \<open>Exactness\<close>

lemma flat_step_selects:
  assumes wf: "store_wf s" and q: "length q = unat (vs_dim s)" and a: "allowed_wf (sp_allowed params)"
    and nan: "is_live s i \<Longrightarrow> admits (sp_allowed params) i \<Longrightarrow> \<not> f32_is_nan (sr_score (hit s m q i))"
    and k: "0 < k" and inv: "flat_queue.pq_inv heap" and sel: "k_smallest hit_key k (mset heap) S"
  shows "\<exists>heap'. flat_step s m q k params i heap = Inr heap' \<and> flat_queue.pq_inv heap'
    \<and> k_smallest hit_key k (mset heap')
        (if is_live s i \<and> admits (sp_allowed params) i then add_mset (hit s m q i) S else S)"
proof (cases "is_live s i \<and> admits (sp_allowed params) i")
  case True
  let ?h = "hit s m q i"
  have slot: "unat i < slot_count s"
    using True is_live_slot [OF wf] by blast
  have step: "flat_step s m q k params i heap =
      (if length heap < k then Inr (pq_push worse ?h heap)
       else case heap of [] \<Rightarrow> Inl Undefined_behaviour
         | t # _ \<Rightarrow> if f32_lt (sr_score ?h) (sr_score t) then Inr (pq_push worse ?h (pq_pop heap)) else Inr heap)"
    using True
    by (cases heap) (simp_all add: flat_step_def allowed_test_admits a vs_get_slot wf slot slot_distance q hit_def)
  have ok: "\<not> f32_is_nan (sr_score ?h)"
    using True nan by blast
  show ?thesis
  proof (cases "length heap < k")
    case less: True
    then show ?thesis
      using flat_queue.take_more [OF inv ok sel] True step by simp
  next
    case False
    have full: "size (mset heap) = k"
      using False sel by (simp add: k_smallest_def)
    then obtain t ts where heap: "heap = t # ts"
      using k by (cases heap) auto
    have t: "\<not> f32_is_nan (sr_score t)"
      using inv heap by (simp add: flat_queue.pq_inv_def)
    show ?thesis
    proof (cases "hit_key ?h < hit_key t")
      case less: True
      then show ?thesis
        using flat_queue.replace [OF inv ok sel full k] True False step heap t ok
        by (simp add: f32_lt_iff hit_key_def)
    next
      case geq: False
      then show ?thesis
        using flat_queue.keep [OF inv sel full k, of ?h] True False step heap t ok inv
        by (simp add: f32_lt_iff hit_key_def)
    qed
  qed
next
  case False
  with sel inv show ?thesis
    by (auto simp: flat_step_def allowed_test_admits a)
qed

lemma flat_loop_selects:
  assumes wf: "store_wf s" and q: "length q = unat (vs_dim s)" and a: "allowed_wf (sp_allowed params)"
    and nan: "\<And>i. i \<in> set (live_admitted s (sp_allowed params) js) \<Longrightarrow> \<not> f32_is_nan (sr_score (hit s m q i))"
    and k: "0 < k" and inv: "flat_queue.pq_inv heap" and sel: "k_smallest hit_key k (mset heap) S"
  shows "\<exists>heap'. rfold (flat_step s m q k params) js heap = Inr heap' \<and> flat_queue.pq_inv heap'
    \<and> k_smallest hit_key k (mset heap') (mset (map (hit s m q) (live_admitted s (sp_allowed params) js)) + S)"
  using nan inv sel
proof (induction js arbitrary: heap S)
  case (Cons i js)
  let ?S = "if is_live s i \<and> admits (sp_allowed params) i then add_mset (hit s m q i) S else S"
  have "is_live s i \<Longrightarrow> admits (sp_allowed params) i \<Longrightarrow> \<not> f32_is_nan (sr_score (hit s m q i))"
    using Cons.prems(1) by (simp add: live_admitted_def)
  from flat_step_selects [OF wf q a this k Cons.prems(2,3)]
  obtain heap1 where h1: "flat_step s m q k params i heap = Inr heap1" "flat_queue.pq_inv heap1"
    "k_smallest hit_key k (mset heap1) ?S"
    by blast
  have "j \<in> set (live_admitted s (sp_allowed params) js) \<Longrightarrow> \<not> f32_is_nan (sr_score (hit s m q j))" for j
    using Cons.prems(1) by (auto simp: live_admitted_def)
  from Cons.IH [OF this h1(2,3)] obtain heap2 where "rfold (flat_step s m q k params) js heap1 = Inr heap2"
    "flat_queue.pq_inv heap2"
    "k_smallest hit_key k (mset heap2) (mset (map (hit s m q) (live_admitted s (sp_allowed params) js)) + ?S)"
    by blast
  with h1(1) show ?case
    by (auto simp: live_admitted_def split: if_splits)
qed (simp add: live_admitted_def)

lemma flat_search_selects:
  assumes "store_wf s" and "length q = unat (vs_dim s)" and "allowed_wf (sp_allowed params)"
    and "\<And>i. i \<in> set (live_admitted s (sp_allowed params) (flat_ids x)) \<Longrightarrow>
      \<not> f32_is_nan (sr_score (hit s (flat_metric x) q i))"
  shows "\<exists>out. flat_search s x q k params = Inr out
    \<and> sorted_wrt (\<lambda>g h. hit_key g \<le> hit_key h) out
    \<and> k_smallest hit_key k (mset out)
        (mset (map (hit s (flat_metric x) q) (live_admitted s (sp_allowed params) (flat_ids x))))"
proof (cases "k = 0")
  case False
  then show ?thesis
    using flat_loop_selects [OF assms, where k = k and heap = "[]" and S = "{#}" and js = "flat_ids x"]
    by (auto simp: flat_search_def drain_rev flat_queue.pq_inv_def k_smallest_empty sorted_wrt_rev)
qed (simp add: flat_search_def k_smallest_def)

lemma k_smallest_distinct_sound:
  assumes "k_smallest hit_key k (mset out) (mset (map (hit s m q) (live_admitted s a js)))"
    and "sorted_wrt (\<lambda>g h. hit_key g \<le> hit_key h) out" and "distinct js"
  shows "sound_hits s m q k a out"
proof -
  let ?all = "map (hit s m q) (live_admitted s a js)"
  have sub: "mset out \<subseteq># mset ?all" and "length out \<le> k"
    using assms(1) by (auto simp: k_smallest_def)
  have "image_mset sr_id (mset out) \<subseteq># image_mset sr_id (mset ?all)"
    using sub by (rule image_mset_subseteq_mono)
  also have "image_mset sr_id (mset ?all) = mset (live_admitted s a js)"
    by (simp add: hit_def multiset.map_comp comp_def)
  finally have "mset (map sr_id out) \<subseteq># mset (live_admitted s a js)"
    by simp
  moreover have "distinct (live_admitted s a js)"
    using assms(3) by (simp add: live_admitted_def)
  ultimately have "distinct (map sr_id out)"
    by (rule distinct_submset)
  moreover have "set out \<subseteq> hit s m q ` set (live_admitted s a js)"
    using sub by (metis list.set_map set_mset_mono set_mset_mset)
  then have "\<forall>h \<in> set out. \<exists>i. h = hit s m q i \<and> is_live s i \<and> admits a i"
    by (auto simp: live_admitted_def)
  then have "\<forall>h \<in> set out. is_live s (sr_id h) \<and> admits a (sr_id h) \<and> h = hit s m q (sr_id h)"
    by (fastforce simp: hit_def)
  ultimately show ?thesis
    using assms(2) \<open>length out \<le> k\<close> by (simp add: sound_hits_def)
qed

end
