(* ===== verification/Hnsw_Index.thy ===== *)
theory Hnsw_Index
  imports Flat_Index
begin

text \<open>
  \<^verbatim>\<open>include/toyvdb/hnsw_index.hpp\<close>: the approximate index, a hierarchy of proximity graphs. Queues, the
  epoch-stamped visited set, the greedy descent, the beam search of a layer, the neighbour heuristic and
  insertion follow the source. The levels drawn by \<^verbatim>\<open>random_level\<close> come from \<^verbatim>\<open>std::mt19937\<close> and \<^verbatim>\<open>std::log\<close>;
  they are a parameter of the index, the sequence of levels its seed gives.
\<close>

section \<open>State\<close>

record hnsw_params =
  hp_M :: int
  hp_efConstruction :: int
  hp_levels :: "nat \<Rightarrow> nat"

record node =
  nd_level :: nat
  nd_links :: "internal_id list list"

record cand =
  c_dist :: score
  c_id :: internal_id

definition far_on_top :: "cand \<Rightarrow> cand \<Rightarrow> bool" where
  "far_on_top a b \<longleftrightarrow> f32_lt (c_dist a) (c_dist b)"

definition near_on_top :: "cand \<Rightarrow> cand \<Rightarrow> bool" where
  "near_on_top a b \<longleftrightarrow> f32_lt (c_dist b) (c_dist a)"

record hnsw_index =
  hn_metric :: metric_kind
  hn_params :: hnsw_params
  hn_draws :: nat
  hn_nodes :: "node list"
  hn_built :: "u8 list"
  hn_entry :: internal_id
  hn_max_level :: int

definition make_hnsw_index :: "metric_kind \<Rightarrow> hnsw_params \<Rightarrow> hnsw_index" where
  "make_hnsw_index m p =
     \<lparr>hn_metric = m, hn_params = p, hn_draws = 0, hn_nodes = [], hn_built = [],
      hn_entry = kInvalidId, hn_max_level = - 1\<rparr>"

text \<open>\<^verbatim>\<open>static_cast<std::size_t>\<close> of an \<^verbatim>\<open>int\<close>.\<close>

definition to_size :: "int \<Rightarrow> nat" where
  "to_size i = nat (i mod 2 ^ 64)"

definition max_links :: "hnsw_params \<Rightarrow> nat \<Rightarrow> nat" where
  "max_links p layer = (if layer = 0 then to_size (2 * hp_M p) else to_size (hp_M p))"

section \<open>The visited set\<close>

record visited =
  stamp :: "u32 list"
  cur :: u32

definition vis_empty :: visited where
  "vis_empty = \<lparr>stamp = [], cur = 0\<rparr>"

definition vis_ensure :: "nat \<Rightarrow> visited \<Rightarrow> visited" where
  "vis_ensure n v =
     (if length (stamp v) < n then v\<lparr>stamp := stamp v @ replicate (n - length (stamp v)) 0\<rparr> else v)"

definition vis_bump :: "visited \<Rightarrow> visited" where
  "vis_bump v =
     (let c = cur v + 1
      in if c = 0 then v\<lparr>stamp := map (\<lambda>_. 0) (stamp v), cur := 1\<rparr> else v\<lparr>cur := c\<rparr>)"

definition test_set :: "internal_id \<Rightarrow> visited \<Rightarrow> (bool \<times> visited) res" where
  "test_set i v =
     rbind (vget (stamp v) (unat i)) (\<lambda>t.
       if t = cur v then Inr (True, v)
       else rbind (vset (stamp v) (unat i) (cur v)) (\<lambda>st. Inr (False, v\<lparr>stamp := st\<rparr>)))"

section \<open>Searching the graph\<close>

definition dist_to :: "vector_store \<Rightarrow> metric_kind \<Rightarrow> fvec \<Rightarrow> internal_id \<Rightarrow> score res" where
  "dist_to s m q i = rbind (vs_get s i) (\<lambda>v. metric_distance m q v (vs_dim s))"

definition greedy_step ::
  "vector_store \<Rightarrow> metric_kind \<Rightarrow> fvec \<Rightarrow> internal_id \<Rightarrow> cand \<times> bool \<Rightarrow> (cand \<times> bool) res" where
  "greedy_step s m q e = (\<lambda>(best, changed).
     rbind (dist_to s m q e) (\<lambda>d.
       if f32_lt d (c_dist best) then Inr (\<lparr>c_dist = d, c_id = e\<rparr>, True) else Inr (best, changed)))"

lemma greedy_step_decreases:
  assumes "greedy_step s m q e (b, ch) = Inr (b', ch')"
  shows "(b' = b \<and> ch' = ch) \<or> (f32_lt (c_dist b') (c_dist b) \<and> ch')"
  using assms by (auto simp: greedy_step_def res_simps split: if_splits)

lemma f32_lt_key: "f32_lt a b \<Longrightarrow> f32_key a < f32_key b"
  by (simp add: f32_lt_iff)

lemma greedy_scan_decreases:
  assumes "rfold (greedy_step s m q) es (b, ch) = Inr (b', ch')" and "\<not> ch" and "ch'"
  shows "f32_key (c_dist b') < f32_key (c_dist b)"
proof -
  have "rfold (greedy_step s m q) es (b, ch) = Inr (b', ch') \<Longrightarrow>
      (b' = b \<and> ch' = ch) \<or> f32_key (c_dist b') < f32_key (c_dist b)" for es b ch
  proof (induction es arbitrary: b ch)
    case (Cons e es)
    then obtain b1 ch1 where "greedy_step s m q e (b, ch) = Inr (b1, ch1)"
      "rfold (greedy_step s m q) es (b1, ch1) = Inr (b', ch')"
      by (auto simp: res_simps)
    with Cons.IH [of b1 ch1] greedy_step_decreases [of s m q e b ch b1 ch1] show ?case
      by (auto dest: f32_lt_key)
  qed simp
  with assms show ?thesis by blast
qed

function greedy_upper ::
  "vector_store \<Rightarrow> metric_kind \<Rightarrow> node list \<Rightarrow> fvec \<Rightarrow> cand \<Rightarrow> nat \<Rightarrow> cand res" where
  "greedy_upper s m nodes q best l =
     rbind (vget nodes (unat (c_id best))) (\<lambda>n.
       if length (nd_links n) \<le> l then Inr best
       else rbind (rfold (greedy_step s m q) (nd_links n ! l) (best, False)) (\<lambda>(best', changed).
              if changed then greedy_upper s m nodes q best' l else Inr best'))"
  by pat_completeness auto
termination
proof (relation "measure (\<lambda>(_, _, _, _, best, _). nat (f32_key (c_dist best) + 2 ^ 31))")
  fix s m q l and nodes :: "node list" and best best' n x changed
  assume "rfold (greedy_step s m q) (nd_links n ! l) (best, False) = Inr x" and "(best', changed) = x" and "changed"
  then have "f32_key (c_dist best') < f32_key (c_dist best)"
    using greedy_scan_decreases [of s m q "nd_links n ! l" best False best' changed] by auto
  then show "((s, m, nodes, q, best', l), s, m, nodes, q, best, l)
      \<in> measure (\<lambda>(_, _, _, _, best, _). nat (f32_key (c_dist best) + 2 ^ 31))"
    using f32_key_bounds(1) [of "c_dist best'"] by simp
qed simp

declare greedy_upper.simps [simp del]

text \<open>\<^verbatim>\<open>admit\<close>, the bound of the result queue, and the body of the loop over a node's neighbours.\<close>

definition admit :: "vector_store \<Rightarrow> bitset option \<Rightarrow> internal_id \<Rightarrow> bool res" where
  "admit s allowed i = (if is_live s i then allowed_test allowed i else Inr False)"

definition worst_dist :: "cand list \<Rightarrow> score" where
  "worst_dist res = (case res of [] \<Rightarrow> f32_max | t # _ \<Rightarrow> c_dist t)"

type_synonym beam = "visited \<times> cand list \<times> cand list"

definition layer_step ::
  "vector_store \<Rightarrow> metric_kind \<Rightarrow> fvec \<Rightarrow> nat \<Rightarrow> bitset option \<Rightarrow> internal_id \<Rightarrow> beam \<Rightarrow> beam res" where
  "layer_step s m q ef allowed e = (\<lambda>(vis, cnd, res).
     rbind (test_set e vis) (\<lambda>(seen, vis).
       if seen then Inr (vis, cnd, res)
       else rbind (dist_to s m q e) (\<lambda>d.
         if length res < ef \<or> f32_lt d (worst_dist res)
         then rbind (admit s allowed e) (\<lambda>ok.
           let c = \<lparr>c_dist = d, c_id = e\<rparr>; cnd' = pq_push near_on_top c cnd
           in if ok
              then let res' = pq_push far_on_top c res
                   in Inr (vis, cnd', if length res' > ef then pq_pop res' else res')
              else Inr (vis, cnd', res))
         else Inr (vis, cnd, res))))"

definition unmarked :: "visited \<Rightarrow> nat" where
  "unmarked v = length (filter (\<lambda>t. t \<noteq> cur v) (stamp v))"

lemma filter_update_less:
  "i < length xs \<Longrightarrow> xs ! i \<noteq> c \<Longrightarrow> Suc (length (filter (\<lambda>t. t \<noteq> c) (xs[i := c]))) = length (filter (\<lambda>t. t \<noteq> c) xs)"
proof (induction xs arbitrary: i)
  case (Cons x xs)
  then show ?case by (cases i) auto
qed simp

lemma test_set_unmarked:
  "test_set i v = Inr (seen, v') \<Longrightarrow> (seen \<and> v' = v) \<or> (\<not> seen \<and> Suc (unmarked v') = unmarked v)"
  by (auto simp: test_set_def unmarked_def res_simps filter_update_less split: if_splits)

lemma layer_step_measure:
  assumes "layer_step s m q ef allowed e (vis, cnd, res) = Inr (vis', cnd', res')"
  shows "unmarked vis' + length cnd' \<le> unmarked vis + length cnd"
  using assms
  by (auto simp: layer_step_def res_simps Let_def length_pq_push dest!: test_set_unmarked split: if_splits)

lemma layer_scan_measure:
  "rfold (layer_step s m q ef allowed) es (vis, cnd, res) = Inr (vis', cnd', res') \<Longrightarrow>
     unmarked vis' + length cnd' \<le> unmarked vis + length cnd"
proof (induction es arbitrary: vis cnd res)
  case (Cons e es)
  then obtain vis1 cnd1 res1 where "layer_step s m q ef allowed e (vis, cnd, res) = Inr (vis1, cnd1, res1)"
    "rfold (layer_step s m q ef allowed) es (vis1, cnd1, res1) = Inr (vis', cnd', res')"
    by (auto simp: res_simps)
  with Cons.IH [of vis1 cnd1 res1] layer_step_measure [of s m q ef allowed e vis cnd res vis1 cnd1 res1] show ?case
    by simp
qed simp

function layer_loop ::
  "vector_store \<Rightarrow> metric_kind \<Rightarrow> node list \<Rightarrow> fvec \<Rightarrow> nat \<Rightarrow> nat \<Rightarrow> bitset option \<Rightarrow>
   visited \<Rightarrow> cand list \<Rightarrow> cand list \<Rightarrow> (visited \<times> cand list) res" where
  "layer_loop s m nodes q ef l allowed vis [] res = Inr (vis, res)"
| "layer_loop s m nodes q ef l allowed vis (c # cnd) res =
     (if length res \<ge> ef \<and> f32_lt (worst_dist res) (c_dist c) then Inr (vis, res)
      else rbind (vget nodes (unat (c_id c))) (\<lambda>n.
        if length (nd_links n) \<le> l then layer_loop s m nodes q ef l allowed vis cnd res
        else rbind (rfold (layer_step s m q ef allowed) (nd_links n ! l) (vis, cnd, res)) (\<lambda>(vis', cnd', res').
               layer_loop s m nodes q ef l allowed vis' cnd' res')))"
  by pat_completeness auto
termination
  by (relation "measure (\<lambda>(_, _, _, _, _, _, _, vis, cnd, _). unmarked vis + length cnd)")
    (auto dest!: layer_scan_measure)

declare layer_loop.simps(2) [simp del]

definition seed_step :: "vector_store \<Rightarrow> bitset option \<Rightarrow> cand \<Rightarrow> beam \<Rightarrow> beam res" where
  "seed_step s allowed e = (\<lambda>(vis, cnd, res).
     rbind (test_set (c_id e) vis) (\<lambda>(_, vis).
     rbind (admit s allowed (c_id e)) (\<lambda>ok.
       Inr (vis, pq_push near_on_top e cnd, if ok then pq_push far_on_top e res else res))))"

text \<open>The results come out farthest first.\<close>

definition search_layer ::
  "vector_store \<Rightarrow> metric_kind \<Rightarrow> node list \<Rightarrow> fvec \<Rightarrow> cand list \<Rightarrow> nat \<Rightarrow> nat \<Rightarrow> bitset option \<Rightarrow>
   visited \<Rightarrow> (visited \<times> cand list) res" where
  "search_layer s m nodes q entries ef l allowed vis =
     rbind (rfold (seed_step s allowed) entries (vis_bump vis, [], [])) (\<lambda>(vis, cnd, res).
       layer_loop s m nodes q ef l allowed vis cnd res)"

section \<open>Building the graph\<close>

definition cand_less :: "cand \<Rightarrow> cand \<Rightarrow> bool" where
  "cand_less a b \<longleftrightarrow> f32_lt (c_dist a) (c_dist b)"

fun keep_cand :: "vector_store \<Rightarrow> metric_kind \<Rightarrow> fvec \<Rightarrow> score \<Rightarrow> cand list \<Rightarrow> bool res" where
  "keep_cand s m cv d [] = Inr True"
| "keep_cand s m cv d (r # rs) =
     rbind (vs_get s (c_id r)) (\<lambda>rv. rbind (metric_distance m cv rv (vs_dim s)) (\<lambda>d'.
       if f32_lt d' d then Inr False else keep_cand s m cv d rs))"

fun select_loop :: "vector_store \<Rightarrow> metric_kind \<Rightarrow> nat \<Rightarrow> cand list \<Rightarrow> cand list \<Rightarrow> cand list res" where
  "select_loop s m n [] result = Inr result"
| "select_loop s m n (c # cs) result =
     (if length result \<ge> n then Inr result
      else rbind (vs_get s (c_id c)) (\<lambda>cv. rbind (keep_cand s m cv (c_dist c) result) (\<lambda>keep.
             select_loop s m n cs (if keep then result @ [c] else result))))"

text \<open>
  \<^verbatim>\<open>std::sort\<close> is an argument of what calls it. The language defines it when the comparison is a strict weak
  order, which \<^verbatim>\<open>a.dist < b.dist\<close> is on distances that are numbers, and leaves the order of equal elements open;
  \<open>std_sort\<close> has undefined behaviour when two or more candidates are sorted and one of the distances is not a number.
\<close>

type_synonym sorter = "cand list \<Rightarrow> cand list res"

definition std_sort :: sorter where
  "std_sort cs =
     (if 1 < length cs \<and> list_ex (\<lambda>c. f32_is_nan (c_dist c)) cs then Inl Undefined_behaviour
      else Inr (sort_by cand_less cs))"

definition select_neighbors_by ::
  "sorter \<Rightarrow> vector_store \<Rightarrow> metric_kind \<Rightarrow> cand list \<Rightarrow> nat \<Rightarrow> cand list res" where
  "select_neighbors_by srt s m cands n = rbind (srt cands) (\<lambda>cands. select_loop s m n cands [])"

definition get_links :: "internal_id \<Rightarrow> nat \<Rightarrow> node list \<Rightarrow> internal_id list res" where
  "get_links a l nodes = rbind (vget nodes (unat a)) (\<lambda>n. vget (nd_links n) l)"

definition put_links :: "internal_id \<Rightarrow> nat \<Rightarrow> internal_id list \<Rightarrow> node list \<Rightarrow> node list res" where
  "put_links a l ls nodes =
     rbind (vget nodes (unat a)) (\<lambda>n.
     rbind (vset (nd_links n) l ls) (\<lambda>lk. vset nodes (unat a) (n\<lparr>nd_links := lk\<rparr>)))"

definition connect :: "internal_id \<Rightarrow> internal_id \<Rightarrow> nat \<Rightarrow> node list \<Rightarrow> node list res" where
  "connect a b l nodes =
     rbind (get_links a l nodes) (\<lambda>la.
     rbind (put_links a l (la @ [b]) nodes) (\<lambda>nodes.
     rbind (get_links b l nodes) (\<lambda>lb.
       put_links b l (lb @ [a]) nodes)))"

definition prune_by ::
  "sorter \<Rightarrow> vector_store \<Rightarrow> metric_kind \<Rightarrow> internal_id \<Rightarrow> nat \<Rightarrow> nat \<Rightarrow> node list \<Rightarrow> node list res" where
  "prune_by srt s m i l cap nodes =
     rbind (get_links i l nodes) (\<lambda>lst.
       if length lst \<le> cap then Inr nodes
       else rbind (vs_get s i) (\<lambda>v.
            rbind (rfold (\<lambda>x cc. rbind (dist_to s m v x) (\<lambda>d. Inr (cc @ [\<lparr>c_dist = d, c_id = x\<rparr>]))) lst []) (\<lambda>cc.
            rbind (select_neighbors_by srt s m cc cap) (\<lambda>kept. put_links i l (map c_id kept) nodes))))"

definition zoom_in ::
  "vector_store \<Rightarrow> metric_kind \<Rightarrow> node list \<Rightarrow> fvec \<Rightarrow> nat list \<Rightarrow> cand \<Rightarrow> cand res" where
  "zoom_in s m nodes q layers ep = rfold (\<lambda>l ep. greedy_upper s m nodes q ep l) layers ep"

definition link_layer_by ::
  "sorter \<Rightarrow> vector_store \<Rightarrow> metric_kind \<Rightarrow> hnsw_params \<Rightarrow> fvec \<Rightarrow> internal_id \<Rightarrow> nat \<Rightarrow>
   cand list \<times> visited \<times> node list \<Rightarrow> (cand list \<times> visited \<times> node list) res" where
  "link_layer_by srt s m p q i lc = (\<lambda>(entries, vis, nodes).
     rbind (search_layer s m nodes q entries (to_size (hp_efConstruction p)) lc None vis) (\<lambda>(vis, w).
     rbind (select_neighbors_by srt s m w (to_size (hp_M p))) (\<lambda>neighbors.
     rbind (rfold (\<lambda>nb nodes. connect i (c_id nb) lc nodes) neighbors nodes) (\<lambda>nodes.
     rbind (rfold (\<lambda>nb nodes. prune_by srt s m (c_id nb) lc (max_links p lc) nodes) neighbors nodes) (\<lambda>nodes.
       Inr (if w \<noteq> [] then w else entries, vis, nodes))))))"

definition hnsw_grow :: "nat \<Rightarrow> hnsw_index \<Rightarrow> hnsw_index" where
  "hnsw_grow needed x =
     (if length (hn_nodes x) < needed
      then x\<lparr>hn_nodes := hn_nodes x @ replicate (needed - length (hn_nodes x)) \<lparr>nd_level = 0, nd_links = []\<rparr>,
             hn_built := hn_built x @ replicate (needed - length (hn_built x)) 0\<rparr>
      else x)"

definition hnsw_add_by :: "sorter \<Rightarrow> vector_store \<Rightarrow> internal_id \<Rightarrow> hnsw_index \<Rightarrow> hnsw_index res" where
  "hnsw_add_by srt s i x0 =
     (let x = hnsw_grow (unat i + 1) x0; m = hn_metric x; p = hn_params x
      in rbind (vget (hn_built x) (unat i)) (\<lambda>built.
         if built \<noteq> 0 then Inr x
         else rbind (vs_get s i) (\<lambda>q.
           let level = hp_levels p (hn_draws x)
           in rbind (vset (hn_nodes x) (unat i) \<lparr>nd_level = level, nd_links = replicate (level + 1) []\<rparr>) (\<lambda>nodes.
              rbind (vset (hn_built x) (unat i) 1) (\<lambda>bl.
                let x1 = x\<lparr>hn_draws := hn_draws x + 1, hn_nodes := nodes, hn_built := bl\<rparr>
                in if hn_entry x1 = kInvalidId
                   then Inr (x1\<lparr>hn_entry := i, hn_max_level := int level\<rparr>)
                   else
                     rbind (dist_to s m q (hn_entry x1)) (\<lambda>d.
                     rbind (zoom_in s m nodes q (rev [level + 1 ..< nat (hn_max_level x1 + 1)])
                              \<lparr>c_dist = d, c_id = hn_entry x1\<rparr>) (\<lambda>ep.
                     rbind (rfold (link_layer_by srt s m p q i)
                              (rev [0 ..< nat (min (int level) (hn_max_level x1) + 1)])
                              ([ep], vis_ensure (length nodes) vis_empty, nodes)) (\<lambda>(_, _, nodes').
                       let x2 = x1\<lparr>hn_nodes := nodes'\<rparr>
                       in Inr (if int level > hn_max_level x2
                               then x2\<lparr>hn_max_level := int level, hn_entry := i\<rparr>
                               else x2)))))))))"

text \<open>
  The engine's theories use insertion with a sort that takes every input, so that they speak of all vectors;
  on stores without NaN distances it is one of the sorts that \<^verbatim>\<open>std::sort\<close> may be.
\<close>

definition total_sort :: sorter where
  "total_sort cs = Inr (sort_by cand_less cs)"

definition select_neighbors :: "vector_store \<Rightarrow> metric_kind \<Rightarrow> cand list \<Rightarrow> nat \<Rightarrow> cand list res" where
  "select_neighbors = select_neighbors_by total_sort"

definition prune :: "vector_store \<Rightarrow> metric_kind \<Rightarrow> internal_id \<Rightarrow> nat \<Rightarrow> nat \<Rightarrow> node list \<Rightarrow> node list res" where
  "prune = prune_by total_sort"

definition link_layer ::
  "vector_store \<Rightarrow> metric_kind \<Rightarrow> hnsw_params \<Rightarrow> fvec \<Rightarrow> internal_id \<Rightarrow> nat \<Rightarrow>
   cand list \<times> visited \<times> node list \<Rightarrow> (cand list \<times> visited \<times> node list) res" where
  "link_layer = link_layer_by total_sort"

definition hnsw_add :: "vector_store \<Rightarrow> internal_id \<Rightarrow> hnsw_index \<Rightarrow> hnsw_index res" where
  "hnsw_add = hnsw_add_by total_sort"

definition hnsw_remove :: "internal_id \<Rightarrow> hnsw_index \<Rightarrow> hnsw_index" where
  "hnsw_remove i x = x"

definition hnsw_search ::
  "vector_store \<Rightarrow> hnsw_index \<Rightarrow> fvec \<Rightarrow> nat \<Rightarrow> search_params \<Rightarrow> search_result list res" where
  "hnsw_search s x q k params =
     (if k = 0 \<or> hn_entry x = kInvalidId then Inr []
      else
        rbind (dist_to s (hn_metric x) q (hn_entry x)) (\<lambda>d.
        rbind (zoom_in s (hn_metric x) (hn_nodes x) q (rev [1 ..< nat (hn_max_level x + 1)])
                 \<lparr>c_dist = d, c_id = hn_entry x\<rparr>) (\<lambda>ep.
        rbind (search_layer s (hn_metric x) (hn_nodes x) q [ep] (max (sp_ef params) k) 0 (sp_allowed params)
                 (vis_ensure (length (hn_nodes x)) vis_empty)) (\<lambda>(_, w).
          Inr (map (\<lambda>c. \<lparr>sr_id = c_id c, sr_score = c_dist c\<rparr>) (take k (sort_by cand_less w)))))))"

section \<open>The visited set is a set\<close>

definition marked :: "visited \<Rightarrow> internal_id set" where
  "marked v = {i. unat i < length (stamp v) \<and> stamp v ! unat i = cur v}"

text \<open>No stamp is from a later epoch, so a new epoch starts with nothing marked.\<close>

definition vis_ok :: "nat \<Rightarrow> visited \<Rightarrow> bool" where
  "vis_ok n v \<longleftrightarrow> length (stamp v) = n \<and> (\<forall>t \<in> set (stamp v). t \<le> cur v)"

lemma vis_ensure_ok: "vis_ok n (vis_ensure n vis_empty)"
  by (simp add: vis_ok_def vis_ensure_def vis_empty_def)

lemma vis_bump_ok:
  assumes "vis_ok n v"
  shows "vis_ok n (vis_bump v) \<and> marked (vis_bump v) = {}"
proof (cases "cur v + 1 = 0")
  case True
  then show ?thesis
    using assms by (auto simp: vis_ok_def vis_bump_def marked_def Let_def)
next
  case False
  then have "cur v < cur v + 1"
    using unatSuc [of "cur v"] by (simp add: word_less_nat_alt add.commute)
  then have "\<forall>t \<in> set (stamp v). t < cur v + 1"
    using assms by (auto simp: vis_ok_def)
  moreover from this have "i < length (stamp v) \<Longrightarrow> stamp v ! i \<noteq> cur v + 1" for i
    using nth_mem by fastforce
  ultimately show ?thesis
    using False assms by (auto simp: vis_ok_def vis_bump_def marked_def Let_def)
qed

lemma test_set_ok:
  assumes "vis_ok n v" and "unat i < n"
  shows "\<exists>v'. test_set i v = Inr (i \<in> marked v, v') \<and> vis_ok n v' \<and> marked v' = insert i (marked v)"
proof (cases "i \<in> marked v")
  case True
  then show ?thesis
    using assms by (auto simp: test_set_def marked_def vis_ok_def vec_simps)
next
  case False
  let ?v = "v\<lparr>stamp := (stamp v)[unat i := cur v]\<rparr>"
  have "test_set i v = Inr (False, ?v)"
    using assms False by (auto simp: test_set_def marked_def vis_ok_def vec_simps)
  moreover have "vis_ok n ?v"
    using assms set_update_subset_insert [of "stamp v" "unat i" "cur v"] by (auto simp: vis_ok_def)
  moreover have "marked ?v = insert i (marked v)"
    using assms by (auto simp: marked_def vis_ok_def nth_list_update)
  ultimately show ?thesis
    using False by simp
qed

section \<open>The graph invariant\<close>

text \<open>A node reaches up to layer \<open>l\<close>; its neighbours there do too, so following links stays inside the graph.\<close>

definition has_layer :: "node list \<Rightarrow> internal_id \<Rightarrow> nat \<Rightarrow> bool" where
  "has_layer nodes i l \<longleftrightarrow> unat i < length nodes \<and> l < length (nd_links (nodes ! unat i))"

definition links_at :: "node list \<Rightarrow> internal_id \<Rightarrow> nat \<Rightarrow> internal_id list" where
  "links_at nodes i l = nd_links (nodes ! unat i) ! l"

definition graph_ok :: "node list \<Rightarrow> bool" where
  "graph_ok nodes \<longleftrightarrow>
     (\<forall>i l. has_layer nodes i l \<longrightarrow> (\<forall>e \<in> set (links_at nodes i l). has_layer nodes e l))"

text \<open>A candidate of layer \<open>l\<close> carrying its true distance.\<close>

definition cand_at :: "vector_store \<Rightarrow> metric_kind \<Rightarrow> fvec \<Rightarrow> node list \<Rightarrow> nat \<Rightarrow> cand \<Rightarrow> bool" where
  "cand_at s m q nodes l c \<longleftrightarrow>
     has_layer nodes (c_id c) l \<and> c_dist c = metric_value m q (slot_vec s (c_id c))"

text \<open>What a query needs of the store.\<close>

definition readable :: "vector_store \<Rightarrow> fvec \<Rightarrow> node list \<Rightarrow> bool" where
  "readable s q nodes \<longleftrightarrow> store_wf s \<and> length q = unat (vs_dim s) \<and> length nodes \<le> slot_count s"

lemma has_layer_mono: "has_layer nodes i l \<Longrightarrow> j \<le> l \<Longrightarrow> has_layer nodes i j"
  by (auto simp: has_layer_def)

lemma dist_to_value:
  assumes "readable s q nodes" and "unat i < length nodes"
  shows "dist_to s m q i = Inr (metric_value m q (slot_vec s i))"
proof -
  have "unat i < slot_count s"
    using assms by (simp add: readable_def)
  then show ?thesis
    using assms by (simp add: dist_to_def readable_def vs_get_slot slot_distance)
qed

section \<open>Greedy descent\<close>

lemma greedy_scan_ok:
  assumes "readable s q nodes" and "\<forall>e \<in> set es. has_layer nodes e l" and "j \<le> l" and "cand_at s m q nodes j b"
  shows "\<exists>b' ch'. rfold (greedy_step s m q) es (b, ch) = Inr (b', ch') \<and> cand_at s m q nodes j b'"
  using assms(2,4)
proof (induction es arbitrary: b ch)
  case (Cons e es)
  have e: "unat e < length nodes" "has_layer nodes e j"
    using Cons.prems(1) assms(3) by (auto simp: has_layer_def)
  then have "cand_at s m q nodes j \<lparr>c_dist = metric_value m q (slot_vec s e), c_id = e\<rparr>"
    by (simp add: cand_at_def)
  with Cons e show ?case
    by (simp add: greedy_step_def dist_to_value [OF assms(1)])
qed simp

lemma greedy_upper_ok:
  assumes "readable s q nodes" and "graph_ok nodes" and "j \<le> l" and "cand_at s m q nodes j b"
  shows "\<exists>b'. greedy_upper s m nodes q b l = Inr b' \<and> cand_at s m q nodes j b'"
  using assms
proof (induction s m nodes q b l rule: greedy_upper.induct)
  case (1 s m nodes q best l)
  have b: "unat (c_id best) < length nodes"
    using 1 by (simp add: cand_at_def has_layer_def)
  let ?n = "nodes ! unat (c_id best)"
  show ?case
  proof (cases "length (nd_links ?n) \<le> l")
    case True
    with b 1(5) show ?thesis
      by (subst greedy_upper.simps) (simp add: vec_simps)
  next
    case False
    then have "has_layer nodes (c_id best) l"
      using b by (simp add: has_layer_def)
    then have "\<forall>e \<in> set (nd_links ?n ! l). has_layer nodes e l"
      using 1(3) by (simp add: graph_ok_def links_at_def)
    from greedy_scan_ok [OF 1(2) this 1(4,5)] obtain b' ch'
      where scan: "rfold (greedy_step s m q) (nd_links ?n ! l) (best, False) = Inr (b', ch')" "cand_at s m q nodes j b'"
      by blast
    have rec: "\<exists>b''. greedy_upper s m nodes q b' l = Inr b'' \<and> cand_at s m q nodes j b''" if "ch'"
      by (rule 1(1) [OF _ False scan(1) refl that 1(2-4) scan(2)]) (simp add: vec_simps b)
    have "greedy_upper s m nodes q best l = (if ch' then greedy_upper s m nodes q b' l else Inr b')"
      using b False scan(1) by (subst greedy_upper.simps) (simp add: vec_simps)
    with rec scan(2) show ?thesis
      by (cases ch') simp_all
  qed
qed

lemma zoom_in_ok:
  assumes "readable s q nodes" and "graph_ok nodes" and "\<forall>l \<in> set layers. j \<le> l" and "cand_at s m q nodes j ep"
  shows "\<exists>ep'. zoom_in s m nodes q layers ep = Inr ep' \<and> cand_at s m q nodes j ep'"
  unfolding zoom_in_def by (rule rfold_inv) (use assms greedy_upper_ok in auto)

section \<open>Beam search\<close>

definition eligible :: "vector_store \<Rightarrow> bitset option \<Rightarrow> internal_id \<Rightarrow> bool" where
  "eligible s a i \<longleftrightarrow> is_live s i \<and> admits a i"

lemma admit_eligible: "allowed_wf a \<Longrightarrow> admit s a i = Inr (eligible s a i)"
  by (simp add: admit_def eligible_def allowed_test_admits)

text \<open>
  The frontier holds candidates of the layer, the results distinct eligible ones, all of them visited.
\<close>

definition beam_ok ::
  "vector_store \<Rightarrow> metric_kind \<Rightarrow> fvec \<Rightarrow> node list \<Rightarrow> nat \<Rightarrow> bitset option \<Rightarrow> beam \<Rightarrow> bool" where
  "beam_ok s m q nodes l a = (\<lambda>(vis, cnd, res).
     vis_ok (length nodes) vis
   \<and> (\<forall>c \<in> set cnd. cand_at s m q nodes l c)
   \<and> (\<forall>c \<in> set res. cand_at s m q nodes l c \<and> eligible s a (c_id c) \<and> c_id c \<in> marked vis)
   \<and> distinct (map c_id res))"

lemma distinct_pq_push: "distinct (map f (pq_push lt x q)) \<longleftrightarrow> f x \<notin> f ` set q \<and> distinct (map f q)"
proof -
  have "mset (map f (pq_push lt x q)) = mset (map f (x # q))"
    by (simp add: mset_pq_push)
  then have "distinct (map f (pq_push lt x q)) = distinct (map f (x # q))"
    by (rule mset_eq_imp_distinct_iff)
  then show ?thesis
    by simp
qed

lemma beam_pop: "beam_ok s m q nodes l a (vis, cnd, res) \<Longrightarrow> beam_ok s m q nodes l a (vis, cnd, pq_pop res)"
  by (cases res) (auto simp: beam_ok_def pq_pop_def)

lemma layer_step_ok:
  assumes r: "readable s q nodes" and a: "allowed_wf a" and e: "has_layer nodes e l"
    and inv: "beam_ok s m q nodes l a st"
  shows "\<exists>st'. layer_step s m q ef a e st = Inr st' \<and> beam_ok s m q nodes l a st'"
proof -
  obtain vis cnd res where st: "st = (vis, cnd, res)" by (cases st)
  have len: "unat e < length nodes"
    using e by (simp add: has_layer_def)
  obtain vis' where t: "test_set e vis = Inr (e \<in> marked vis, vis')" "vis_ok (length nodes) vis'"
    "marked vis' = insert e (marked vis)"
    using test_set_ok [of "length nodes" vis e] inv len st by (auto simp: beam_ok_def)
  let ?c = "\<lparr>c_dist = metric_value m q (slot_vec s e), c_id = e\<rparr>"
  let ?res = "pq_push far_on_top ?c res"
  have c: "cand_at s m q nodes l ?c"
    using e by (simp add: cand_at_def)
  show ?thesis
  proof (cases "e \<in> marked vis")
    case True
    then show ?thesis
      using t inv st by (auto simp: layer_step_def beam_ok_def insert_absorb)
  next
    case False
    have skip: "beam_ok s m q nodes l a (vis', cnd, res)"
      using inv st t by (auto simp: beam_ok_def)
    then have push: "beam_ok s m q nodes l a (vis', pq_push near_on_top ?c cnd, res)"
      using c by (auto simp: beam_ok_def set_pq_push)
    then have full: "beam_ok s m q nodes l a (vis', pq_push near_on_top ?c cnd, ?res)" if "eligible s a e"
      using that c False inv st t by (auto simp: beam_ok_def set_pq_push distinct_pq_push)
    show ?thesis
      using False t skip push full beam_pop [OF full]
      by (auto simp: st layer_step_def dist_to_value [OF r len] admit_eligible [OF a] Let_def)
  qed
qed

lemma layer_scan_ok:
  assumes "readable s q nodes" and "allowed_wf a" and "\<forall>e \<in> set es. has_layer nodes e l"
    and "beam_ok s m q nodes l a st"
  shows "\<exists>st'. rfold (layer_step s m q ef a) es st = Inr st' \<and> beam_ok s m q nodes l a st'"
  by (rule rfold_inv) (use assms layer_step_ok in auto)

lemma layer_loop_ok:
  assumes "readable s q nodes" and "graph_ok nodes" and "allowed_wf a" and "beam_ok s m q nodes l a (vis, cnd, res)"
  shows "\<exists>vis' res'. layer_loop s m nodes q ef l a vis cnd res = Inr (vis', res') \<and> beam_ok s m q nodes l a (vis', [], res')"
  using assms
proof (induction s m nodes q ef l a vis cnd res rule: layer_loop.induct)
  case (1 s m nodes q ef l a vis res)
  then show ?case by (simp add: beam_ok_def)
next
  case (2 s m nodes q ef l a vis c cnd res)
  let ?n = "nodes ! unat (c_id c)"
  have c: "has_layer nodes (c_id c) l" "unat (c_id c) < length nodes"
    using 2(6) by (auto simp: beam_ok_def cand_at_def has_layer_def)
  have tail: "beam_ok s m q nodes l a (vis, cnd, res)"
    using 2(6) by (simp add: beam_ok_def)
  show ?case
  proof (cases "length res \<ge> ef \<and> f32_lt (worst_dist res) (c_dist c)")
    case True
    then show ?thesis
      using tail by (auto simp: layer_loop.simps(2) beam_ok_def)
  next
    case False
    have "\<forall>e \<in> set (nd_links ?n ! l). has_layer nodes e l"
      using 2(4) c by (auto simp: graph_ok_def links_at_def)
    from layer_scan_ok [OF 2(3,5) this tail, of ef] obtain vis1 cnd1 res1
      where scan: "rfold (layer_step s m q ef a) (nd_links ?n ! l) (vis, cnd, res) = Inr (vis1, cnd1, res1)"
      "beam_ok s m q nodes l a (vis1, cnd1, res1)"
      by (metis prod_cases3)
    have deep: "\<not> length (nd_links ?n) \<le> l"
      using c by (simp add: has_layer_def)
    have "\<exists>vis' res'. layer_loop s m nodes q ef l a vis1 cnd1 res1 = Inr (vis', res') \<and> beam_ok s m q nodes l a (vis', [], res')"
      by (rule 2(2) [OF False _ deep scan(1) refl refl 2(3-5) scan(2)]) (simp add: vec_simps c)
    moreover have "layer_loop s m nodes q ef l a vis (c # cnd) res = layer_loop s m nodes q ef l a vis1 cnd1 res1"
      using c deep scan(1) by (simp only: layer_loop.simps(2) False if_False) (simp add: vec_simps)
    ultimately show ?thesis
      by simp
  qed
qed

lemma seed_ok:
  assumes a: "allowed_wf a" and "\<forall>c \<in> set entries. cand_at s m q nodes l c" and "distinct (map c_id entries)"
    and "beam_ok s m q nodes l a (vis, cnd, res)" and "c_id ` set entries \<inter> c_id ` set res = {}"
  shows "\<exists>st'. rfold (seed_step s a) entries (vis, cnd, res) = Inr st' \<and> beam_ok s m q nodes l a st'"
  using assms(2-)
proof (induction entries arbitrary: vis cnd res)
  case (Cons c entries)
  have len: "unat (c_id c) < length nodes"
    using Cons.prems(1) by (simp add: cand_at_def has_layer_def)
  obtain vis' where t: "test_set (c_id c) vis = Inr (c_id c \<in> marked vis, vis')" "vis_ok (length nodes) vis'"
    "marked vis' = insert (c_id c) (marked vis)"
    using test_set_ok [of "length nodes" vis "c_id c"] Cons.prems(3) len by (auto simp: beam_ok_def)
  let ?res = "if eligible s a (c_id c) then pq_push far_on_top c res else res"
  have "beam_ok s m q nodes l a (vis', pq_push near_on_top c cnd, ?res)"
    using Cons.prems t by (auto simp: beam_ok_def set_pq_push distinct_pq_push)
  moreover have "c_id ` set entries \<inter> c_id ` set ?res = {}"
    using Cons.prems by (auto simp: set_pq_push)
  ultimately show ?case
    using Cons.IH [of vis' "pq_push near_on_top c cnd" ?res] Cons.prems t
    by (simp add: seed_step_def admit_eligible [OF a])
qed simp

lemma search_layer_ok:
  assumes "readable s q nodes" and "graph_ok nodes" and "allowed_wf a" and "vis_ok (length nodes) vis"
    and "\<forall>c \<in> set entries. cand_at s m q nodes l c" and "distinct (map c_id entries)"
  shows "\<exists>vis' w. search_layer s m nodes q entries ef l a vis = Inr (vis', w) \<and> vis_ok (length nodes) vis'
    \<and> (\<forall>c \<in> set w. cand_at s m q nodes l c \<and> eligible s a (c_id c)) \<and> distinct (map c_id w)"
proof -
  have "beam_ok s m q nodes l a (vis_bump vis, [], [])"
    using vis_bump_ok [OF assms(4)] by (simp add: beam_ok_def)
  from seed_ok [OF assms(3,5,6) this] obtain vis1 cnd1 res1
    where "rfold (seed_step s a) entries (vis_bump vis, [], []) = Inr (vis1, cnd1, res1)"
      "beam_ok s m q nodes l a (vis1, cnd1, res1)"
    by (metis image_empty inf_bot_right list.set(1) prod_cases3)
  moreover obtain vis' w where "layer_loop s m nodes q ef l a vis1 cnd1 res1 = Inr (vis', w)"
    "beam_ok s m q nodes l a (vis', [], w)"
    using layer_loop_ok [OF assms(1-3) calculation(2), of ef] by blast
  ultimately show ?thesis
    by (auto simp: search_layer_def beam_ok_def)
qed

section \<open>Link updates\<close>

text \<open>Link updates keep the shape of the graph: which node reaches which layer.\<close>

definition shape :: "node list \<Rightarrow> (nat \<times> nat) list" where
  "shape nodes = map (\<lambda>n. (nd_level n, length (nd_links n))) nodes"

lemma shape_length: "shape nodes' = shape nodes \<Longrightarrow> length nodes' = length nodes"
  by (metis length_map shape_def)

lemma has_layer_shape: "has_layer nodes i l \<longleftrightarrow> unat i < length nodes \<and> l < snd (shape nodes ! unat i)"
  by (auto simp: has_layer_def shape_def)

lemma shape_has_layer:
  assumes "shape nodes' = shape nodes"
  shows "has_layer nodes' = has_layer nodes"
  using assms shape_length [OF assms] by (simp add: has_layer_shape fun_eq_iff)

lemma get_links_ok: "has_layer nodes a l \<Longrightarrow> get_links a l nodes = Inr (links_at nodes a l)"
  by (simp add: get_links_def has_layer_def links_at_def vec_simps)

text \<open>Replacing one link list: the shape stays, only that list changes.\<close>

definition relinked :: "node list \<Rightarrow> node list \<Rightarrow> internal_id \<Rightarrow> nat \<Rightarrow> internal_id list \<Rightarrow> bool" where
  "relinked nodes nodes' a l ls \<longleftrightarrow> shape nodes' = shape nodes
     \<and> (\<forall>b k. has_layer nodes b k \<longrightarrow> links_at nodes' b k = (if b = a \<and> k = l then ls else links_at nodes b k))"

lemma put_links_ok:
  assumes "has_layer nodes a l"
  shows "\<exists>nodes'. put_links a l ls nodes = Inr nodes' \<and> relinked nodes nodes' a l ls"
proof -
  let ?n = "nodes ! unat a"
  let ?nodes = "nodes[unat a := ?n\<lparr>nd_links := (nd_links ?n)[l := ls]\<rparr>]"
  have "put_links a l ls nodes = Inr ?nodes"
    using assms by (simp add: put_links_def has_layer_def vec_simps)
  moreover have "shape ?nodes = shape nodes"
    using assms by (auto simp: shape_def has_layer_def nth_list_update intro!: nth_equalityI)
  moreover have "links_at ?nodes b k = (if b = a \<and> k = l then ls else links_at nodes b k)" if "has_layer nodes b k" for b k
    using assms that by (auto simp: links_at_def has_layer_def nth_list_update)
  ultimately show ?thesis
    by (auto simp: relinked_def)
qed

lemma relinked_layers: "relinked nodes nodes' a l ls \<Longrightarrow> has_layer nodes' = has_layer nodes"
  by (rule shape_has_layer) (simp add: relinked_def)

lemma relinked_links:
  "relinked nodes nodes' a l ls \<Longrightarrow> has_layer nodes b k \<Longrightarrow>
     links_at nodes' b k = (if b = a \<and> k = l then ls else links_at nodes b k)"
  by (simp add: relinked_def)

lemma graph_okD: "graph_ok nodes \<Longrightarrow> has_layer nodes i l \<Longrightarrow> e \<in> set (links_at nodes i l) \<Longrightarrow> has_layer nodes e l"
  by (auto simp: graph_ok_def)

lemma relinked_graph:
  assumes "relinked nodes nodes' a l ls" and "graph_ok nodes" and "\<forall>e \<in> set ls. has_layer nodes e l"
  shows "graph_ok nodes'"
  unfolding graph_ok_def relinked_layers [OF assms(1)]
  using relinked_links [OF assms(1)] graph_okD [OF assms(2)] assms(3) by (auto split: if_splits)

lemma connect_ok:
  assumes "graph_ok nodes" and "has_layer nodes a l" and "has_layer nodes b l"
  shows "\<exists>nodes'. connect a b l nodes = Inr nodes' \<and> graph_ok nodes' \<and> shape nodes' = shape nodes
    \<and> (\<forall>c k. has_layer nodes c k \<longrightarrow> \<not> (k = l \<and> (c = a \<or> c = b)) \<longrightarrow> links_at nodes' c k = links_at nodes c k)
    \<and> (a \<noteq> b \<longrightarrow> length (links_at nodes' a l) = Suc (length (links_at nodes a l)))"
proof -
  obtain n1 where n1: "put_links a l (links_at nodes a l @ [b]) nodes = Inr n1" "relinked nodes n1 a l (links_at nodes a l @ [b])"
    using put_links_ok [OF assms(2)] by blast
  note l1 = relinked_layers [OF n1(2)]
  have g1: "graph_ok n1"
    using relinked_graph [OF n1(2) assms(1)] graph_okD [OF assms(1,2)] assms(3) by auto
  have b1: "has_layer n1 b l"
    using assms(3) by (simp add: l1)
  obtain n2 where n2: "put_links b l (links_at n1 b l @ [a]) n1 = Inr n2" "relinked n1 n2 b l (links_at n1 b l @ [a])"
    using put_links_ok [OF b1] by blast
  have "graph_ok n2"
    using relinked_graph [OF n2(2) g1] graph_okD [OF g1 b1] assms(2) by (auto simp: l1)
  moreover have "connect a b l nodes = Inr n2"
    using n1(1) n2(1) by (simp add: connect_def get_links_ok assms(2) b1)
  moreover have "shape n2 = shape nodes"
    using n1(2) n2(2) by (simp add: relinked_def)
  moreover have "links_at n2 c k = links_at nodes c k" if "has_layer nodes c k" "\<not> (k = l \<and> (c = a \<or> c = b))" for c k
    using that relinked_links [OF n2(2), of c k] relinked_links [OF n1(2), of c k] by (auto simp: l1)
  moreover have "length (links_at n2 a l) = Suc (length (links_at nodes a l))" if "a \<noteq> b"
    using that relinked_links [OF n2(2), of a l] relinked_links [OF n1(2), of a l] assms(2) by (simp add: l1)
  ultimately show ?thesis
    by blast
qed

lemma keep_cand_total:
  assumes "readable s cv nodes" and "\<forall>r \<in> set rs. unat (c_id r) < length nodes"
  shows "\<exists>b. keep_cand s m cv d rs = Inr b"
  using assms(2)
proof (induction rs)
  case (Cons r rs)
  have "dist_to s m cv (c_id r) = Inr (metric_value m cv (slot_vec s (c_id r)))"
    using Cons.prems by (intro dist_to_value [OF assms(1)]) simp
  then obtain rv where "vs_get s (c_id r) = Inr rv"
    "metric_distance m cv rv (vs_dim s) = Inr (metric_value m cv (slot_vec s (c_id r)))"
    by (auto simp: dist_to_def res_simps)
  with Cons show ?case
    by auto
qed auto

lemma readable_slot:
  assumes "readable s q nodes" and "unat i < length nodes"
  shows "vs_get s i = Inr (slot_vec s i)" and "readable s (slot_vec s i) nodes"
  using assms vs_get_slot [of s i] length_slot_vec [of s i] by (auto simp: readable_def)

lemma select_loop_ok:
  assumes "readable s q nodes" and "\<forall>c \<in> set cs \<union> set result. unat (c_id c) < length nodes" and "length result \<le> n"
  shows "\<exists>out. select_loop s m n cs result = Inr out \<and> length out \<le> n \<and> set out \<subseteq> set cs \<union> set result"
  using assms(2,3)
proof (induction cs arbitrary: result)
  case (Cons c cs)
  show ?case
  proof (cases "length result \<ge> n")
    case False
    obtain b where b: "keep_cand s m (slot_vec s (c_id c)) (c_dist c) result = Inr b"
      using keep_cand_total [of s "slot_vec s (c_id c)" nodes result m "c_dist c"]
        readable_slot(2) [OF assms(1)] Cons.prems by auto
    let ?r = "if b then result @ [c] else result"
    have sub: "set ?r \<subseteq> set (c # cs) \<union> set result" "length ?r \<le> n"
      using False by auto
    then have "\<forall>c \<in> set cs \<union> set ?r. unat (c_id c) < length nodes"
      using Cons.prems(1) by auto
    from Cons.IH [OF this sub(2)] obtain out where "select_loop s m n cs ?r = Inr out" "length out \<le> n" "set out \<subseteq> set cs \<union> set ?r"
      by blast
    moreover have "select_loop s m n (c # cs) result = select_loop s m n cs ?r"
      using b False Cons.prems(1) by (simp add: readable_slot(1) [OF assms(1)])
    ultimately show ?thesis
      using sub(1) by (auto split: if_splits)
  qed (use Cons.prems in auto)
qed simp

lemma connect_all_ok:
  assumes "graph_ok nodes" and "has_layer nodes i l" and "\<forall>nb \<in> set nbs. has_layer nodes (c_id nb) l"
  shows "\<exists>nodes'. rfold (\<lambda>nb nodes. connect i (c_id nb) l nodes) nbs nodes = Inr nodes' \<and> graph_ok nodes' \<and> shape nodes' = shape nodes
    \<and> (\<forall>c k. has_layer nodes c k \<longrightarrow> \<not> (k = l \<and> (c = i \<or> c \<in> c_id ` set nbs)) \<longrightarrow> links_at nodes' c k = links_at nodes c k)
    \<and> (i \<notin> c_id ` set nbs \<longrightarrow> length (links_at nodes' i l) = length (links_at nodes i l) + length nbs)"
  using assms
proof (induction nbs arbitrary: nodes)
  case (Cons nb nbs)
  obtain n1 where n1: "connect i (c_id nb) l nodes = Inr n1" "graph_ok n1" "shape n1 = shape nodes"
    "\<forall>c k. has_layer nodes c k \<longrightarrow> \<not> (k = l \<and> (c = i \<or> c = c_id nb)) \<longrightarrow> links_at n1 c k = links_at nodes c k"
    "i \<noteq> c_id nb \<longrightarrow> length (links_at n1 i l) = Suc (length (links_at nodes i l))"
    using connect_ok [OF Cons.prems(1,2), of "c_id nb"] Cons.prems(3) by auto
  note l1 = shape_has_layer [OF n1(3)]
  obtain n2 where n2: "rfold (\<lambda>nb nodes. connect i (c_id nb) l nodes) nbs n1 = Inr n2" "graph_ok n2" "shape n2 = shape n1"
    "\<forall>c k. has_layer nodes c k \<longrightarrow> \<not> (k = l \<and> (c = i \<or> c \<in> c_id ` set nbs)) \<longrightarrow> links_at n2 c k = links_at n1 c k"
    "i \<notin> c_id ` set nbs \<longrightarrow> length (links_at n2 i l) = length (links_at n1 i l) + length nbs"
    using Cons.IH [OF n1(2)] Cons.prems(2,3) unfolding l1 by auto
  show ?case
    by (rule exI [of _ n2]) (use n1 n2 in auto)
qed simp

lemma readable_length: "readable s q nodes \<Longrightarrow> length nodes' = length nodes \<Longrightarrow> readable s q nodes'"
  by (simp add: readable_def)

definition params_ok :: "hnsw_params \<Rightarrow> bool" where
  "params_ok p \<longleftrightarrow> 0 \<le> hp_M p \<and> hp_M p < 2 ^ 30"

definition capped :: "hnsw_params \<Rightarrow> node list \<Rightarrow> bool" where
  "capped p nodes \<longleftrightarrow> (\<forall>i l. has_layer nodes i l \<longrightarrow> length (links_at nodes i l) \<le> max_links p l)"

lemma M_le_max_links: "params_ok p \<Longrightarrow> to_size (hp_M p) \<le> max_links p l"
  by (auto simp: params_ok_def max_links_def to_size_def)

text \<open>The state of the loop over layers with layers below \<open>n\<close> still to be linked for node \<open>i\<close>.\<close>

definition link_inv ::
  "vector_store \<Rightarrow> metric_kind \<Rightarrow> hnsw_params \<Rightarrow> fvec \<Rightarrow> internal_id \<Rightarrow> node list \<Rightarrow> nat \<Rightarrow>
   cand list \<times> visited \<times> node list \<Rightarrow> bool" where
  "link_inv s m p q i nodes0 n = (\<lambda>(entries, vis, nodes).
     shape nodes = shape nodes0 \<and> graph_ok nodes \<and> capped p nodes \<and> vis_ok (length nodes0) vis
   \<and> distinct (map c_id entries) \<and> (\<forall>c \<in> set entries. \<forall>k < n. cand_at s m q nodes0 k c)
   \<and> (\<forall>k < n. links_at nodes i k = []))"

lemma cand_at_shape: "shape nodes' = shape nodes \<Longrightarrow> cand_at s m q nodes' = cand_at s m q nodes"
  using shape_has_layer [of nodes' nodes] by (simp add: cand_at_def fun_eq_iff)

section \<open>The index invariant\<close>

text \<open>
  Built nodes have one link list per layer up to their level and the others none; no node is above the
  maximal level, and the entry point is on it.
\<close>

definition level_ok :: "int \<Rightarrow> u8 \<Rightarrow> nat \<times> nat \<Rightarrow> bool" where
  "level_ok ml b e \<longleftrightarrow> snd e = (if b = 0 then 0 else Suc (fst e)) \<and> int (snd e) \<le> ml + 1"

definition levels_ok :: "u8 list \<Rightarrow> (nat \<times> nat) list \<Rightarrow> int \<Rightarrow> bool" where
  "levels_ok built sh ml \<longleftrightarrow> list_all2 (level_ok ml) built sh"

definition hnsw_wf :: "vector_store \<Rightarrow> hnsw_index \<Rightarrow> bool" where
  "hnsw_wf s x \<longleftrightarrow>
     params_ok (hn_params x) \<and> length (hn_nodes x) \<le> slot_count s
   \<and> graph_ok (hn_nodes x) \<and> capped (hn_params x) (hn_nodes x)
   \<and> levels_ok (hn_built x) (shape (hn_nodes x)) (hn_max_level x)
   \<and> (if hn_entry x = kInvalidId then hn_max_level x = - 1
      else 0 \<le> hn_max_level x \<and> has_layer (hn_nodes x) (hn_entry x) (nat (hn_max_level x)))"

lemma make_hnsw_wf: "params_ok p \<Longrightarrow> hnsw_wf s (make_hnsw_index m p)"
  by (simp add: hnsw_wf_def make_hnsw_index_def graph_ok_def capped_def levels_ok_def shape_def has_layer_def)

lemma hnsw_wf_slots: "hnsw_wf s x \<Longrightarrow> slot_count s \<le> slot_count s' \<Longrightarrow> hnsw_wf s' x"
  by (simp add: hnsw_wf_def)

lemma has_layer_pad:
  "has_layer (nodes @ replicate k \<lparr>nd_level = 0, nd_links = []\<rparr>) = has_layer nodes"
  by (auto simp: has_layer_def nth_append fun_eq_iff)

lemma links_at_pad: "has_layer nodes i l \<Longrightarrow> links_at (nodes @ zs) i l = links_at nodes i l"
  by (simp add: links_at_def has_layer_def nth_append)

lemma shape_simps [simp]:
  "length (shape nodes) = length nodes" "i < length nodes \<Longrightarrow> shape nodes ! i = (nd_level (nodes ! i), length (nd_links (nodes ! i)))"
  by (simp_all add: shape_def)

lemma levels_pad:
  assumes "levels_ok built (shape nodes) ml" and "- 1 \<le> ml"
  shows "levels_ok (built @ replicate k 0) (shape (nodes @ replicate k \<lparr>nd_level = 0, nd_links = []\<rparr>)) ml"
proof -
  have "list_all2 (level_ok ml) (replicate k 0) (replicate k (0, 0))"
    using assms(2) by (induction k) (simp_all add: level_ok_def)
  with assms(1) show ?thesis
    by (simp add: levels_ok_def shape_def list_all2_appendI)
qed

lemma grow_wf:
  assumes "hnsw_wf s x" and "unat i < slot_count s"
  shows "hnsw_wf s (hnsw_grow (unat i + 1) x)" "unat i < length (hn_nodes (hnsw_grow (unat i + 1) x))"
proof -
  have "- 1 \<le> hn_max_level x"
    using assms(1) by (auto simp: hnsw_wf_def split: if_splits)
  then have "levels_ok (hn_built x @ replicate k 0) (shape (hn_nodes x @ replicate k \<lparr>nd_level = 0, nd_links = []\<rparr>)) (hn_max_level x)" for k
    using assms(1) levels_pad by (simp add: hnsw_wf_def)
  moreover have "length (hn_built x) = length (hn_nodes x)"
    using assms(1) by (auto simp: hnsw_wf_def levels_ok_def dest: list_all2_lengthD)
  ultimately show "hnsw_wf s (hnsw_grow (unat i + 1) x)"
    using assms by (auto simp: hnsw_wf_def hnsw_grow_def has_layer_pad graph_ok_def capped_def links_at_pad)
qed (auto simp: hnsw_grow_def)

lemma grow_fields [simp]:
  "hn_metric (hnsw_grow n x) = hn_metric x" "hn_params (hnsw_grow n x) = hn_params x"
  "hn_entry (hnsw_grow n x) = hn_entry x" "hn_max_level (hnsw_grow n x) = hn_max_level x"
  by (simp_all add: hnsw_grow_def)

text \<open>A node without links gets empty link lists up to its level.\<close>

lemma fresh_node:
  fixes lv :: nat and i :: internal_id
  assumes "unat i < length nodes" and "nd_links (nodes ! unat i) = []"
  defines "nodes1 \<equiv> nodes[unat i := \<lparr>nd_level = lv, nd_links = replicate (lv + 1) []\<rparr>]"
  shows "has_layer nodes1 j l \<longleftrightarrow> (j = i \<and> l \<le> lv) \<or> has_layer nodes j l"
    and "has_layer nodes1 j l \<Longrightarrow> links_at nodes1 j l = (if j = i then [] else links_at nodes j l)"
  using assms by (auto simp: has_layer_def links_at_def nth_list_update nodes1_def simp del: replicate.simps)

lemma fresh_node_graph:
  fixes lv :: nat and i :: internal_id
  assumes "unat i < length nodes" and "nd_links (nodes ! unat i) = []" and "graph_ok nodes" and "capped p nodes"
  defines "nodes1 \<equiv> nodes[unat i := \<lparr>nd_level = lv, nd_links = replicate (lv + 1) []\<rparr>]"
  shows "graph_ok nodes1" and "capped p nodes1"
proof -
  note f = fresh_node [OF assms(1,2), of lv, folded nodes1_def]
  show "graph_ok nodes1"
    using graph_okD [OF assms(3)] by (auto simp: graph_ok_def f split: if_splits)
  show "capped p nodes1"
    using assms(4) by (auto simp: capped_def f split: if_splits)
qed

lemma levels_mono: "levels_ok built sh ml \<Longrightarrow> ml \<le> ml' \<Longrightarrow> levels_ok built sh ml'"
  by (auto simp: levels_ok_def level_ok_def elim!: list_all2_mono)

lemma fresh_levels:
  assumes "levels_ok built (shape nodes) ml" and "ml \<le> ml'" and "int lv \<le> ml'"
  shows "levels_ok (built[j := 1]) (shape (nodes[j := \<lparr>nd_level = lv, nd_links = replicate (lv + 1) []\<rparr>])) ml'"
  using levels_mono [OF assms(1,2)] assms(3)
  by (simp add: levels_ok_def shape_def map_update level_ok_def list_all2_update_cong)

lemma slot_not_invalid:
  assumes "store_wf s" and "unat i < slot_count s"
  shows "i \<noteq> kInvalidId"
proof
  assume "i = kInvalidId"
  then have "unat i = 2 ^ 32 - 1"
    by (simp add: kInvalidId_def unsigned_minus_1_eq_mask mask_eq_exp_minus_1)
  with assms show False
    by (auto simp: slot_count_def dest: store_wfD(2))
qed

text \<open>The invariant of the state in which a first node, or a node below or above the entry point, is linked.\<close>

lemma levels_empty:
  assumes "levels_ok built (shape nodes) ml" and "j < length nodes" and "built ! j = 0"
  shows "nd_links (nodes ! j) = []"
  using list_all2_nthD [of "level_ok ml" built "shape nodes" j] assms
  by (auto simp: levels_ok_def level_ok_def dest: list_all2_lengthD)

text \<open>Insertion of a node that is not yet in the graph of an index that has room for it.\<close>

definition add_node :: "internal_id \<Rightarrow> hnsw_index \<Rightarrow> hnsw_index" where
  "add_node i x =
     (let lv = hp_levels (hn_params x) (hn_draws x)
      in x\<lparr>hn_draws := hn_draws x + 1,
           hn_nodes := (hn_nodes x)[unat i := \<lparr>nd_level = lv, nd_links = replicate (lv + 1) []\<rparr>],
           hn_built := (hn_built x)[unat i := 1]\<rparr>)"

lemma add_first_wf:
  assumes "store_wf s" and x: "hnsw_wf s x" and i: "unat i < length (hn_nodes x)" "hn_built x ! unat i = 0"
    and first: "hn_entry x = kInvalidId"
  shows "hnsw_wf s ((add_node i x)\<lparr>hn_entry := i, hn_max_level := int (hp_levels (hn_params x) (hn_draws x))\<rparr>)"
proof -
  let ?lv = "hp_levels (hn_params x) (hn_draws x)"
  have lv: "levels_ok (hn_built x) (shape (hn_nodes x)) (- 1)" and g: "graph_ok (hn_nodes x)" "capped (hn_params x) (hn_nodes x)"
    using x first by (auto simp: hnsw_wf_def)
  have nl: "nd_links (hn_nodes x ! unat i) = []"
    using levels_empty [OF lv i] .
  have "i \<noteq> kInvalidId"
    using slot_not_invalid [OF assms(1), of i] i(1) x by (auto simp: hnsw_wf_def)
  then show ?thesis
    using x fresh_levels [OF lv, of "int ?lv" ?lv "unat i"] fresh_node_graph [OF i(1) nl g, of ?lv]
      fresh_node(1) [OF i(1) nl, of ?lv i ?lv]
    by (simp add: hnsw_wf_def add_node_def Let_def)
qed

lemma add_linked_wf:
  assumes "store_wf s" and x: "hnsw_wf s x" and i: "unat i < length (hn_nodes x)" "hn_built x ! unat i = 0"
    and old: "hn_entry x \<noteq> kInvalidId"
    and nodes2: "graph_ok nodes2" "capped (hn_params x) nodes2" "shape nodes2 = shape (hn_nodes (add_node i x))"
  defines "x2 \<equiv> (add_node i x)\<lparr>hn_nodes := nodes2\<rparr>" and "lv \<equiv> hp_levels (hn_params x) (hn_draws x)"
  shows "hnsw_wf s (if int lv > hn_max_level x2 then x2\<lparr>hn_max_level := int lv, hn_entry := i\<rparr> else x2)"
proof -
  let ?ml = "hn_max_level x" and ?nodes1 = "hn_nodes (add_node i x)"
  have ml: "0 \<le> ?ml" "has_layer (hn_nodes x) (hn_entry x) (nat ?ml)" "levels_ok (hn_built x) (shape (hn_nodes x)) ?ml"
    "params_ok (hn_params x)" "length (hn_nodes x) \<le> slot_count s"
    using x old by (auto simp: hnsw_wf_def)
  have nl: "nd_links (hn_nodes x ! unat i) = []"
    using levels_empty [OF ml(3) i] .
  have nodes1: "?nodes1 = (hn_nodes x)[unat i := \<lparr>nd_level = lv, nd_links = replicate (lv + 1) []\<rparr>]"
    and f: "hn_params x2 = hn_params x" "hn_nodes x2 = nodes2" "hn_built x2 = (hn_built x)[unat i := 1]"
      "hn_entry x2 = hn_entry x" "hn_max_level x2 = ?ml"
    by (simp_all add: add_node_def Let_def lv_def x2_def)
  have ly: "has_layer nodes2 j l \<longleftrightarrow> (j = i \<and> l \<le> lv) \<or> has_layer (hn_nodes x) j l" for j l
    using shape_has_layer [OF nodes2(3)] fresh_node(1) [OF i(1) nl, of lv j l] by (simp add: nodes1)
  have len: "length nodes2 = length (hn_nodes x)"
    using shape_length [OF nodes2(3)] by (simp add: nodes1)
  have lvs: "?ml \<le> ml' \<Longrightarrow> int lv \<le> ml' \<Longrightarrow> levels_ok ((hn_built x)[unat i := 1]) (shape nodes2) ml'" for ml'
    using fresh_levels [OF ml(3), of ml' lv "unat i"] nodes2(3) by (simp add: nodes1)
  have "i \<noteq> kInvalidId"
    using slot_not_invalid [OF assms(1), of i] i(1) ml(5) by auto
  then show ?thesis
    using ml nodes2 old len lvs [of "int lv"] lvs [of ?ml] by (simp add: hnsw_wf_def f ly)
qed

section \<open>Insertion\<close>

lemma select_neighbors_eq: "select_neighbors s m cands n = select_loop s m n (sort_by cand_less cands) []"
  by (simp add: select_neighbors_def select_neighbors_by_def total_sort_def)

lemmas prune_eq = prune_by_def [of total_sort, folded prune_def select_neighbors_def]

lemmas link_layer_eq = link_layer_by_def [of total_sort, folded link_layer_def prune_def select_neighbors_def]

lemmas hnsw_add_eq = hnsw_add_by_def [of total_sort, folded hnsw_add_def link_layer_def]

text \<open>
  What insertion needs of the sort: a list of candidates whose distances are acceptable is permuted. Every
  distance a store gives has to be acceptable.
\<close>

definition dists_from :: "(score \<Rightarrow> bool) \<Rightarrow> vector_store \<Rightarrow> metric_kind \<Rightarrow> fvec \<Rightarrow> bool" where
  "dists_from okd s m q \<longleftrightarrow> (\<forall>i. unat i < slot_count s \<longrightarrow> okd (metric_value m q (slot_vec s i)))"

definition dists_ok :: "(score \<Rightarrow> bool) \<Rightarrow> vector_store \<Rightarrow> metric_kind \<Rightarrow> bool" where
  "dists_ok okd s m \<longleftrightarrow> (\<forall>i. unat i < slot_count s \<longrightarrow> dists_from okd s m (slot_vec s i))"

locale cand_sorter =
  fixes srt :: sorter and okd :: "score \<Rightarrow> bool"
  assumes permutes: "\<forall>c \<in> set cs. okd (c_dist c) \<Longrightarrow> \<exists>out. srt cs = Inr out \<and> mset out = mset cs"
begin

lemma select_by_ok:
  assumes "readable s q nodes" and "\<forall>c \<in> set cands. unat (c_id c) < length nodes \<and> okd (c_dist c)"
  shows "\<exists>out. select_neighbors_by srt s m cands n = Inr out \<and> length out \<le> n \<and> set out \<subseteq> set cands"
proof -
  obtain cs where cs: "srt cands = Inr cs" "set cs = set cands"
    using permutes [of cands] assms(2) mset_eq_setD by blast
  then show ?thesis
    using select_loop_ok [OF assms(1), of cs "[]" n m] assms(2) by (simp add: select_neighbors_by_def)
qed

lemma prune_by_ok:
  assumes "readable s q nodes" and "graph_ok nodes" and i: "has_layer nodes i l" and d: "dists_ok okd s m"
  shows "\<exists>nodes' ls. prune_by srt s m i l cap nodes = Inr nodes' \<and> graph_ok nodes' \<and> relinked nodes nodes' i l ls \<and> length ls \<le> cap"
proof (cases "length (links_at nodes i l) \<le> cap")
  case True
  with assms show ?thesis
    by (intro exI [of _ nodes] exI [of _ "links_at nodes i l"]) (auto simp: prune_by_def get_links_ok relinked_def)
next
  case False
  let ?v = "slot_vec s i" and ?ls = "links_at nodes i l"
  let ?c = "\<lambda>x. \<lparr>c_dist = metric_value m ?v (slot_vec s x), c_id = x\<rparr>"
  have v: "vs_get s i = Inr ?v" "readable s ?v nodes"
    using readable_slot [OF assms(1)] i by (auto simp: has_layer_def)
  have in_layer: "\<forall>e \<in> set ?ls. has_layer nodes e l"
    using assms(2) i by (auto simp: graph_ok_def)
  have ok: "okd (metric_value m ?v (slot_vec s x))" if "x \<in> set ?ls" for x
    using in_layer that i d assms(1) by (auto simp: dists_ok_def dists_from_def has_layer_def readable_def)
  have "rfold (\<lambda>x cc. rbind (dist_to s m ?v x) (\<lambda>d. Inr (cc @ [\<lparr>c_dist = d, c_id = x\<rparr>]))) es acc = Inr (acc @ map ?c es)"
    if "set es \<subseteq> set ?ls" for es acc
    using that
  proof (induction es arbitrary: acc)
    case (Cons e es)
    then show ?case
      using dist_to_value [OF v(2), of e m] in_layer by (auto simp: has_layer_def)
  qed simp
  moreover obtain kept where kept: "select_neighbors_by srt s m (map ?c ?ls) cap = Inr kept" "length kept \<le> cap" "set kept \<subseteq> ?c ` set ?ls"
    using select_by_ok [OF assms(1), of "map ?c ?ls" m cap] in_layer ok by (auto simp: has_layer_def)
  moreover obtain nodes' where n: "put_links i l (map c_id kept) nodes = Inr nodes'" "relinked nodes nodes' i l (map c_id kept)"
    using put_links_ok [OF i] by blast
  moreover have "\<forall>e \<in> set (map c_id kept). has_layer nodes e l"
    using kept(3) in_layer by fastforce
  then have "graph_ok nodes'"
    by (rule relinked_graph [OF n(2) assms(2)])
  ultimately show ?thesis
    using False v(1) i by (intro exI [of _ nodes'] exI [of _ "map c_id kept"]) (auto simp: prune_by_def get_links_ok)
qed

lemma prune_all_by_ok:
  assumes "readable s q nodes" and "graph_ok nodes" and "\<forall>nb \<in> set nbs. has_layer nodes (c_id nb) l"
    and d: "dists_ok okd s m"
  shows "\<exists>nodes'. rfold (\<lambda>nb nodes. prune_by srt s m (c_id nb) l cap nodes) nbs nodes = Inr nodes' \<and> graph_ok nodes' \<and> shape nodes' = shape nodes
    \<and> (\<forall>c k. has_layer nodes c k \<longrightarrow> links_at nodes' c k = links_at nodes c k \<or> k = l \<and> length (links_at nodes' c k) \<le> cap)
    \<and> (\<forall>nb \<in> set nbs. length (links_at nodes' (c_id nb) l) \<le> cap)"
  using assms(1-3)
proof (induction nbs arbitrary: nodes)
  case (Cons nb nbs)
  obtain n1 ls where n1: "prune_by srt s m (c_id nb) l cap nodes = Inr n1" "graph_ok n1" "relinked nodes n1 (c_id nb) l ls" "length ls \<le> cap"
    using prune_by_ok [OF Cons.prems(1,2) _ d, of "c_id nb" l cap] Cons.prems(3) by auto
  have nb: "has_layer nodes (c_id nb) l" and sh: "shape n1 = shape nodes"
    using Cons.prems(3) n1(3) by (auto simp: relinked_def)
  note l1 = relinked_layers [OF n1(3)] and r1 = relinked_links [OF n1(3)]
  have "readable s q n1"
    using readable_length [OF Cons.prems(1)] shape_length [OF sh] by simp
  from Cons.IH [OF this n1(2)] Cons.prems(3) obtain n2
    where n2: "rfold (\<lambda>nb nodes. prune_by srt s m (c_id nb) l cap nodes) nbs n1 = Inr n2" "graph_ok n2" "shape n2 = shape n1"
    "\<And>c k. has_layer nodes c k \<Longrightarrow> links_at n2 c k = links_at n1 c k \<or> k = l \<and> length (links_at n2 c k) \<le> cap"
    "\<forall>nb \<in> set nbs. length (links_at n2 (c_id nb) l) \<le> cap"
    unfolding l1 by auto
  have "links_at n2 c k = links_at nodes c k \<or> k = l \<and> length (links_at n2 c k) \<le> cap" if "has_layer nodes c k" for c k
    using n2(4) [OF that] r1 [OF that] n1(4) by (auto split: if_splits)
  moreover have "length (links_at n2 (c_id nb) l) \<le> cap"
    using n2(4) [OF nb] r1 [OF nb] n1(4) by auto
  ultimately show ?case
    using n1(1) n2 sh by (intro exI [of _ n2]) auto
qed simp

lemma rewire_by_ok:
  assumes r: "readable s q nodes" and g: "graph_ok nodes" and cap: "capped p nodes" and p: "params_ok p"
    and i: "has_layer nodes i lc" "links_at nodes i lc = []"
    and nb: "\<forall>nb \<in> set nbs. has_layer nodes (c_id nb) lc" "length nbs \<le> to_size (hp_M p)"
    and d: "dists_ok okd s m"
  shows "\<exists>n1 n2. rfold (\<lambda>nb nodes. connect i (c_id nb) lc nodes) nbs nodes = Inr n1
    \<and> rfold (\<lambda>nb nodes. prune_by srt s m (c_id nb) lc (max_links p lc) nodes) nbs n1 = Inr n2
    \<and> graph_ok n2 \<and> capped p n2 \<and> shape n2 = shape nodes
    \<and> (\<forall>k. k \<noteq> lc \<longrightarrow> has_layer nodes i k \<longrightarrow> links_at n2 i k = links_at nodes i k)"
proof -
  obtain n1 where n1: "rfold (\<lambda>nb nodes. connect i (c_id nb) lc nodes) nbs nodes = Inr n1" "graph_ok n1" "shape n1 = shape nodes"
    "\<And>c k. has_layer nodes c k \<Longrightarrow> \<not> (k = lc \<and> (c = i \<or> c \<in> c_id ` set nbs)) \<Longrightarrow> links_at n1 c k = links_at nodes c k"
    "i \<notin> c_id ` set nbs \<Longrightarrow> length (links_at n1 i lc) = length (links_at nodes i lc) + length nbs"
    using connect_all_ok [OF g i(1) nb(1)] by blast
  note l1 = shape_has_layer [OF n1(3)]
  have "readable s q n1"
    using readable_length [OF r] shape_length [OF n1(3)] by simp
  from prune_all_by_ok [OF this n1(2) _ d, of nbs lc "max_links p lc"] nb(1) l1 obtain n2
    where n2: "rfold (\<lambda>nb nodes. prune_by srt s m (c_id nb) lc (max_links p lc) nodes) nbs n1 = Inr n2" "graph_ok n2" "shape n2 = shape n1"
    "\<And>c k. has_layer nodes c k \<Longrightarrow> links_at n2 c k = links_at n1 c k \<or> k = lc \<and> length (links_at n2 c k) \<le> max_links p lc"
    "\<forall>nb \<in> set nbs. length (links_at n2 (c_id nb) lc) \<le> max_links p lc"
    by auto
  have "length (links_at n2 c k) \<le> max_links p k" if c: "has_layer nodes c k" for c k
  proof (cases "k = lc \<and> (c = i \<or> c \<in> c_id ` set nbs)")
    case True
    then show ?thesis
      using n2(4) [OF c] n2(5) n1(5) i(2) nb(2) M_le_max_links [OF p, of lc] by fastforce
  next
    case False
    then show ?thesis
      using n2(4) [OF c] n1(4) [OF c] cap c by (auto simp: capped_def)
  qed
  then have "capped p n2"
    using shape_has_layer [of n2 nodes] n1(3) n2(3) by (simp add: capped_def)
  moreover have "links_at n2 i k = links_at nodes i k" if "k \<noteq> lc" "has_layer nodes i k" for k
    using n2(4) [OF that(2)] n1(4) [OF that(2)] that(1) by auto
  ultimately show ?thesis
    using n1(1,3) n2(1-3) by auto
qed

lemma link_layer_by_ok:
  assumes r: "readable s q nodes0" and p: "params_ok p" and i: "\<forall>k \<le> lc. has_layer nodes0 i k"
    and inv: "link_inv s m p q i nodes0 (Suc lc) st" and d: "dists_ok okd s m" "dists_from okd s m q"
  shows "\<exists>st'. link_layer_by srt s m p q i lc st = Inr st' \<and> link_inv s m p q i nodes0 lc st'"
proof -
  obtain entries vis nodes where st: "st = (entries, vis, nodes)" by (cases st)
  have sh: "shape nodes = shape nodes0" and g: "graph_ok nodes" and cap: "capped p nodes" and v: "vis_ok (length nodes) vis"
    and ent: "distinct (map c_id entries)" "\<forall>c \<in> set entries. \<forall>k \<le> lc. cand_at s m q nodes k c"
    and empty: "\<forall>k \<le> lc. links_at nodes i k = []"
    using inv shape_length [of nodes nodes0] cand_at_shape [of nodes nodes0 s m q]
    by (auto simp: st link_inv_def less_Suc_eq_le)
  have ly: "has_layer nodes = has_layer nodes0" and len: "length nodes = length nodes0"
    using sh shape_has_layer shape_length by blast+
  have rn: "readable s q nodes"
    using readable_length [OF r] len by simp
  obtain vis' w where w: "search_layer s m nodes q entries (to_size (hp_efConstruction p)) lc None vis = Inr (vis', w)"
    "vis_ok (length nodes) vis'" "\<forall>c \<in> set w. cand_at s m q nodes lc c" "distinct (map c_id w)"
    using search_layer_ok [OF rn g _ v, of None entries m lc "to_size (hp_efConstruction p)"] ent
    by (auto simp: allowed_wf_def)
  have "\<forall>c \<in> set w. unat (c_id c) < length nodes \<and> okd (c_dist c)"
  proof
    fix c
    assume "c \<in> set w"
    then have "unat (c_id c) < length nodes" "c_dist c = metric_value m q (slot_vec s (c_id c))"
      using w(3) by (auto simp: cand_at_def has_layer_def)
    then show "unat (c_id c) < length nodes \<and> okd (c_dist c)"
      using d(2) rn by (simp add: dists_from_def readable_def)
  qed
  then obtain nbs where nbs: "select_neighbors_by srt s m w (to_size (hp_M p)) = Inr nbs" "length nbs \<le> to_size (hp_M p)" "set nbs \<subseteq> set w"
    using select_by_ok [OF rn] by blast
  have nl: "\<forall>nb \<in> set nbs. has_layer nodes (c_id nb) lc"
    using nbs(3) w(3) by (auto simp: cand_at_def)
  obtain n1 n2 where n: "rfold (\<lambda>nb nodes. connect i (c_id nb) lc nodes) nbs nodes = Inr n1"
    "rfold (\<lambda>nb nodes. prune_by srt s m (c_id nb) lc (max_links p lc) nodes) nbs n1 = Inr n2"
    "graph_ok n2" "capped p n2" "shape n2 = shape nodes"
    "\<forall>k. k \<noteq> lc \<longrightarrow> has_layer nodes i k \<longrightarrow> links_at n2 i k = links_at nodes i k"
    using rewire_by_ok [OF rn g cap p _ _ _ _ d(1), of i lc nbs] i ly empty nl nbs(2) by auto
  have "\<forall>c \<in> set w. \<forall>k < lc. cand_at s m q nodes0 k c"
    using w(3) has_layer_mono [of nodes0 _ lc] by (auto simp: cand_at_def ly)
  moreover have "\<forall>k < lc. links_at n2 i k = []"
    using n(6) i empty by (auto simp: ly)
  moreover have "\<forall>c \<in> set entries. \<forall>k < lc. cand_at s m q nodes0 k c"
    using ent(2) cand_at_shape [OF sh] by auto
  ultimately have "link_inv s m p q i nodes0 lc (if w \<noteq> [] then w else entries, vis', n2)"
    using n(3-5) w(2,4) ent(1) sh len by (auto simp: link_inv_def)
  moreover have "link_layer_by srt s m p q i lc st = Inr (if w \<noteq> [] then w else entries, vis', n2)"
    using w(1) nbs(1) n(1,2) by (simp add: st link_layer_by_def)
  ultimately show ?thesis
    by blast
qed

lemma link_layers_by_ok:
  assumes "readable s q nodes0" and "params_ok p" and "\<forall>k < n. has_layer nodes0 i k"
    and "link_inv s m p q i nodes0 n st" and d: "dists_ok okd s m" "dists_from okd s m q"
  shows "\<exists>st'. rfold (link_layer_by srt s m p q i) (rev [0..<n]) st = Inr st' \<and> link_inv s m p q i nodes0 0 st'"
  using assms(3,4)
proof (induction n arbitrary: st)
  case (Suc n)
  then obtain st1 where "link_layer_by srt s m p q i n st = Inr st1" "link_inv s m p q i nodes0 n st1"
    using link_layer_by_ok [OF assms(1,2) _ _ d, of n i st] by auto
  with Suc show ?case
    by simp
qed simp

lemma link_new_node_by:
  fixes lv :: nat
  assumes wf: "store_wf s" and slots: "length nodes \<le> slot_count s" and p: "params_ok p"
    and g: "graph_ok nodes" and cap: "capped p nodes" and i: "unat i < length nodes" "nd_links (nodes ! unat i) = []"
    and ml: "0 \<le> ml" and ep: "has_layer nodes ep (nat ml)"
    and ok: "dists_ok okd s m"
  defines "nodes1 \<equiv> nodes[unat i := \<lparr>nd_level = lv, nd_links = replicate (lv + 1) []\<rparr>]" and "q \<equiv> slot_vec s i"
  shows "\<exists>d c es vis nodes2. dist_to s m q ep = Inr d
    \<and> zoom_in s m nodes1 q (rev [lv + 1 ..< nat (ml + 1)]) \<lparr>c_dist = d, c_id = ep\<rparr> = Inr c
    \<and> link_inv s m p q i nodes1 (nat (min (int lv) ml + 1)) ([c], vis_ensure (length nodes1) vis_empty, nodes1)
    \<and> rfold (link_layer_by srt s m p q i) (rev [0 ..< nat (min (int lv) ml + 1)]) ([c], vis_ensure (length nodes1) vis_empty, nodes1)
      = Inr (es, vis, nodes2)
    \<and> graph_ok nodes2 \<and> capped p nodes2 \<and> shape nodes2 = shape nodes1"
proof -
  let ?n = "nat (min (int lv) ml + 1)" and ?d = "metric_value m q (slot_vec s ep)"
  note f = fresh_node [OF i, of lv, folded nodes1_def]
  note g1 = fresh_node_graph [OF i g cap, of lv, folded nodes1_def]
  have "unat i < slot_count s"
    using i(1) slots by simp
  then have r: "readable s q nodes1"
    using wf slots length_slot_vec [OF wf] by (simp add: readable_def nodes1_def q_def)
  have dq: "dists_from okd s m q"
    using ok i(1) slots by (simp add: dists_ok_def q_def)
  have d: "dist_to s m q ep = Inr ?d"
    using dist_to_value [OF r, of ep m] ep by (simp add: has_layer_def nodes1_def)
  have below: "k < ?n \<Longrightarrow> has_layer nodes1 ep k" for k
    using has_layer_mono [OF ep, of k] by (auto simp: f)
  then have "cand_at s m q nodes1 (?n - 1) \<lparr>c_dist = ?d, c_id = ep\<rparr>"
    using ml by (simp add: cand_at_def)
  moreover have "\<forall>l \<in> set (rev [lv + 1 ..< nat (ml + 1)]). ?n - 1 \<le> l"
    by auto
  ultimately obtain c where c: "zoom_in s m nodes1 q (rev [lv + 1 ..< nat (ml + 1)]) \<lparr>c_dist = ?d, c_id = ep\<rparr> = Inr c"
    "cand_at s m q nodes1 (?n - 1) c"
    using zoom_in_ok [OF r g1(1)] by blast
  have layers: "\<forall>k < ?n. has_layer nodes1 i k"
    by (auto simp: f)
  have "\<forall>k < ?n. cand_at s m q nodes1 k c"
    using c(2) has_layer_mono [of nodes1 "c_id c" "?n - 1"] by (auto simp: cand_at_def)
  then have inv: "link_inv s m p q i nodes1 ?n ([c], vis_ensure (length nodes1) vis_empty, nodes1)"
    using g1 vis_ensure_ok layers by (auto simp: link_inv_def f)
  from link_layers_by_ok [OF r p layers inv ok dq] obtain es vis nodes2
    where "rfold (link_layer_by srt s m p q i) (rev [0 ..< ?n]) ([c], vis_ensure (length nodes1) vis_empty, nodes1) = Inr (es, vis, nodes2)"
      "link_inv s m p q i nodes1 0 (es, vis, nodes2)"
    by auto
  with d c(1) inv show ?thesis
    by (intro exI [of _ ?d] exI [of _ c] exI [of _ es] exI [of _ vis] exI [of _ nodes2]) (simp add: link_inv_def)
qed

lemma hnsw_add_by_ok:
  assumes wf: "store_wf s" and x: "hnsw_wf s x0" and slot: "unat i < slot_count s"
    and ok: "dists_ok okd s (hn_metric x0)"
  shows "\<exists>x'. hnsw_add_by srt s i x0 = Inr x' \<and> hnsw_wf s x' \<and> hn_metric x' = hn_metric x0 \<and> hn_params x' = hn_params x0
    \<and> unat i < length (hn_built x') \<and> hn_built x' ! unat i \<noteq> 0
    \<and> (\<forall>j < length (hn_built x0). j < length (hn_built x') \<and> (hn_built x0 ! j \<noteq> 0 \<longrightarrow> hn_built x' ! j \<noteq> 0))"
proof -
  define x where "x = hnsw_grow (unat i + 1) x0"
  have x_eq: "hnsw_grow (Suc (unat i)) x0 = x"
    by (simp add: x_def)
  have gx: "hnsw_wf s x" "unat i < length (hn_nodes x)" and fx: "hn_metric x = hn_metric x0" "hn_params x = hn_params x0"
    using grow_wf [OF x slot] by (simp_all add: x_def)
  have len: "length (hn_built x) = length (hn_nodes x)" and lvs: "levels_ok (hn_built x) (shape (hn_nodes x)) (hn_max_level x)"
    and g: "graph_ok (hn_nodes x)" "capped (hn_params x) (hn_nodes x)" and p: "params_ok (hn_params x)"
    and sl: "length (hn_nodes x) \<le> slot_count s"
    using gx(1) by (auto simp: hnsw_wf_def levels_ok_def dest: list_all2_lengthD)
  have bx: "\<forall>j < length (hn_built x0). j < length (hn_built x) \<and> hn_built x ! j = hn_built x0 ! j"
    by (simp add: x_def hnsw_grow_def nth_append)
  have q: "vs_get s i = Inr (slot_vec s i)"
    using vs_get_slot [OF wf slot] .
  let ?lv = "hp_levels (hn_params x) (hn_draws x)" and ?x1 = "add_node i x"
  consider (built) "hn_built x ! unat i \<noteq> 0" | (first) "hn_built x ! unat i = 0" "hn_entry x = kInvalidId"
    | (link) "hn_built x ! unat i = 0" "hn_entry x \<noteq> kInvalidId"
    by blast
  then show ?thesis
  proof cases
    case built
    with gx fx len bx show ?thesis
      by (auto simp: hnsw_add_by_def Let_def x_eq vec_simps)
  next
    case first
    have "hnsw_add_by srt s i x0 = Inr (?x1\<lparr>hn_entry := i, hn_max_level := int ?lv\<rparr>)"
      using first gx(2) len q by (simp add: hnsw_add_by_def Let_def x_eq vec_simps add_node_def)
    with add_first_wf [OF wf gx(1,2) first] fx gx(2) len bx show ?thesis
      by (auto simp: add_node_def Let_def nth_list_update)
  next
    case link
    have nl: "nd_links (hn_nodes x ! unat i) = []"
      using levels_empty [OF lvs gx(2) link(1)] .
    have "0 \<le> hn_max_level x" "has_layer (hn_nodes x) (hn_entry x) (nat (hn_max_level x))"
      using gx(1) link(2) by (auto simp: hnsw_wf_def)
    from link_new_node_by [OF wf sl p g gx(2) nl this ok, of ?lv, folded fx(1)]
    obtain d c es vis nodes2 where l: "dist_to s (hn_metric x) (slot_vec s i) (hn_entry x) = Inr d"
      "zoom_in s (hn_metric x) (hn_nodes ?x1) (slot_vec s i) (rev [?lv + 1 ..< nat (hn_max_level x + 1)]) \<lparr>c_dist = d, c_id = hn_entry x\<rparr> = Inr c"
      "rfold (link_layer_by srt s (hn_metric x) (hn_params x) (slot_vec s i) i) (rev [0 ..< nat (min (int ?lv) (hn_max_level x) + 1)])
        ([c], vis_ensure (length (hn_nodes ?x1)) vis_empty, hn_nodes ?x1) = Inr (es, vis, nodes2)"
      "graph_ok nodes2" "capped (hn_params x) nodes2" "shape nodes2 = shape (hn_nodes ?x1)"
      by (auto simp: add_node_def Let_def)
    let ?x2 = "?x1\<lparr>hn_nodes := nodes2\<rparr>"
    have "hnsw_add_by srt s i x0 = Inr (if int ?lv > hn_max_level ?x2 then ?x2\<lparr>hn_max_level := int ?lv, hn_entry := i\<rparr> else ?x2)"
      using link gx(2) len q l(1-3)
      by (simp add: hnsw_add_by_def Let_def x_eq vec_simps add_node_def)
    with add_linked_wf [OF wf gx(1,2) link l(4-6)] fx gx(2) len bx show ?thesis
      by (auto simp: add_node_def Let_def nth_list_update)
  qed
qed

end

interpretation total: cand_sorter total_sort "\<lambda>_. True"
  by unfold_locales (simp add: total_sort_def)

interpretation strict: cand_sorter std_sort "\<lambda>d. \<not> f32_is_nan d"
  by unfold_locales (auto simp: std_sort_def list_ex_iff)

lemma dists_any: "dists_ok (\<lambda>_. True) s m" "dists_from (\<lambda>_. True) s m q"
  by (simp_all add: dists_ok_def dists_from_def)

lemma dists_nan_free: "dists_from (\<lambda>d. \<not> f32_is_nan d) s m q = nan_free s m q"
  by (simp add: dists_from_def nan_free_def)

lemma prune_all_ok:
  assumes "readable s q nodes" and "graph_ok nodes" and "\<forall>nb \<in> set nbs. has_layer nodes (c_id nb) l"
  shows "\<exists>nodes'. rfold (\<lambda>nb nodes. prune s m (c_id nb) l cap nodes) nbs nodes = Inr nodes' \<and> graph_ok nodes' \<and> shape nodes' = shape nodes
    \<and> (\<forall>c k. has_layer nodes c k \<longrightarrow> links_at nodes' c k = links_at nodes c k \<or> k = l \<and> length (links_at nodes' c k) \<le> cap)
    \<and> (\<forall>nb \<in> set nbs. length (links_at nodes' (c_id nb) l) \<le> cap)"
  using total.prune_all_by_ok [OF assms dists_any(1)] by (simp add: prune_def)

lemma link_layer_ok:
  assumes r: "readable s q nodes0" and p: "params_ok p" and i: "\<forall>k \<le> lc. has_layer nodes0 i k"
    and inv: "link_inv s m p q i nodes0 (Suc lc) st"
  shows "\<exists>st'. link_layer s m p q i lc st = Inr st' \<and> link_inv s m p q i nodes0 lc st'"
  using total.link_layer_by_ok [OF assms dists_any] by (simp add: link_layer_def)

lemma link_new_node:
  fixes lv :: nat
  assumes wf: "store_wf s" and slots: "length nodes \<le> slot_count s" and p: "params_ok p"
    and g: "graph_ok nodes" and cap: "capped p nodes" and i: "unat i < length nodes" "nd_links (nodes ! unat i) = []"
    and ml: "0 \<le> ml" and ep: "has_layer nodes ep (nat ml)"
  defines "nodes1 \<equiv> nodes[unat i := \<lparr>nd_level = lv, nd_links = replicate (lv + 1) []\<rparr>]" and "q \<equiv> slot_vec s i"
  shows "\<exists>d c es vis nodes2. dist_to s m q ep = Inr d
    \<and> zoom_in s m nodes1 q (rev [lv + 1 ..< nat (ml + 1)]) \<lparr>c_dist = d, c_id = ep\<rparr> = Inr c
    \<and> link_inv s m p q i nodes1 (nat (min (int lv) ml + 1)) ([c], vis_ensure (length nodes1) vis_empty, nodes1)
    \<and> rfold (link_layer s m p q i) (rev [0 ..< nat (min (int lv) ml + 1)]) ([c], vis_ensure (length nodes1) vis_empty, nodes1)
      = Inr (es, vis, nodes2)
    \<and> graph_ok nodes2 \<and> capped p nodes2 \<and> shape nodes2 = shape nodes1"
  using total.link_new_node_by [OF wf slots p g cap i ml ep dists_any(1), of m lv] by (simp add: link_layer_def nodes1_def q_def)

lemma hnsw_add_ok:
  assumes wf: "store_wf s" and x: "hnsw_wf s x0" and slot: "unat i < slot_count s"
  shows "\<exists>x'. hnsw_add s i x0 = Inr x' \<and> hnsw_wf s x' \<and> hn_metric x' = hn_metric x0 \<and> hn_params x' = hn_params x0
    \<and> unat i < length (hn_built x') \<and> hn_built x' ! unat i \<noteq> 0
    \<and> (\<forall>j < length (hn_built x0). j < length (hn_built x') \<and> (hn_built x0 ! j \<noteq> 0 \<longrightarrow> hn_built x' ! j \<noteq> 0))"
  using total.hnsw_add_by_ok [OF assms dists_any(1)] by (simp add: hnsw_add_def)

text \<open>Where \<open>std_sort\<close> lets an insertion return, the total sort gives the same index.\<close>

lemma rfold_sub:
  assumes "\<And>e st st'. f e st = Inr st' \<Longrightarrow> g e st = Inr st'" and "rfold f es st = Inr st'"
  shows "rfold g es st = Inr st'"
  using assms(2) by (induction es arbitrary: st) (auto simp: res_simps assms(1))

lemma select_neighbors_std: "select_neighbors_by std_sort s m cs n = Inr out \<Longrightarrow> select_neighbors s m cs n = Inr out"
  by (auto simp: select_neighbors_by_def select_neighbors_eq std_sort_def res_simps split: if_splits)

lemma prune_std: "prune_by std_sort s m i l cap nodes = Inr nodes' \<Longrightarrow> prune s m i l cap nodes = Inr nodes'"
  by (auto simp: prune_by_def prune_eq res_simps select_neighbors_std split: if_splits)

lemma link_layer_std:
  assumes "link_layer_by std_sort s m p q i lc st = Inr st'"
  shows "link_layer s m p q i lc st = Inr st'"
  using assms rfold_sub [OF prune_std]
  by (cases st) (fastforce simp: link_layer_by_def link_layer_eq res_simps dest: select_neighbors_std)

lemma hnsw_add_std:
  assumes "hnsw_add_by std_sort s i x = Inr x'"
  shows "hnsw_add s i x = Inr x'"
  using assms rfold_sub [OF link_layer_std]
  by (fastforce simp: hnsw_add_by_def hnsw_add_eq Let_def res_simps split: if_splits)

section \<open>Soundness of a search\<close>

interpretation cand_order: keyed_order cand_less "\<lambda>c. \<not> f32_is_nan (c_dist c)" "\<lambda>c. f32_key (c_dist c)"
  by unfold_locales (simp add: cand_less_def f32_lt_iff)

lemma hnsw_search_sound:
  assumes wf: "store_wf s" and x: "hnsw_wf s x" and q: "length q = unat (vs_dim s)"
    and a: "allowed_wf (sp_allowed params)" and nan: "nan_free s (hn_metric x) q"
  shows "\<exists>out. hnsw_search s x q k params = Inr out \<and> sound_hits s (hn_metric x) q k (sp_allowed params) out"
proof (cases "k = 0 \<or> hn_entry x = kInvalidId")
  case True
  then show ?thesis
    by (auto simp: hnsw_search_def sound_hits_def)
next
  case False
  let ?m = "hn_metric x" and ?nodes = "hn_nodes x" and ?ep = "hn_entry x"
  have r: "readable s q ?nodes" and g: "graph_ok ?nodes" and ep: "has_layer ?nodes ?ep (nat (hn_max_level x))"
    using wf x q False by (auto simp: readable_def hnsw_wf_def)
  let ?d = "metric_value ?m q (slot_vec s ?ep)"
  have d: "dist_to s ?m q ?ep = Inr ?d"
    using dist_to_value [OF r, of ?ep ?m] ep by (simp add: has_layer_def)
  have "cand_at s ?m q ?nodes 0 \<lparr>c_dist = ?d, c_id = ?ep\<rparr>"
    using has_layer_mono [OF ep, of 0] by (simp add: cand_at_def)
  then obtain c where c: "zoom_in s ?m ?nodes q (rev [1 ..< nat (hn_max_level x + 1)]) \<lparr>c_dist = ?d, c_id = ?ep\<rparr> = Inr c"
    "cand_at s ?m q ?nodes 0 c"
    using zoom_in_ok [OF r g, of "rev [1 ..< nat (hn_max_level x + 1)]" 0 ?m] by auto
  obtain vis w where w: "search_layer s ?m ?nodes q [c] (max (sp_ef params) k) 0 (sp_allowed params) (vis_ensure (length ?nodes) vis_empty) = Inr (vis, w)"
    "\<forall>c \<in> set w. cand_at s ?m q ?nodes 0 c \<and> eligible s (sp_allowed params) (c_id c)" "distinct (map c_id w)"
    using search_layer_ok [OF r g a vis_ensure_ok, of "[c]" ?m 0 "max (sp_ef params) k"] c(2) by auto
  let ?w = "sort_by cand_less w"
  let ?out = "map (\<lambda>c. \<lparr>sr_id = c_id c, sr_score = c_dist c\<rparr>) (take k ?w)"
  have "\<forall>c \<in> set w. \<not> f32_is_nan (c_dist c)"
    using w(2) nan r by (auto simp: cand_at_def has_layer_def nan_free_def readable_def)
  then have "sorted_wrt (\<lambda>a b. f32_key (c_dist a) \<le> f32_key (c_dist b)) (take k ?w)"
    by (intro sorted_wrt_take cand_order.sort_by_sorted)
  moreover have "distinct (map c_id (take k ?w))"
    using w(3) mset_eq_imp_distinct_iff [of "map c_id ?w" "map c_id w"] by (simp add: take_map [symmetric])
  ultimately have "sound_hits s ?m q k (sp_allowed params) ?out"
    using w(2) by (auto simp: sound_hits_def sorted_wrt_map hit_key_def hit_def comp_def cand_at_def eligible_def
        dest!: in_set_takeD)
  then show ?thesis
    using False d c(1) w(1) by (simp add: hnsw_search_def)
qed

section \<open>Properties\<close>

subsection \<open>Introspection\<close>

definition node_count :: "hnsw_index \<Rightarrow> nat" where
  "node_count x = length (hn_nodes x)"

definition neighbor_count :: "hnsw_index \<Rightarrow> internal_id \<Rightarrow> nat \<Rightarrow> nat res" where
  "neighbor_count x i layer =
     rbind (vget (hn_nodes x) (unat i)) (\<lambda>n. rbind (vget (nd_links n) layer) (\<lambda>ls. Inr (length ls)))"

definition node_level :: "hnsw_index \<Rightarrow> internal_id \<Rightarrow> nat res" where
  "node_level x i = rbind (vget (hn_nodes x) (unat i)) (\<lambda>n. Inr (nd_level n))"

text \<open>The documented contract of \<^verbatim>\<open>std::sort\<close> for the comparison of candidates.\<close>

definition sorts_cands :: "sorter \<Rightarrow> bool" where
  "sorts_cands srt \<longleftrightarrow>
     (\<forall>cs. (\<forall>c \<in> set cs. \<not> f32_is_nan (c_dist c)) \<longrightarrow>
       (\<exists>out. srt cs = Inr out \<and> mset out = mset cs \<and> sorted_wrt (\<lambda>a b. \<not> cand_less b a) out))"

lemma std_sort_sorts: "sorts_cands std_sort"
proof -
  have "\<exists>out. std_sort cs = Inr out \<and> mset out = mset cs \<and> sorted_wrt (\<lambda>a b. \<not> cand_less b a) out"
    if "\<forall>c \<in> set cs. \<not> f32_is_nan (c_dist c)" for cs
  proof -
    have "sorted_wrt (\<lambda>a b. f32_key (c_dist a) \<le> f32_key (c_dist b)) (sort_by cand_less cs)"
      using cand_order.sort_by_sorted that by blast
    then have "sorted_wrt (\<lambda>a b. \<not> cand_less b a) (sort_by cand_less cs)"
      by (rule sorted_wrt_mono_rel [rotated]) (auto simp: cand_less_def f32_lt_iff)
    then show ?thesis
      using that by (auto simp: std_sort_def list_ex_iff)
  qed
  then show ?thesis
    by (simp add: sorts_cands_def)
qed

lemma no_nan_dists: "dists_ok (\<lambda>d. \<not> f32_is_nan d) s m \<longleftrightarrow> (\<forall>j. unat j < slot_count s \<longrightarrow> nan_free s m (slot_vec s j))"
  by (simp add: dists_ok_def dists_nan_free)

text \<open>C8: Inserting a node of a store in which no distance between two vectors is NaN, with any sort that meets the
  contract of \<^verbatim>\<open>std::sort\<close>, succeeds: the loops end, no access is out of bounds and nothing is sorted by an order that
  is none. The invariant of the index is kept: every link leads to a node of its layer, levels and link lists agree,
  the entry point is on the top layer and no list exceeds its cap. The strict sort, which has undefined behaviour on
  NaN distances, gives the index that the engine's theories work with.\<close>

theorem hnsw_add_invariant:
  assumes "store_wf s" and "hnsw_wf s x" and "unat i < slot_count s"
    and "\<forall>j. unat j < slot_count s \<longrightarrow> nan_free s (hn_metric x) (slot_vec s j)" and "sorts_cands srt"
  shows "(\<exists>x'. hnsw_add_by srt s i x = Inr x' \<and> hnsw_wf s x' \<and> hn_metric x' = hn_metric x)
     \<and> hnsw_add_by std_sort s i x = hnsw_add s i x"
proof -
  have d: "dists_ok (\<lambda>d. \<not> f32_is_nan d) s (hn_metric x)"
    using assms(4) by (simp add: no_nan_dists)
  have "cand_sorter srt (\<lambda>d. \<not> f32_is_nan d)"
    using assms(5) by unfold_locales (auto simp: sorts_cands_def)
  from cand_sorter.hnsw_add_by_ok [OF this assms(1-3) d] strict.hnsw_add_by_ok [OF assms(1-3) d] show ?thesis
    using hnsw_add_std [of s i x] by auto
qed

definition demo_params :: hnsw_params where
  "demo_params = \<lparr>hp_M = 16, hp_efConstruction = 200, hp_levels = (\<lambda>_. 0)\<rparr>"

definition demo_one :: vector_store where
  "demo_one = \<lparr>vs_dim = 1, arena = [f32_zero], live = [1], ext_ids = [''a''], metas = [[]],
     ext_to_int = [''a'' \<mapsto> 0], live_count = 1\<rparr>"

definition demo_two :: vector_store where
  "demo_two = \<lparr>vs_dim = 1, arena = [f32_zero, f32_zero], live = [0, 1], ext_ids = [''a'', ''b''], metas = [[], []],
     ext_to_int = [''a'' \<mapsto> 0, ''b'' \<mapsto> 1], live_count = 1\<rparr>"

definition demo_pair :: vector_store where
  "demo_pair = demo_two\<lparr>live := [1, 1], live_count := 2\<rparr>"

definition demo_index :: hnsw_index where
  "demo_index = (make_hnsw_index L2 demo_params)\<lparr>hn_draws := 1, hn_nodes := [\<lparr>nd_level = 0, nd_links = [[]]\<rparr>],
     hn_built := [1], hn_entry := 0, hn_max_level := 0\<rparr>"

lemma demo_one_wf: "store_wf demo_one"
  by (auto simp: store_wf_def demo_one_def meta_wf_def)

lemma two_slots: "unat (i :: internal_id) < Suc (Suc 0) \<longleftrightarrow> i = 0 \<or> i = 1"
  by (auto simp: less_Suc_eq intro: word_unat_eq_iff [THEN iffD2])

lemma demo_two_wf: "store_wf demo_two"
  by (auto simp: store_wf_def demo_two_def meta_wf_def two_slots)

lemma demo_pair_wf: "store_wf demo_pair"
  by (auto simp: store_wf_def demo_pair_def demo_two_def meta_wf_def two_slots)

lemma demo_layer: "has_layer [\<lparr>nd_level = 0, nd_links = [[]]\<rparr>] i l \<longleftrightarrow> i = 0 \<and> l = 0"
  by (auto simp: has_layer_def)

lemma demo_index_wf: "1 \<le> slot_count s \<Longrightarrow> hnsw_wf s demo_index"
  by (simp add: hnsw_wf_def demo_index_def make_hnsw_index_def demo_params_def params_ok_def
      graph_ok_def capped_def demo_layer links_at_def levels_ok_def level_ok_def shape_def kInvalidId_def)

lemma l2_zero_value: "metric_value L2 [f32_zero] [f32_zero] = f32_zero"
proof -
  have "f32_finite f32_zero"
    by (simp add: f32_finite_def fp_eval)
  then show ?thesis
    by (simp add: l2_value_def f32_add_mul_zero)
qed

lemma zero_not_nan: "\<not> f32_is_nan f32_zero"
  by (simp add: fp_eval)

lemma demo_pair_slots:
  assumes "unat i < slot_count demo_pair"
  shows "slot_vec demo_pair i = [f32_zero]"
proof -
  have "i = 0 \<or> i = 1"
    using assms by (simp add: slot_count_def demo_pair_def demo_two_def two_slots)
  then show ?thesis
    by (auto simp: slot_vec_def row_def demo_pair_def demo_two_def)
qed

lemma demo_pair_nan_free: "nan_free demo_pair L2 [f32_zero]"
  using demo_pair_slots l2_zero_value zero_not_nan by (simp add: nan_free_def)

text \<open>The second node of a pair of live ones is linked to the first in both directions.\<close>

lemma demo_pair_links:
  "hnsw_add_by std_sort demo_pair 1 demo_index = Inr (demo_index\<lparr>hn_draws := 2,
     hn_nodes := [\<lparr>nd_level = 0, nd_links = [[1]]\<rparr>, \<lparr>nd_level = 0, nd_links = [[0]]\<rparr>], hn_built := [1, 1]\<rparr>)"
proof -
  have dist: "l2_distance [f32_zero] [f32_zero] 1 = Inr f32_zero"
    using l2_zero_value metric_distance_value [of 1 "[f32_zero]" "[f32_zero]" L2] by simp
  have get: "vs_get demo_pair 0 = Inr [f32_zero]" "vs_get demo_pair 1 = Inr [f32_zero]" and dim: "vs_dim demo_pair = 1"
    and live: "is_live demo_pair 0" "is_live demo_pair 1"
    by (simp_all add: vs_get_def demo_pair_def demo_two_def span_def is_live_def)
  let ?n = "\<lparr>nd_level = 0, nd_links = [[]]\<rparr>" and ?c = "\<lparr>c_dist = f32_zero, c_id = 0\<rparr>"
  have layer: "\<exists>vis. search_layer demo_pair L2 [?n, ?n] [f32_zero] [?c] 200 0 None (vis_ensure 2 vis_empty) = Inr (vis, [?c])"
    by (simp add: search_layer_def seed_step_def test_set_def vis_bump_def vis_ensure_def vis_empty_def vget_def vset_def
        admit_def live pq_push_def layer_loop.simps(2) worst_dist_def numeral_2_eq_2 allowed_test_def)
  then show ?thesis
    by (auto simp: hnsw_add_by_def demo_index_def make_hnsw_index_def demo_params_def hnsw_grow_def Let_def kInvalidId_def
        vget_def vset_def get dim dist dist_to_def zoom_in_def link_layer_by_def to_size_def select_neighbors_by_def
        std_sort_def sort_by_def numeral_2_eq_2 connect_def get_links_def put_links_def prune_by_def max_links_def)
qed

theorem hnsw_add_invariant_witness:
  "\<exists>x'. hnsw_add_by std_sort demo_pair 1 demo_index = Inr x' \<and> hnsw_wf demo_pair x' \<and> hnsw_add demo_pair 1 demo_index = Inr x'
     \<and> hn_nodes x' = [\<lparr>nd_level = 0, nd_links = [[1]]\<rparr>, \<lparr>nd_level = 0, nd_links = [[0]]\<rparr>]"
proof -
  have m: "1 \<le> slot_count demo_pair" "unat (1 :: internal_id) < slot_count demo_pair" and l2: "hn_metric demo_index = L2"
    by (simp_all add: slot_count_def demo_pair_def demo_two_def demo_index_def make_hnsw_index_def)
  have "\<forall>j. unat j < slot_count demo_pair \<longrightarrow> nan_free demo_pair (hn_metric demo_index) (slot_vec demo_pair j)"
    using demo_pair_slots demo_pair_nan_free l2 by simp
  from hnsw_add_invariant [OF demo_pair_wf demo_index_wf [OF m(1)] m(2) this std_sort_sorts]
  obtain x' where "hnsw_add_by std_sort demo_pair 1 demo_index = Inr x'" "hnsw_wf demo_pair x'" "hnsw_add demo_pair 1 demo_index = Inr x'"
    by metis
  with demo_pair_links show ?thesis
    by simp
qed

text \<open>In a well-formed index every node's neighbour list on a layer of the node is within the cap the
  source gives: twice \<open>M\<close> on the base layer, \<open>M\<close> above it.\<close>

lemma hnsw_degree_bound:
  assumes "hnsw_wf s x" and "node_level x i = Inr lv" and "hn_built x ! unat i \<noteq> 0" and "l \<le> lv"
  shows "\<exists>n. neighbor_count x i l = Inr n \<and> n \<le> (if l = 0 then nat (2 * hp_M (hn_params x)) else nat (hp_M (hn_params x)))"
proof -
  have i: "unat i < length (hn_nodes x)" "nd_level (hn_nodes x ! unat i) = lv"
    using assms(2) by (auto simp: node_level_def res_simps)
  have "list_all2 (level_ok (hn_max_level x)) (hn_built x) (shape (hn_nodes x))"
    using assms(1) by (simp add: hnsw_wf_def levels_ok_def)
  then have "level_ok (hn_max_level x) (hn_built x ! unat i) (shape (hn_nodes x) ! unat i)"
    using i(1) by (metis list_all2_nthD2 shape_simps(1))
  then have "has_layer (hn_nodes x) i l"
    using i assms(3,4) by (simp add: level_ok_def has_layer_def)
  then have "length (links_at (hn_nodes x) i l) \<le> max_links (hn_params x) l" "neighbor_count x i l = Inr (length (links_at (hn_nodes x) i l))"
    using assms(1) by (simp_all add: hnsw_wf_def capped_def neighbor_count_def has_layer_def links_at_def vec_simps)
  then show ?thesis
    using assms(1) by (auto simp: hnsw_wf_def params_ok_def max_links_def to_size_def)
qed

lemma hnsw_degree_bound_witness: "\<exists>n. neighbor_count demo_index 0 0 = Inr n \<and> n \<le> 32"
  using hnsw_degree_bound [OF demo_index_wf [of demo_one], of 0 0 0]
  by (simp add: demo_index_def make_hnsw_index_def demo_params_def node_level_def vget_def slot_count_def demo_one_def)

text \<open>A search of a well-formed index always returns, touches no memory out of bounds, and its hits are
  sound: at most \<open>k\<close>, distinct, live, admitted by the filter, with their true distances, in ascending order.\<close>

lemma hnsw_search_hits:
  assumes "store_wf s" and "hnsw_wf s x" and "length q = unat (vs_dim s)"
    and "allowed_wf (sp_allowed params)" and "nan_free s (hn_metric x) q"
  shows "\<exists>out. hnsw_search s x q k params = Inr out \<and> sound_hits s (hn_metric x) q k (sp_allowed params) out"
  using assms by (rule hnsw_search_sound)

lemma demo_one_nan_free: "nan_free demo_one L2 [f32_zero]"
proof -
  have "\<not> f32_is_nan f32_zero"
    by (simp add: fp_eval)
  then have "\<not> f32_is_nan (l2_value [f32_zero] [f32_zero])"
    using l2_zero_value by simp
  then show ?thesis
    by (auto simp: nan_free_def demo_one_def slot_count_def slot_vec_def row_def)
qed

lemma hnsw_search_hits_witness:
  "\<exists>out. hnsw_search demo_one demo_index [f32_zero] 1 default_params = Inr out
     \<and> sound_hits demo_one L2 [f32_zero] 1 None out"
proof -
  have "hn_metric demo_index = L2" "sp_allowed default_params = None" "vs_dim demo_one = 1" "1 \<le> slot_count demo_one"
    by (simp_all add: demo_index_def make_hnsw_index_def default_params_def demo_one_def slot_count_def)
  then show ?thesis
    using hnsw_search_hits [OF demo_one_wf demo_index_wf, of "[f32_zero]" default_params 1] demo_one_nan_free
    by (simp add: allowed_wf_def)
qed

end
