(* ===== verification/Index.thy ===== *)
theory Index
  imports Hnsw_Index
begin

text \<open>
  \<^verbatim>\<open>include/toyvdb/index.hpp\<close>: the polymorphic index. The locale \<open>index_seam\<close> is the contract an index owes
  to the engine: coupled to the live entries of the store, it stays coupled when it is told of an
  insertion, a deletion or an update, and its searches are sound. Both indexes honour it, and so does the
  dynamic dispatch between them.
\<close>

section \<open>The contract\<close>

text \<open>How the store may change between two calls of the index.\<close>

definition live_set :: "vector_store \<Rightarrow> internal_id set" where
  "live_set s = {i. is_live s i}"

definition store_step :: "vector_store \<Rightarrow> vector_store \<Rightarrow> internal_id set \<Rightarrow> bool" where
  "store_step s s' L \<longleftrightarrow> store_wf s' \<and> slot_count s \<le> slot_count s' \<and> live_set s' = L"

locale index_seam =
  fixes add :: "vector_store \<Rightarrow> internal_id \<Rightarrow> 'x \<Rightarrow> 'x res"
    and remove :: "internal_id \<Rightarrow> 'x \<Rightarrow> 'x"
    and search :: "vector_store \<Rightarrow> 'x \<Rightarrow> fvec \<Rightarrow> nat \<Rightarrow> search_params \<Rightarrow> search_result list res"
    and metric :: "'x \<Rightarrow> metric_kind"
    and coupled :: "vector_store \<Rightarrow> 'x \<Rightarrow> bool"
  assumes add_ok: "coupled s x \<Longrightarrow> i \<notin> live_set s \<Longrightarrow> store_step s s' (insert i (live_set s)) \<Longrightarrow>
      \<exists>x'. add s' i x = Inr x' \<and> coupled s' x' \<and> metric x' = metric x"
    and remove_ok: "coupled s x \<Longrightarrow> store_step s s' (live_set s - {i}) \<Longrightarrow>
      coupled s' (remove i x) \<and> metric (remove i x) = metric x"
    and update_ok: "coupled s x \<Longrightarrow> store_step s s' (live_set s) \<Longrightarrow> coupled s' x"
    and search_ok: "coupled s x \<Longrightarrow> store_wf s \<Longrightarrow> length q = unat (vs_dim s) \<Longrightarrow> allowed_wf (sp_allowed params) \<Longrightarrow>
      nan_free s (metric x) q \<Longrightarrow> \<exists>out. search s x q k params = Inr out \<and> sound_hits s (metric x) q k (sp_allowed params) out"
begin

text \<open>A filter that admits nothing gives no hit; an entry that is not live is never returned.\<close>

lemma search_live:
  assumes "coupled s x" and "store_wf s" and "length q = unat (vs_dim s)" and "allowed_wf (sp_allowed params)"
    and "nan_free s (metric x) q" and "search s x q k params = Inr out" and "h \<in> set out"
  shows "sr_id h \<in> live_set s \<and> admits (sp_allowed params) (sr_id h)"
  using search_ok [OF assms(1-5), of k] assms(6,7) by (auto simp: sound_hits_def live_set_def)

end

section \<open>The flat index\<close>

text \<open>The flat index lists the live entries, each once.\<close>

definition flat_coupled :: "vector_store \<Rightarrow> flat_index \<Rightarrow> bool" where
  "flat_coupled s x \<longleftrightarrow> distinct (flat_ids x) \<and> set (flat_ids x) = live_set s"

lemma flat_exact:
  assumes "flat_coupled s x" and "store_wf s" and "length q = unat (vs_dim s)" and "allowed_wf (sp_allowed params)"
    and "nan_free s (flat_metric x) q"
  shows "\<exists>out ids. flat_search s x q k params = Inr out \<and> sound_hits s (flat_metric x) q k (sp_allowed params) out
    \<and> distinct ids \<and> set ids = {i. is_live s i \<and> admits (sp_allowed params) i}
    \<and> k_smallest hit_key k (mset out) (mset (map (hit s (flat_metric x) q) ids))"
proof -
  let ?ids = "live_admitted s (sp_allowed params) (flat_ids x)"
  have "\<not> f32_is_nan (sr_score (hit s (flat_metric x) q i))" if "i \<in> set ?ids" for i
    using that assms(5) is_live_slot [OF assms(2), of i] by (simp add: live_admitted_def nan_free_def hit_def)
  from flat_search_selects [OF assms(2-4) this] obtain out
    where out: "flat_search s x q k params = Inr out" "sorted_wrt (\<lambda>g h. hit_key g \<le> hit_key h) out"
      "k_smallest hit_key k (mset out) (mset (map (hit s (flat_metric x) q) ?ids))"
    by blast
  have ids: "distinct ?ids" "set ?ids = {i. is_live s i \<and> admits (sp_allowed params) i}"
    using assms(1) by (auto simp: flat_coupled_def live_admitted_def live_set_def)
  have "sound_hits s (flat_metric x) q k (sp_allowed params) out"
    using k_smallest_distinct_sound [OF out(3,2)] assms(1) by (simp add: flat_coupled_def)
  with out(1,3) ids show ?thesis
    by blast
qed

interpretation flat: index_seam "\<lambda>s i x. Inr (flat_add i x)" flat_remove flat_search flat_metric flat_coupled
proof
  fix s x i s'
  assume "flat_coupled s x" and "i \<notin> live_set s" and "store_step s s' (insert i (live_set s))"
  then show "\<exists>x'. Inr (flat_add i x) = Inr x' \<and> flat_coupled s' x' \<and> flat_metric x' = flat_metric x"
    by (auto simp: flat_coupled_def flat_add_def store_step_def)
next
  fix s x i s'
  assume "flat_coupled s x" and "store_step s s' (live_set s - {i})"
  then show "flat_coupled s' (flat_remove i x) \<and> flat_metric (flat_remove i x) = flat_metric x"
    by (auto simp: flat_coupled_def flat_remove_def store_step_def)
next
  fix s x s'
  assume "flat_coupled s x" and "store_step s s' (live_set s)"
  then show "flat_coupled s' x"
    by (simp add: flat_coupled_def store_step_def)
next
  fix s x q k and params :: search_params
  assume "flat_coupled s x" "store_wf s" "length q = unat (vs_dim s)" "allowed_wf (sp_allowed params)" "nan_free s (flat_metric x) q"
  then show "\<exists>out. flat_search s x q k params = Inr out \<and> sound_hits s (flat_metric x) q k (sp_allowed params) out"
    using flat_exact [of s x q params k] by blast
qed

section \<open>The graph index\<close>

text \<open>Every live entry is a node of the graph.\<close>

definition hnsw_coupled :: "vector_store \<Rightarrow> hnsw_index \<Rightarrow> bool" where
  "hnsw_coupled s x \<longleftrightarrow> hnsw_wf s x \<and> (\<forall>i \<in> live_set s. unat i < length (hn_built x) \<and> hn_built x ! unat i \<noteq> 0)"

interpretation hnsw: index_seam hnsw_add hnsw_remove hnsw_search hn_metric hnsw_coupled
proof
  fix s x i s'
  assume c: "hnsw_coupled s x" and st: "store_step s s' (insert i (live_set s))"
  have wf': "store_wf s'"
    using st by (simp add: store_step_def)
  have x: "hnsw_wf s' x"
    using hnsw_wf_slots [of s x s'] c st by (simp add: hnsw_coupled_def store_step_def)
  have "is_live s' i"
    using st by (auto simp: store_step_def live_set_def)
  from hnsw_add_ok [OF wf' x is_live_slot [OF wf' this]] obtain x' where
    "hnsw_add s' i x = Inr x'" "hnsw_wf s' x'" "hn_metric x' = hn_metric x"
    "unat i < length (hn_built x')" "hn_built x' ! unat i \<noteq> 0"
    "\<forall>j < length (hn_built x). j < length (hn_built x') \<and> (hn_built x ! j \<noteq> 0 \<longrightarrow> hn_built x' ! j \<noteq> 0)"
    by blast
  with c st show "\<exists>x'. hnsw_add s' i x = Inr x' \<and> hnsw_coupled s' x' \<and> hn_metric x' = hn_metric x"
    by (auto simp: hnsw_coupled_def store_step_def)
next
  fix s x i s'
  assume "hnsw_coupled s x" and "store_step s s' (live_set s - {i})"
  then show "hnsw_coupled s' (hnsw_remove i x) \<and> hn_metric (hnsw_remove i x) = hn_metric x"
    using hnsw_wf_slots [of s x s'] by (auto simp: hnsw_coupled_def store_step_def hnsw_remove_def)
next
  fix s x s'
  assume "hnsw_coupled s x" and "store_step s s' (live_set s)"
  then show "hnsw_coupled s' x"
    using hnsw_wf_slots [of s x s'] by (auto simp: hnsw_coupled_def store_step_def)
next
  fix s x q k and params :: search_params
  assume "hnsw_coupled s x" "store_wf s" "length q = unat (vs_dim s)" "allowed_wf (sp_allowed params)" "nan_free s (hn_metric x) q"
  then show "\<exists>out. hnsw_search s x q k params = Inr out \<and> sound_hits s (hn_metric x) q k (sp_allowed params) out"
    using hnsw_search_sound [of s x q params k] by (simp add: hnsw_coupled_def)
qed

section \<open>Dynamic dispatch\<close>

datatype index = Flat flat_index | Hnsw hnsw_index

fun index_add :: "vector_store \<Rightarrow> internal_id \<Rightarrow> index \<Rightarrow> index res" where
  "index_add s i (Flat x) = Inr (Flat (flat_add i x))"
| "index_add s i (Hnsw x) = rbind (hnsw_add s i x) (\<lambda>x'. Inr (Hnsw x'))"

fun index_remove :: "internal_id \<Rightarrow> index \<Rightarrow> index" where
  "index_remove i (Flat x) = Flat (flat_remove i x)"
| "index_remove i (Hnsw x) = Hnsw (hnsw_remove i x)"

fun index_search ::
  "vector_store \<Rightarrow> index \<Rightarrow> fvec \<Rightarrow> nat \<Rightarrow> search_params \<Rightarrow> search_result list res" where
  "index_search s (Flat x) q k params = flat_search s x q k params"
| "index_search s (Hnsw x) q k params = hnsw_search s x q k params"

fun index_metric :: "index \<Rightarrow> metric_kind" where
  "index_metric (Flat x) = flat_metric x"
| "index_metric (Hnsw x) = hn_metric x"

definition index_name :: "index \<Rightarrow> string" where
  "index_name x = metric_name (index_metric x)"

fun coupled :: "vector_store \<Rightarrow> index \<Rightarrow> bool" where
  "coupled s (Flat x) = flat_coupled s x"
| "coupled s (Hnsw x) = hnsw_coupled s x"

interpretation dispatch: index_seam index_add index_remove index_search index_metric coupled
proof
  fix s x i s'
  assume "coupled s x" and "i \<notin> live_set s" and "store_step s s' (insert i (live_set s))"
  then show "\<exists>x'. index_add s' i x = Inr x' \<and> coupled s' x' \<and> index_metric x' = index_metric x"
    using flat.add_ok hnsw.add_ok by (cases x) fastforce+
next
  fix s x i s'
  assume "coupled s x" and "store_step s s' (live_set s - {i})"
  then show "coupled s' (index_remove i x) \<and> index_metric (index_remove i x) = index_metric x"
    using flat.remove_ok hnsw.remove_ok by (cases x) auto
next
  fix s x s'
  assume "coupled s x" and "store_step s s' (live_set s)"
  then show "coupled s' x"
    using flat.update_ok hnsw.update_ok by (cases x) auto
next
  fix s x q k and params :: search_params
  assume "coupled s x" "store_wf s" "length q = unat (vs_dim s)" "allowed_wf (sp_allowed params)" "nan_free s (index_metric x) q"
  then show "\<exists>out. index_search s x q k params = Inr out \<and> sound_hits s (index_metric x) q k (sp_allowed params) out"
    using flat.search_ok hnsw.search_ok by (cases x) auto
qed

end
