(* ===== verification/Bytes.thy ===== *)
theory Bytes
  imports Prelude
begin

unbundle bit_operations_syntax

text \<open>
  The little-endian byte images of machine words that \<^verbatim>\<open>std::memcpy\<close> of an integer or a float produces,
  and their inverse. A string's bytes are its characters.
\<close>

definition to_le :: "nat \<Rightarrow> 'a::len word \<Rightarrow> bytes" where
  "to_le n w = map (\<lambda>i. ucast (drop_bit (8 * i) w)) [0..<n]"

fun from_le :: "bytes \<Rightarrow> 'a::len word" where
  "from_le [] = 0"
| "from_le (b # bs) = ucast b OR push_bit 8 (from_le bs)"

definition char_byte :: "char \<Rightarrow> byte" where
  "char_byte c = of_nat (of_char c)"

definition byte_char :: "byte \<Rightarrow> char" where
  "byte_char b = char_of (unat b)"

lemma length_to_le [simp]: "length (to_le n w) = n"
  by (simp add: to_le_def)

lemma bit_from_le:
  "bit (from_le bs :: 'a::len word) i \<longleftrightarrow>
     i < LENGTH('a) \<and> i div 8 < length bs \<and> bit (bs ! (i div 8)) (i mod 8)"
proof (induction bs arbitrary: i)
  case (Cons b bs)
  show ?case
  proof (cases "i < 8")
    case True
    then show ?thesis
      by (auto simp: bit_or_iff bit_push_bit_iff bit_unsigned_iff)
  next
    case False
    then have "i div 8 = Suc ((i - 8) div 8)" and "i mod 8 = (i - 8) mod 8"
      by (simp_all add: le_div_geq le_mod_geq)
    moreover have "\<not> bit b i"
      using False bit_imp_le_length [of b i] by auto
    ultimately show ?thesis
      using False Cons [of "i - 8"] by (auto simp: bit_or_iff bit_push_bit_iff bit_unsigned_iff)
  qed
qed simp

lemma bit_to_le: "j < n \<Longrightarrow> r < 8 \<Longrightarrow> bit (to_le n w ! j) r \<longleftrightarrow> bit w (8 * j + r)"
  by (auto simp: to_le_def bit_unsigned_iff bit_drop_bit_eq)

lemma from_le_to_le:
  fixes w :: "'a::len word"
  assumes "LENGTH('a) \<le> 8 * n"
  shows "from_le (to_le n w) = w"
proof (rule bit_word_eqI)
  fix i assume "i < LENGTH('a)"
  moreover from this assms have "i div 8 < n" by auto
  ultimately show "bit (from_le (to_le n w) :: 'a word) i \<longleftrightarrow> bit w i"
    by (simp add: bit_from_le bit_to_le)
qed

lemma to_le_from_le:
  assumes "8 * length bs \<le> LENGTH('a::len)"
  shows "to_le (length bs) (from_le bs :: 'a word) = bs"
proof (rule nth_equalityI)
  fix j assume "j < length (to_le (length bs) (from_le bs :: 'a word))"
  then have j: "j < length bs" by simp
  show "to_le (length bs) (from_le bs :: 'a word) ! j = bs ! j"
  proof (rule bit_word_eqI)
    fix r assume "r < LENGTH(8)"
    then have "r < 8" by simp
    moreover from this j assms have "8 * j + r < LENGTH('a)" by linarith
    ultimately show "bit (to_le (length bs) (from_le bs :: 'a word) ! j) r \<longleftrightarrow> bit (bs ! j) r"
      using j by (simp add: bit_to_le bit_from_le)
  qed
qed simp

lemma from_le_inj:
  assumes "(from_le as :: 'a::len word) = from_le bs" and "length as = length bs"
    and "8 * length bs \<le> LENGTH('a)"
  shows "as = bs"
  using assms to_le_from_le [of as, where 'a = 'a] to_le_from_le [of bs, where 'a = 'a] by metis

lemma byte_char_byte [simp]: "byte_char (char_byte c) = c"
  by (simp add: byte_char_def char_byte_def unat_of_nat take_bit_eq_mod)

lemma char_byte_char [simp]: "char_byte (byte_char b) = b"
  using unsigned_less [of b, where 'a = nat] by (simp add: byte_char_def char_byte_def)

lemma char_byte_inj [simp]: "char_byte c = char_byte d \<longleftrightarrow> c = d"
  by (metis byte_char_byte)

end
