(* ===== verification/Crc32.thy ===== *)
theory Crc32
  imports Bytes
begin

unbundle bit_operations_syntax

text \<open>
  \<^verbatim>\<open>include/toyvdb/crc32.hpp\<close>: the table-driven checksum of log records. The lemmas relate the table
  to the bitwise division step it caches, show that the step is linear and injective on the 32-bit
  register, and conclude that an error confined to four consecutive bytes of a record changes its
  checksum. The constant in the source is not the polynomial of the standard it names.
\<close>

section \<open>Table and checksum\<close>

definition crc_poly :: u32 where
  "crc_poly = 0xEDB88820"

text \<open>One round of the inner loop of the table's construction, for a given polynomial.\<close>

definition crc_bit :: "u32 \<Rightarrow> u32 \<Rightarrow> u32" where
  "crc_bit p c = (if c AND 1 \<noteq> 0 then p XOR drop_bit 1 c else drop_bit 1 c)"

definition make_crc32_table :: "u32 list" where
  "make_crc32_table = map (\<lambda>i. (crc_bit crc_poly ^^ 8) (of_nat i)) [0..<256]"

definition crc_update :: "byte \<Rightarrow> u32 \<Rightarrow> u32" where
  "crc_update b c =
     (let idx = unat (ucast c XOR b :: byte)
      in (make_crc32_table ! idx) XOR drop_bit 8 c)"

definition crc32 :: "bytes \<Rightarrow> u32" where
  "crc32 bs = fold crc_update bs 0xFFFFFFFF XOR 0xFFFFFFFF"

text \<open>The textbook reflected CRC-32 with polynomial \<open>p\<close>: shift the message in bit by bit, no table.\<close>

definition crc_byte :: "u32 \<Rightarrow> byte \<Rightarrow> u32 \<Rightarrow> u32" where
  "crc_byte p b c = (crc_bit p ^^ 8) (c XOR ucast b)"

definition crc_ref :: "u32 \<Rightarrow> bytes \<Rightarrow> u32" where
  "crc_ref p bs = fold (crc_byte p) bs 0xFFFFFFFF XOR 0xFFFFFFFF"

section \<open>The division step\<close>

lemma xor_cancel [simp]:
  "a XOR c = b XOR c \<longleftrightarrow> a = (b :: u32)" "c XOR a = c XOR b \<longleftrightarrow> a = b"
  by (auto simp: bit_eq_iff bit_xor_iff)

lemma and_one_bit: "(c AND 1 \<noteq> 0) \<longleftrightarrow> bit (c :: u32) 0"
  by (simp add: and_one_eq bit_0 odd_iff_mod_2_eq_one)

lemma crc_bit_zero [simp]: "crc_bit p 0 = 0"
  by (simp add: crc_bit_def)

lemma crc_bit_xor: "crc_bit p (c XOR d) = crc_bit p c XOR crc_bit p d"
proof -
  have "drop_bit 1 (c XOR d) = drop_bit 1 c XOR drop_bit 1 d"
    by (rule drop_bit_xor)
  moreover have "p XOR x XOR (p XOR y) = x XOR y" for x y :: u32
    by (simp add: xor.left_commute xor.commute)
  ultimately show ?thesis
    by (simp add: crc_bit_def and_one_bit bit_xor_iff xor.assoc xor.left_commute del: drop_bit_xor)
qed

lemma crc_bits_xor: "(crc_bit p ^^ n) (c XOR d) = (crc_bit p ^^ n) c XOR (crc_bit p ^^ n) d"
  by (induction n) (simp_all add: crc_bit_xor)

lemma crc_bit_kernel:
  assumes "bit p 31" and "crc_bit p c = 0"
  shows "c = 0"
proof -
  have "\<not> bit c 0"
  proof
    assume "bit c 0"
    moreover have "\<not> bit (drop_bit 1 c) 31"
      using bit_imp_le_length [of c 32] by (auto simp: bit_drop_bit_eq)
    ultimately have "bit (crc_bit p c) 31"
      using assms(1) by (simp add: crc_bit_def and_one_bit bit_xor_iff)
    with assms(2) show False by simp
  qed
  with assms(2) have "drop_bit 1 c = 0"
    by (simp add: crc_bit_def and_one_bit)
  then have "\<not> bit (drop_bit 1 c) n" for n
    by simp
  then have "\<not> bit c (Suc n)" for n
    by (simp add: bit_drop_bit_eq)
  with \<open>\<not> bit c 0\<close> have "\<not> bit c n" for n
    by (cases n) simp_all
  then show ?thesis
    by (intro bit_word_eqI) simp
qed

lemma crc_bits_inj:
  assumes "bit p 31" and "(crc_bit p ^^ n) c = (crc_bit p ^^ n) d"
  shows "c = d"
proof -
  have "(crc_bit p ^^ n) x = 0 \<Longrightarrow> x = 0" for x
    by (induction n) (auto dest: crc_bit_kernel [OF assms(1)])
  moreover have "(crc_bit p ^^ n) (c XOR d) = 0"
    using assms(2) by (simp add: crc_bits_xor)
  ultimately show ?thesis
    by (metis xor.right_neutral xor_self_eq xor.assoc)
qed

lemma crc_bits_shift:
  assumes "\<And>i. i < n \<Longrightarrow> \<not> bit c i"
  shows "(crc_bit p ^^ n) c = drop_bit n c"
  using assms
proof (induction n)
  case (Suc n)
  moreover from Suc have "\<not> bit (drop_bit n c) 0"
    by (simp add: bit_drop_bit_eq)
  ultimately show ?case
    by (simp add: crc_bit_def and_one_bit)
qed simp

lemma poly_top: "bit crc_poly 31"
  by (simp add: crc_poly_def)

section \<open>The table caches the step\<close>

lemma crc_table_nth: "make_crc32_table ! unat (b :: byte) = (crc_bit crc_poly ^^ 8) (ucast b)"
proof -
  have "unat b < 256"
    using unsigned_less [of b] by simp
  then show ?thesis
    by (simp add: make_crc32_table_def)
qed

lemma crc_update_bits: "crc_update b c = (crc_bit crc_poly ^^ 8) (c XOR ucast b)"
proof -
  let ?low = "ucast (ucast c XOR b :: byte) :: u32" and ?high = "push_bit 8 (drop_bit 8 c)"
  have "c XOR ucast b = ?low XOR ?high"
    by (rule bit_word_eqI)
      (auto simp: bit_xor_iff bit_unsigned_iff bit_push_bit_iff bit_drop_bit_eq dest: bit_imp_le_length)
  moreover have "(crc_bit crc_poly ^^ 8) ?high = drop_bit 8 ?high"
    by (rule crc_bits_shift) (simp add: bit_push_bit_iff)
  moreover have "drop_bit 8 ?high = drop_bit 8 c"
    by (rule bit_word_eqI) (auto simp: bit_push_bit_iff bit_drop_bit_eq dest: bit_imp_le_length)
  ultimately show ?thesis
    by (simp add: crc_update_def crc_table_nth crc_bits_xor)
qed

lemma crc32_eq_ref: "crc32 bs = crc_ref crc_poly bs"
  by (simp add: crc32_def crc_ref_def crc_update_bits [abs_def] crc_byte_def [abs_def])

text \<open>C34: The table-driven checksum computes the bitwise cyclic redundancy check of its polynomial.\<close>

theorem crc32_is_crc: "crc32 bs = crc_ref crc_poly bs"
  by (rule crc32_eq_ref)

section \<open>Error detection\<close>

lemma crc_fold_inj: "fold crc_update bs c = fold crc_update bs d \<Longrightarrow> c = d"
proof (induction bs arbitrary: c d)
  case (Cons b bs)
  then have "(crc_bit crc_poly ^^ 8) (c XOR ucast b) = (crc_bit crc_poly ^^ 8) (d XOR ucast b)"
    by (simp add: crc_update_bits)
  then show ?case
    using crc_bits_inj [OF poly_top] by fastforce
qed simp

lemma crc_fold_window:
  assumes "length w \<le> 4"
  shows "fold crc_update w c = (crc_bit crc_poly ^^ (8 * length w)) (c XOR from_le w)"
  using assms
proof (induction w arbitrary: c)
  case (Cons b w)
  let ?t = "from_le w :: u32"
  have "drop_bit 8 (push_bit 8 ?t) = ?t"
    using Cons.prems
    by (intro bit_word_eqI)
      (auto simp: bit_drop_bit_eq bit_push_bit_iff bit_from_le div_less_iff_less_mult)
  moreover have "(crc_bit crc_poly ^^ 8) (push_bit 8 ?t) = drop_bit 8 (push_bit 8 ?t)"
    by (rule crc_bits_shift) (simp add: bit_push_bit_iff)
  ultimately have t: "?t = (crc_bit crc_poly ^^ 8) (push_bit 8 ?t)"
    by simp
  have or: "ucast b OR push_bit 8 ?t = ucast b XOR push_bit 8 ?t"
    by (rule bit_word_eqI)
      (auto simp: bit_or_iff bit_xor_iff bit_push_bit_iff bit_unsigned_iff dest: bit_imp_le_length)
  have "fold crc_update (b # w) c =
      (crc_bit crc_poly ^^ (8 * length w)) ((crc_bit crc_poly ^^ 8) (c XOR ucast b) XOR ?t)"
    using Cons.IH [of "crc_update b c"] Cons.prems by (simp add: crc_update_bits [of b])
  also have "\<dots> = (crc_bit crc_poly ^^ (8 * length w)) ((crc_bit crc_poly ^^ 8) (c XOR ucast b XOR push_bit 8 ?t))"
    by (subst t) (simp only: crc_bits_xor xor.assoc)
  also have "\<dots> = (crc_bit crc_poly ^^ (8 * length w + 8)) (c XOR from_le (b # w))"
    by (simp add: funpow_add or xor.assoc del: funpow.simps)
  finally show ?case
    by (simp add: add.commute)
qed simp

lemma crc32_window_inj:
  assumes "crc32 (pre @ w @ post) = crc32 (pre @ w' @ post)"
    and "length w = length w'" and "length w \<le> 4"
  shows "w = w'"
proof -
  let ?c = "fold crc_update pre 0xFFFFFFFF"
  have "fold crc_update post (fold crc_update w ?c) = fold crc_update post (fold crc_update w' ?c)"
    using assms(1) by (simp add: crc32_def)
  then have "fold crc_update w ?c = fold crc_update w' ?c"
    by (rule crc_fold_inj)
  then have "(from_le w :: u32) = from_le w'"
    using assms(2,3) crc_bits_inj [OF poly_top, of "8 * length w"] by (fastforce simp: crc_fold_window)
  then show ?thesis
    using from_le_inj [of w w', where 'a = 32] assms(2,3) by simp
qed

text \<open>C35: Any corruption confined to four consecutive bytes of a record body changes its checksum.\<close>

theorem crc32_detects_burst:
  assumes "crc32 (pre @ w @ post) = crc32 (pre @ w' @ post)"
    and "length w = length w'" and "length w \<le> 4"
  shows "w = w'"
  using assms by (rule crc32_window_inj)

theorem crc32_detects_burst_witness:
  "crc32 [1, 2, 3] \<noteq> crc32 [1, 7, 3] \<and> crc32 [1, 2, 3, 4, 5, 6] \<noteq> crc32 [1, 9, 9, 9, 9, 6]"
  using crc32_detects_burst [of "[1]" "[2]" "[3]" "[7]"] crc32_detects_burst [of "[1]" "[2, 3, 4, 5]" "[6]" "[9, 9, 9, 9]"] by auto

section \<open>The polynomial\<close>

text \<open>
  On the nine ASCII digits, the check input of every CRC catalogue, the IEEE 802.3 polynomial gives
  the published check value, and the program's checksum does not: its constant differs from the IEEE
  polynomial in one hexadecimal digit, so its records do not carry the standard CRC-32 it announces.
\<close>

lemma crc32_not_ieee:
  "crc_ref 0xEDB88320 (map char_byte ''123456789'') = 0xCBF43926
   \<and> crc32 (map char_byte ''123456789'') \<noteq> 0xCBF43926"
proof
  let ?digits = "[0x31, 0x32, 0x33, 0x34, 0x35, 0x36, 0x37, 0x38, 0x39] :: bytes"
  have digits: "map char_byte ''123456789'' = ?digits"
    by (simp add: char_byte_def)
  have eight: "(f ^^ 8) x = f (f (f (f (f (f (f (f x)))))))" for f :: "u32 \<Rightarrow> u32" and x
    by (simp add: eval_nat_numeral)
  show "crc_ref 0xEDB88320 (map char_byte ''123456789'') = 0xCBF43926"
    unfolding digits by (simp add: crc_ref_def crc_byte_def eight crc_bit_def)
  show "crc32 (map char_byte ''123456789'') \<noteq> 0xCBF43926"
    unfolding digits crc32_eq_ref by (simp add: crc_ref_def crc_byte_def eight crc_bit_def crc_poly_def)
qed

end
