(* ===== verification/Op_Codec.thy ===== *)
theory Op_Codec
  imports Vector_Store Bytes
begin

text \<open>
  \<^verbatim>\<open>src/op_codec.cpp\<close>: the byte records of logical operations. The \<^verbatim>\<open>Writer\<close> is the bytes it appends; the
  \<^verbatim>\<open>Reader\<close> is the unread rest of its span. The interface locale \<open>codec\<close> states the law every encoder and
  decoder pair obeys, on whole and on truncated input at once; the operation codec is assembled from
  the primitive ones through it.
\<close>

section \<open>Writer\<close>

definition w_u8 :: "u8 \<Rightarrow> bytes" where "w_u8 v = to_le 1 v"
definition w_u32 :: "u32 \<Rightarrow> bytes" where "w_u32 v = to_le 4 v"
definition w_i64 :: "u64 \<Rightarrow> bytes" where "w_i64 v = to_le 8 v"
definition w_f64 :: "f64 \<Rightarrow> bytes" where "w_f64 v = to_le 8 v"

definition w_str :: "string \<Rightarrow> bytes" where
  "w_str s = w_u32 (of_nat (length s)) @ map char_byte s"

definition w_floats :: "fvec \<Rightarrow> bytes" where
  "w_floats v = concat (map (to_le 4) v)"

fun w_value :: "meta_value \<Rightarrow> bytes" where
  "w_value (MInt i) = w_u8 0 @ w_i64 i"
| "w_value (MDouble d) = w_u8 1 @ w_f64 d"
| "w_value (MString s) = w_u8 2 @ w_str s"
| "w_value (MBool b) = w_u8 3 @ w_u8 (if b then 1 else 0)"

definition w_entry :: "string \<times> meta_value \<Rightarrow> bytes" where
  "w_entry e = w_str (fst e) @ w_value (snd e)"

definition encode_metadata :: "metadata \<Rightarrow> bytes" where
  "encode_metadata m = w_u32 (of_nat (length m)) @ concat (map w_entry m)"

fun op_code :: "op_type \<Rightarrow> u8" where
  "op_code Insert = 1"
| "op_code Update = 2"
| "op_code Delete = 3"

definition encode_op :: "op \<Rightarrow> bytes" where
  "encode_op p =
     w_u8 (op_code (op_type p)) @ w_str (op_ext_id p) @
     (if op_type p \<noteq> Delete
      then w_u32 (of_nat (length (op_vec p))) @ w_floats (op_vec p) @
           (case op_meta p of
              Some m \<Rightarrow> w_u8 1 @ encode_metadata m
            | None \<Rightarrow> w_u8 0)
      else [])"

section \<open>Reader\<close>

definition r_raw :: "nat \<Rightarrow> bytes \<Rightarrow> (bytes \<times> bytes) res" where
  "r_raw n bs = (if length bs < n then Inl Runtime_error else Inr (take n bs, drop n bs))"

definition r_u8 :: "bytes \<Rightarrow> (u8 \<times> bytes) res" where
  "r_u8 bs = rbind (r_raw 1 bs) (\<lambda>(b, bs). Inr (from_le b, bs))"

definition r_u32 :: "bytes \<Rightarrow> (u32 \<times> bytes) res" where
  "r_u32 bs = rbind (r_raw 4 bs) (\<lambda>(b, bs). Inr (from_le b, bs))"

definition r_i64 :: "bytes \<Rightarrow> (u64 \<times> bytes) res" where
  "r_i64 bs = rbind (r_raw 8 bs) (\<lambda>(b, bs). Inr (from_le b, bs))"

definition r_f64 :: "bytes \<Rightarrow> (f64 \<times> bytes) res" where
  "r_f64 bs = rbind (r_raw 8 bs) (\<lambda>(b, bs). Inr (from_le b, bs))"

definition r_str :: "bytes \<Rightarrow> (string \<times> bytes) res" where
  "r_str bs =
     rbind (r_u32 bs) (\<lambda>(n, bs).
       if 0 < n then rbind (r_raw (unat n) bs) (\<lambda>(b, bs). Inr (map byte_char b, bs))
       else Inr ([], bs))"

definition r_floats :: "nat \<Rightarrow> bytes \<Rightarrow> (fvec \<times> bytes) res" where
  "r_floats n bs =
     rbind (r_raw (n * 4) bs) (\<lambda>(b, bs). Inr (map (\<lambda>i. from_le (row 4 b i)) [0..<n], bs))"

definition r_value :: "bytes \<Rightarrow> (meta_value \<times> bytes) res" where
  "r_value bs =
     rbind (r_u8 bs) (\<lambda>(t, bs).
       if t = 0 then rbind (r_i64 bs) (\<lambda>(v, bs). Inr (MInt v, bs))
       else if t = 1 then rbind (r_f64 bs) (\<lambda>(v, bs). Inr (MDouble v, bs))
       else if t = 2 then rbind (r_str bs) (\<lambda>(v, bs). Inr (MString v, bs))
       else if t = 3 then rbind (r_u8 bs) (\<lambda>(v, bs). Inr (MBool (v \<noteq> 0), bs))
       else Inl Runtime_error)"

fun decode_entries :: "nat \<Rightarrow> bytes \<Rightarrow> metadata \<Rightarrow> (metadata \<times> bytes) res" where
  "decode_entries 0 bs meta = Inr (meta, bs)"
| "decode_entries (Suc n) bs meta =
     rbind (r_str bs) (\<lambda>(key, bs).
     rbind (r_value bs) (\<lambda>(v, bs). decode_entries n bs (meta_assign key v meta)))"

definition decode_metadata :: "bytes \<Rightarrow> (metadata \<times> bytes) res" where
  "decode_metadata bs = rbind (r_u32 bs) (\<lambda>(count, bs). decode_entries (unat count) bs [])"

definition op_of_code :: "u8 \<Rightarrow> op_type res" where
  "op_of_code b =
     (if b < 1 \<or> b > 3 then Inl Runtime_error
      else Inr (if b = 1 then Insert else if b = 2 then Update else Delete))"

definition decode_op :: "bytes \<Rightarrow> op res" where
  "decode_op bs =
     rbind (r_u8 bs) (\<lambda>(type_byte, bs).
     rbind (op_of_code type_byte) (\<lambda>t.
     rbind (r_str bs) (\<lambda>(ext_id, bs).
       if t \<noteq> Delete
       then rbind (r_u32 bs) (\<lambda>(d, bs).
            rbind (if 0 < d then r_floats (unat d) bs else Inr ([], bs)) (\<lambda>(vec, bs).
            rbind (r_u8 bs) (\<lambda>(flag, bs).
              if flag \<noteq> 0
              then rbind (decode_metadata bs) (\<lambda>(m, _).
                     Inr \<lparr>op_type = t, op_ext_id = ext_id, op_vec = vec, op_meta = Some m\<rparr>)
              else Inr \<lparr>op_type = t, op_ext_id = ext_id, op_vec = vec, op_meta = None\<rparr>)))
       else Inr \<lparr>op_type = t, op_ext_id = ext_id, op_vec = [], op_meta = None\<rparr>)))"

section \<open>The codec interface\<close>

text \<open>
  Given the first \<open>n\<close> bytes of an encoded value followed by anything, the decoder reports truncation
  when \<open>n\<close> cuts the value and otherwise returns it with the rest.
\<close>

locale codec =
  fixes enc :: "'a \<Rightarrow> bytes"
    and dec :: "bytes \<Rightarrow> ('a \<times> bytes) res"
    and ok :: "'a \<Rightarrow> bool"
  assumes dec_take: "ok x \<Longrightarrow> dec (take n (enc x @ r)) =
    (if n < length (enc x) then Inl Runtime_error else Inr (x, take (n - length (enc x)) r))"
begin

lemma dec_bind: "ok x \<Longrightarrow> rbind (dec (take n (enc x @ r))) f =
    (if n < length (enc x) then Inl Runtime_error else f (x, take (n - length (enc x)) r))"
  by (simp add: dec_take del: take_append)

end

lemma r_raw_take: "m = length w \<Longrightarrow> r_raw m (take n (w @ r)) =
    (if n < length w then Inl Runtime_error else Inr (w, take (n - length w) r))"
  by (auto simp: r_raw_def)

lemma scalar_codec:
  assumes "k = n" and "LENGTH('a::len) \<le> 8 * n"
  shows "rbind (r_raw k (take m (to_le n (x :: 'a word) @ r))) (\<lambda>(b, bs). Inr (from_le b :: 'a word, bs)) =
    (if m < length (to_le n x) then Inl Runtime_error else Inr (x, take (m - length (to_le n x)) r))"
  using assms r_raw_take [of n "to_le n x" m r] by (simp add: from_le_to_le del: take_append)

interpretation u8_codec: codec w_u8 r_u8 "\<lambda>_. True"
  by unfold_locales (simp only: w_u8_def r_u8_def, rule scalar_codec, simp_all)

interpretation u32_codec: codec w_u32 r_u32 "\<lambda>_. True"
  by unfold_locales (simp only: w_u32_def r_u32_def, rule scalar_codec, simp_all)

interpretation i64_codec: codec w_i64 r_i64 "\<lambda>_. True"
  by unfold_locales (simp only: w_i64_def r_i64_def, rule scalar_codec, simp_all)

interpretation f64_codec: codec w_f64 r_f64 "\<lambda>_. True"
  by unfold_locales (simp only: w_f64_def r_f64_def, rule scalar_codec, simp_all)

lemmas scalar_binds = u8_codec.dec_bind u32_codec.dec_bind i64_codec.dec_bind f64_codec.dec_bind

lemma scalar_lengths [simp]:
  "length (w_u8 a) = 1" "length (w_u32 b) = 4" "length (w_i64 c) = 8" "length (w_f64 d) = 8"
  by (simp_all add: w_u8_def w_u32_def w_i64_def w_f64_def)

lemma scalar_empty [simp]:
  "r_u8 [] = Inl Runtime_error" "r_u32 [] = Inl Runtime_error"
  "r_i64 [] = Inl Runtime_error" "r_f64 [] = Inl Runtime_error"
  by (simp_all add: r_u8_def r_u32_def r_i64_def r_f64_def r_raw_def)

text \<open>Lengths the 32-bit length prefixes can carry.\<close>

definition str_ok :: "string \<Rightarrow> bool" where
  "str_ok s \<longleftrightarrow> length s < 2 ^ 32"

interpretation str_codec: codec w_str r_str str_ok
proof
  fix x n r
  assume "str_ok x"
  then have len: "unat (of_nat (length x) :: u32) = length x"
    by (simp add: str_ok_def)
  then have pos: "0 < (of_nat (length x) :: u32) \<longleftrightarrow> x \<noteq> []"
    by (metis length_greater_0_conv unat_0 unat_gt_0 word_gt_0 word_neq_0_conv)
  show "r_str (take n (w_str x @ r)) =
      (if n < length (w_str x) then Inl Runtime_error else Inr (x, take (n - length (w_str x)) r))"
    using r_raw_take [of "length x" "map char_byte x" "n - 4" r]
    by (auto simp: r_str_def w_str_def u32_codec.dec_bind len pos comp_def simp del: take_append)
qed

lemma length_w_str [simp]: "length (w_str s) = 4 + length s"
  by (simp add: w_str_def)

lemma row_floats: "i < length v \<Longrightarrow> row 4 (w_floats v) i = to_le 4 (v ! i)"
proof (induction v arbitrary: i)
  case (Cons x v)
  then show ?case
    by (cases i) (simp_all add: w_floats_def row_def)
qed simp

lemma length_w_floats [simp]: "length (w_floats v) = length v * 4"
  by (induction v) (simp_all add: w_floats_def)

interpretation floats_codec: codec w_floats "r_floats k" "\<lambda>v. length v = k" for k
proof
  fix x :: fvec and n r
  assume k: "length x = k"
  have "map (\<lambda>i. from_le (row 4 (w_floats x) i)) [0..<k] = x"
    by (rule nth_equalityI) (simp_all add: k row_floats from_le_to_le)
  then show "r_floats k (take n (w_floats x @ r)) =
      (if n < length (w_floats x) then Inl Runtime_error else Inr (x, take (n - length (w_floats x)) r))"
    using r_raw_take [of "k * 4" "w_floats x" n r] k by (simp add: r_floats_def del: take_append)
qed

fun value_ok :: "meta_value \<Rightarrow> bool" where
  "value_ok (MString s) = str_ok s"
| "value_ok _ = True"

interpretation value_codec: codec w_value r_value value_ok
proof
  fix x n r
  assume "value_ok x"
  then show "r_value (take n (w_value x @ r)) =
      (if n < length (w_value x) then Inl Runtime_error else Inr (x, take (n - length (w_value x)) r))"
    by (cases x) (auto simp: r_value_def scalar_binds str_codec.dec_bind simp del: take_append)
qed

definition meta_ok :: "metadata \<Rightarrow> bool" where
  "meta_ok m \<longleftrightarrow> meta_wf m \<and> length m < 2 ^ 32 \<and> (\<forall>(k, v) \<in> set m. str_ok k \<and> value_ok v)"

lemma meta_assign_new: "k \<notin> fst ` set m \<Longrightarrow> meta_assign k v m = m @ [(k, v)]"
  unfolding meta_assign_def by (induction m) auto

lemma decode_entries_take:
  assumes "distinct (map fst (acc @ m))" and "\<forall>(k, v) \<in> set m. str_ok k \<and> value_ok v"
  shows "decode_entries (length m) (take n (concat (map w_entry m) @ r)) acc =
    (if n < length (concat (map w_entry m)) then Inl Runtime_error
     else Inr (acc @ m, take (n - length (concat (map w_entry m))) r))"
  using assms
proof (induction m arbitrary: acc n)
  case (Cons e m)
  obtain k v where e: "e = (k, v)" by (cases e)
  with Cons.prems have "str_ok k" "value_ok v" "meta_assign k v acc = acc @ [(k, v)]"
    "w_entry (k, v) = w_str k @ w_value v"
    by (auto simp: meta_assign_new w_entry_def)
  with Cons e show ?case
    by (auto simp: add.assoc str_codec.dec_bind value_codec.dec_bind diff_diff_add simp del: take_append)
qed simp

interpretation meta_codec: codec encode_metadata decode_metadata meta_ok
proof
  fix x n r
  assume "meta_ok x"
  then have "distinct (map fst x)" "unat (of_nat (length x) :: u32) = length x"
    "\<forall>(k, v) \<in> set x. str_ok k \<and> value_ok v"
    by (auto simp: meta_ok_def meta_wf_def)
  then show "decode_metadata (take n (encode_metadata x @ r)) =
      (if n < length (encode_metadata x) then Inl Runtime_error
       else Inr (x, take (n - length (encode_metadata x)) r))"
    using decode_entries_take [of "[]" x "n - 4" r]
    by (auto simp: decode_metadata_def encode_metadata_def u32_codec.dec_bind diff_diff_add simp del: take_append)
qed

section \<open>Records of operations\<close>

text \<open>A deletion carries its id only; the vector and the metadata of a deletion are not recorded.\<close>

definition canonical :: "op \<Rightarrow> op" where
  "canonical p = (if op_type p = Delete then p\<lparr>op_vec := [], op_meta := None\<rparr> else p)"

definition op_encodable :: "op \<Rightarrow> bool" where
  "op_encodable p \<longleftrightarrow> str_ok (op_ext_id p) \<and> length (op_vec p) < 2 ^ 32
     \<and> (case op_meta p of None \<Rightarrow> True | Some m \<Rightarrow> meta_ok m)"

lemma op_of_code_code [simp]: "op_of_code (op_code t) = Inr t"
  by (cases t) (simp_all add: op_of_code_def)

lemma op_of_code_3 [simp]: "op_of_code 3 = Inr Delete"
  by (simp add: op_of_code_def)

lemma r_floats_guard: "(if 0 < d then r_floats (unat d) bs else Inr ([], bs)) = r_floats (unat d) bs"
  by (auto simp: r_floats_def r_raw_def word_neq_0_conv [symmetric])

lemma decode_op_take:
  assumes "op_encodable p"
  shows "decode_op (take n (encode_op p @ r)) =
    (if n < length (encode_op p) then Inl Runtime_error else Inr (canonical p))"
proof (cases "op_type p = Delete")
  case True
  with assms show ?thesis
    by (auto simp: decode_op_def encode_op_def op_encodable_def canonical_def scalar_binds str_codec.dec_bind
        simp del: take_append)
next
  case False
  have len: "unat (of_nat (length (op_vec p)) :: u32) = length (op_vec p)"
    using assms by (simp add: op_encodable_def)
  show ?thesis
  proof (cases "op_meta p")
    case None
    with assms False show ?thesis
      by (auto simp: decode_op_def encode_op_def op_encodable_def canonical_def scalar_binds str_codec.dec_bind
          len r_floats_guard floats_codec.dec_bind simp del: take_append)
  next
    case (Some m)
    with assms False show ?thesis
      by (auto simp: decode_op_def encode_op_def op_encodable_def canonical_def scalar_binds str_codec.dec_bind
          len r_floats_guard floats_codec.dec_bind meta_codec.dec_bind simp del: take_append)
  qed
qed

text \<open>C10: Decoding the record of an operation whose lengths fit their 32-bit fields gives the operation
  back (without the fields a deletion does not carry), whatever bytes follow the record.\<close>

theorem decode_encode_op:
  assumes "op_encodable p"
  shows "decode_op (encode_op p @ rest) = Inr (canonical p)"
  using decode_op_take [OF assms, of "length (encode_op p @ rest)" rest] by (simp del: take_append)

theorem decode_encode_op_witness:
  "decode_op (encode_op \<lparr>op_type = Update, op_ext_id = ''a'', op_vec = [f32_one], op_meta = Some [(''n'', MBool True)]\<rparr> @ [7])
   = Inr \<lparr>op_type = Update, op_ext_id = ''a'', op_vec = [f32_one], op_meta = Some [(''n'', MBool True)]\<rparr>"
  using decode_encode_op [of "\<lparr>op_type = Update, op_ext_id = ''a'', op_vec = [f32_one], op_meta = Some [(''n'', MBool True)]\<rparr>" "[7]"]
  by (simp add: op_encodable_def canonical_def str_ok_def meta_ok_def meta_wf_def)

text \<open>Every proper prefix of a record is rejected with \<open>runtime_error\<close>; no partial operation is ever
  produced from a record that was cut short.\<close>

lemma decode_op_truncated:
  assumes "op_encodable p" and "n < length (encode_op p)"
  shows "decode_op (take n (encode_op p)) = Inl Runtime_error"
  using decode_op_take [OF assms(1), of n "[]"] assms(2) by simp

lemma decode_op_truncated_witness:
  "decode_op (take 3 (encode_op \<lparr>op_type = Delete, op_ext_id = ''a'', op_vec = [], op_meta = None\<rparr>)) = Inl Runtime_error"
  using decode_op_truncated [of "\<lparr>op_type = Delete, op_ext_id = ''a'', op_vec = [], op_meta = None\<rparr>" 3]
  by (simp add: op_encodable_def str_ok_def encode_op_def)

section \<open>Arbitrary bytes\<close>

lemma r_raw_error: "r_raw n bs = Inl e \<Longrightarrow> e = Runtime_error"
  by (auto simp: r_raw_def split: if_splits)

lemma reader_errors:
  "r_u8 bs = Inl e \<Longrightarrow> e = Runtime_error" "r_u32 bs = Inl e \<Longrightarrow> e = Runtime_error"
  "r_i64 bs = Inl e \<Longrightarrow> e = Runtime_error" "r_f64 bs = Inl e \<Longrightarrow> e = Runtime_error"
  "r_str bs = Inl e \<Longrightarrow> e = Runtime_error" "r_floats n bs = Inl e \<Longrightarrow> e = Runtime_error"
  by (auto simp: r_u8_def r_u32_def r_i64_def r_f64_def r_str_def r_floats_def res_simps
      dest: r_raw_error split: if_splits)

lemma r_value_error: "r_value bs = Inl e \<Longrightarrow> e = Runtime_error"
  by (auto simp: r_value_def res_simps dest: reader_errors split: if_splits)

lemma decode_entries_error: "decode_entries n bs m = Inl e \<Longrightarrow> e = Runtime_error"
  by (induction n arbitrary: bs m) (auto simp: res_simps dest: reader_errors r_value_error)

lemma decode_entries_wf: "decode_entries n bs m = Inr (m', bs') \<Longrightarrow> meta_wf m \<Longrightarrow> meta_wf m'"
  by (induction n arbitrary: bs m)
    (auto simp: res_simps meta_wf_def meta_assign_def distinct_update)

lemma decode_op_error: "decode_op bs = Inl e \<Longrightarrow> e = Runtime_error"
  by (auto simp: decode_op_def decode_metadata_def op_of_code_def res_simps
      dest: reader_errors decode_entries_error split: if_splits)

lemma decode_op_meta_wf: "decode_op bs = Inr p \<Longrightarrow> op_meta p = Some m \<Longrightarrow> meta_wf m"
  by (auto simp: decode_op_def decode_metadata_def op_of_code_def res_simps
      dest: decode_entries_wf [where m = "[]"] simp: meta_wf_def split: if_splits)

lemma decode_op_canonical: "decode_op bs = Inr p \<Longrightarrow> canonical p = p"
  by (auto simp: decode_op_def canonical_def res_simps split: if_splits)

text \<open>On arbitrary bytes the decoder either throws \<open>runtime_error\<close> or returns a canonical operation
  whose metadata has distinct keys; no input makes it read out of bounds or fail in another way.\<close>

lemma decode_op_total:
  "decode_op bs = Inl Runtime_error
   \<or> (\<exists>p. decode_op bs = Inr p \<and> canonical p = p \<and> (case op_meta p of None \<Rightarrow> True | Some m \<Rightarrow> meta_wf m))"
proof (cases "decode_op bs")
  case (Inr p)
  then show ?thesis
    using decode_op_meta_wf [OF Inr] decode_op_canonical [OF Inr] by (auto split: option.split)
qed (auto dest: decode_op_error)

text \<open>A first byte that is no operation code is rejected before anything else is read.\<close>

lemma decode_op_bad_type: "b \<notin> {1, 2, 3} \<Longrightarrow> decode_op (b # bs) = Inl Runtime_error"
proof -
  assume "b \<notin> {1, 2, 3}"
  moreover have "b = 0 \<or> b = 1 \<or> b = 2 \<or> b = 3" if "\<not> b > 3" for b :: u8
  proof -
    have "unat b \<in> {0, 1, 2, 3}"
      using that by (auto simp: word_less_nat_alt)
    then show ?thesis
      by (auto simp: word_unat_eq_iff)
  qed
  ultimately have "op_of_code b = Inl Runtime_error"
    by (auto simp: op_of_code_def)
  then show ?thesis
    by (simp add: decode_op_def r_u8_def r_raw_def)
qed

lemma decode_op_bad_type_witness: "decode_op [9, 0] = Inl Runtime_error"
  using decode_op_bad_type [of 9 "[0]"] by simp

end
