(* ===== verification/Log_Store.thy ===== *)
theory Log_Store
  imports Crc32 Op_Codec
begin

text \<open>
  \<^verbatim>\<open>include/toyvdb/log_store.hpp\<close> and \<^verbatim>\<open>src/log_store.cpp\<close>: the append-only log of framed records. The
  operating system is part of the state as an oracle: the outcomes of the coming \<^verbatim>\<open>write\<close>, \<^verbatim>\<open>read\<close>, \<^verbatim>\<open>fsync\<close>
  and \<^verbatim>\<open>open\<close> calls, each list standing for full success once it is used up. An operation returns the
  state it leaves behind next to its result, since a failed call keeps the bytes it has already written.
\<close>

section \<open>System calls\<close>

datatype io_result =
    Done nat     \<comment> \<open>bytes transferred by this call\<close>
  | Interrupted  \<comment> \<open>\<^verbatim>\<open>EINTR\<close>\<close>
  | Failed

record environment =
  env_writes :: "io_result list"
  env_reads :: "io_result list"
  env_fsyncs :: "bool list"
  env_opens :: "bool list"

definition healthy :: "environment \<Rightarrow> bool" where
  "healthy e \<longleftrightarrow> Failed \<notin> set (env_writes e) \<and> Failed \<notin> set (env_reads e)
     \<and> False \<notin> set (env_fsyncs e) \<and> False \<notin> set (env_opens e)"

datatype sync_policy = Always | Group_commit | Off

record log_store =
  ls_policy :: sync_policy
  ls_fd :: bool           \<comment> \<open>the descriptor is open\<close>
  ls_file :: bytes
  ls_synced :: nat        \<comment> \<open>bytes this process has brought to stable storage\<close>
  ls_env :: environment

text \<open>The loop of \<^verbatim>\<open>write_all\<close> over the unwritten rest of the data, at the end of the file (\<^verbatim>\<open>O_APPEND\<close>).\<close>

fun write_loop :: "io_result list \<Rightarrow> bytes \<Rightarrow> bytes \<Rightarrow> io_result list \<times> bytes \<times> unit res" where
  "write_loop [] data file = ([], file @ data, Inr ())"
| "write_loop (r # os) data file =
     (if data = [] then (r # os, file, Inr ())
      else case r of
          Done n \<Rightarrow> write_loop os (drop n data) (file @ take n data)
        | Interrupted \<Rightarrow> write_loop os data file
        | Failed \<Rightarrow> (os, file, Inl System_error))"

definition write_all :: "bytes \<Rightarrow> log_store \<Rightarrow> log_store \<times> unit res" where
  "write_all data s =
     (if \<not> ls_fd s then (s, if data = [] then Inr () else Inl System_error)
      else case write_loop (env_writes (ls_env s)) data (ls_file s) of
        (os, file, res) \<Rightarrow> (s\<lparr>ls_file := file, ls_env := (ls_env s)\<lparr>env_writes := os\<rparr>\<rparr>, res))"

text \<open>
  The loop of \<^verbatim>\<open>read_exact\<close>: the bytes read so far and the unread rest of the file. A \<^verbatim>\<open>read\<close> of a
  non-empty rest returns at least one byte; at the end of the file it returns zero.
\<close>

definition read_size :: "nat \<Rightarrow> nat \<Rightarrow> nat \<Rightarrow> nat" where
  "read_size k n left = min (max 1 k) (min n left)"

fun read_loop :: "io_result list \<Rightarrow> nat \<Rightarrow> bytes \<Rightarrow> bytes \<Rightarrow> (io_result list \<times> bytes option \<times> bytes) res" where
  "read_loop [] n got rest =
     (if length rest < n then Inr ([], None, []) else Inr ([], Some (got @ take n rest), drop n rest))"
| "read_loop (r # os) n got rest =
     (if n = 0 then Inr (r # os, Some got, rest)
      else case r of
          Done k \<Rightarrow>
            (if rest = [] then Inr (os, None, [])
             else let m = read_size k n (length rest)
                  in read_loop os (n - m) (got @ take m rest) (drop m rest))
        | Interrupted \<Rightarrow> read_loop os n got rest
        | Failed \<Rightarrow> Inl System_error)"

definition read_exact :: "io_result list \<Rightarrow> nat \<Rightarrow> bytes \<Rightarrow> (io_result list \<times> bytes option \<times> bytes) res" where
  "read_exact os n file = read_loop os n [] file"

section \<open>The file log\<close>

definition open_log :: "sync_policy \<Rightarrow> bytes \<Rightarrow> environment \<Rightarrow> log_store res" where
  "open_log policy file e =
     (case env_opens e of
        False # _ \<Rightarrow> Inl System_error
      | _ \<Rightarrow> Inr \<lparr>ls_policy = policy, ls_fd = True, ls_file = file, ls_synced = 0,
                  ls_env = e\<lparr>env_opens := tl (env_opens e)\<rparr>\<rparr>)"

definition log_sync :: "log_store \<Rightarrow> log_store \<times> unit res" where
  "log_sync s =
     (if ls_policy s = Off then (s, Inr ())
      else let s' = s\<lparr>ls_env := (ls_env s)\<lparr>env_fsyncs := tl (env_fsyncs (ls_env s))\<rparr>\<rparr>
           in if \<not> ls_fd s \<or> (env_fsyncs (ls_env s) \<noteq> [] \<and> \<not> hd (env_fsyncs (ls_env s)))
              then (s', Inl System_error)
              else (s'\<lparr>ls_synced := length (ls_file s)\<rparr>, Inr ()))"

definition log_header :: "bytes \<Rightarrow> bytes" where
  "log_header r = w_u32 (crc32 r) @ w_u32 (of_nat (length r))"

definition log_append :: "bytes \<Rightarrow> log_store \<Rightarrow> log_store \<times> unit res" where
  "log_append r s =
     (case write_all (log_header r) s of
        (s1, Inl e) \<Rightarrow> (s1, Inl e)
      | (s1, Inr _) \<Rightarrow>
          (case write_all r s1 of
             (s2, Inl e) \<Rightarrow> (s2, Inl e)
           | (s2, Inr _) \<Rightarrow> if ls_policy s2 = Always then log_sync s2 else (s2, Inr ())))"

lemma read_size_le: "read_size k n l \<le> n" "read_size k n l \<le> l"
  by (simp_all add: read_size_def)

lemma read_loop_rest: "read_loop os n got xs = Inr (os', Some h, rest) \<Longrightarrow> n + length rest = length xs"
proof (induction os arbitrary: n got xs)
  case (Cons r os)
  show ?case
  proof (cases r)
    case (Done k)
    note le = read_size_le [of k n "length xs"]
    show ?thesis
    proof (cases "n = 0 \<or> xs = []")
      case False
      with Cons.prems Done have "n - read_size k n (length xs) + length rest = length (drop (read_size k n (length xs)) xs)"
        by (intro Cons.IH) (simp add: Let_def)
      with le show ?thesis by simp
    qed (use Cons.prems Done in \<open>auto split: if_splits\<close>)
  qed (use Cons in \<open>auto split: if_splits\<close>)
qed (auto split: if_splits)

text \<open>The replay loop over the unread rest of the file, calling back with each intact record.\<close>

function replay_loop ::
  "(bytes \<Rightarrow> 's \<Rightarrow> 's res) \<Rightarrow> io_result list \<Rightarrow> bytes \<Rightarrow> 's \<Rightarrow> (io_result list \<times> 's) res" where
  "replay_loop on_record os file st =
     rbind (read_exact os 8 file) (\<lambda>(os, header, rest).
       case header of
         None \<Rightarrow> Inr (os, st)
       | Some h \<Rightarrow>
           (let crc = from_le (take 4 h); len = unat (from_le (drop 4 h) :: u32)
            in rbind (if 0 < len then read_exact os len rest else Inr (os, Some [], rest))
                 (\<lambda>(os, payload, rest').
                    case payload of
                      None \<Rightarrow> Inr (os, st)
                    | Some p \<Rightarrow>
                        (if crc32 p \<noteq> crc then Inr (os, st)
                         else rbind (on_record p st) (\<lambda>st'. replay_loop on_record os rest' st')))))"
  by pat_completeness auto
termination
  by (relation "measure (\<lambda>(_, _, file, _). length file)")
    (auto simp: read_exact_def dest!: read_loop_rest split: if_splits)

declare replay_loop.simps [simp del]

definition log_replay ::
  "(bytes \<Rightarrow> 's \<Rightarrow> 's res) \<Rightarrow> log_store \<Rightarrow> 's \<Rightarrow> (log_store \<times> 's) res" where
  "log_replay on_record s st =
     (case env_opens (ls_env s) of
        False # _ \<Rightarrow> Inl System_error
      | _ \<Rightarrow>
          rbind (replay_loop on_record (env_reads (ls_env s)) (ls_file s) st) (\<lambda>(os, st').
            Inr (s\<lparr>ls_env := (ls_env s)\<lparr>env_opens := tl (env_opens (ls_env s)), env_reads := os\<rparr>\<rparr>, st')))"

definition log_truncate :: "log_store \<Rightarrow> log_store \<times> unit res" where
  "log_truncate s =
     (let e = (ls_env s)\<lparr>env_opens := tl (env_opens (ls_env s))\<rparr>
      in case env_opens (ls_env s) of
           False # _ \<Rightarrow> (s\<lparr>ls_fd := False, ls_env := e\<rparr>, Inl System_error)
         | _ \<Rightarrow> (s\<lparr>ls_fd := True, ls_file := [], ls_synced := 0, ls_env := e\<rparr>, Inr ()))"

section \<open>Loops under partial transfers\<close>

lemma write_loop_ok:
  assumes "Failed \<notin> set os"
  shows "\<exists>os'. write_loop os data fl = (os', fl @ data, Inr ()) \<and> set os' \<subseteq> set os"
  using assms
proof (induction os arbitrary: data fl)
  case (Cons r os)
  show ?case
  proof (cases r)
    case (Done n)
    with Cons.IH [of "drop n data" "fl @ take n data"] Cons.prems show ?thesis by auto
  qed (use Cons in force)+
qed simp

lemma write_loop_prefix:
  "\<exists>n os' res. write_loop os data fl = (os', fl @ take n data, res) \<and> set os' \<subseteq> set os
     \<and> (res = Inr () \<and> length data \<le> n \<or> res = Inl System_error \<and> n < length data)"
proof (induction os arbitrary: data fl)
  case Nil
  show ?case by (auto intro!: exI [of _ "length data"])
next
  case (Cons r os)
  show ?case
  proof (cases "data = []")
    case False
    show ?thesis
    proof (cases r)
      case (Done k)
      obtain n os' res where w: "write_loop os (drop k data) (fl @ take k data) = (os', (fl @ take k data) @ take n (drop k data), res)"
        "set os' \<subseteq> set os"
        "res = Inr () \<and> length (drop k data) \<le> n \<or> res = Inl System_error \<and> n < length (drop k data)"
        using Cons.IH [of "drop k data" "fl @ take k data"] by blast
      show ?thesis
        by (rule exI [of _ "k + n"]) (use w False Done in \<open>auto simp: take_add\<close>)
    next
      case Interrupted
      then show ?thesis using Cons.IH [of data fl] False by auto
    next
      case Failed
      with False show ?thesis by (auto intro!: exI [of _ 0])
    qed
  qed simp
qed

text \<open>What \<open>read_exact\<close> delivers: nothing when the file is too short, else the bytes and the rest.\<close>

definition read_out :: "nat \<Rightarrow> bytes \<Rightarrow> bytes \<Rightarrow> bytes option \<times> bytes" where
  "read_out n got xs = (if length xs < n then (None, []) else (Some (got @ take n xs), drop n xs))"

lemma read_out_step:
  assumes "m \<le> n" and "m \<le> length xs"
  shows "read_out (n - m) (got @ take m xs) (drop m xs) = read_out n got xs"
  using assms take_add [of m "n - m" xs] by (auto simp: read_out_def)

lemma read_loop_ok:
  assumes "Failed \<notin> set os"
  shows "\<exists>os'. set os' \<subseteq> set os \<and> read_loop os n got xs = Inr (os', read_out n got xs)"
  using assms
proof (induction os arbitrary: n got xs)
  case (Cons r os)
  show ?case
  proof (cases "n = 0")
    case False
    have os: "Failed \<notin> set os"
      using Cons.prems by simp
    show ?thesis
    proof (cases r)
      case (Done k)
      note le = read_size_le [of k n "length xs"]
      show ?thesis
      proof (cases "xs = []")
        case False
        with Cons.IH [OF os] \<open>n \<noteq> 0\<close> Done show ?thesis
          using read_out_step [OF le, of got]
          by (simp add: Let_def) (metis subset_insertI2)
      qed (use Done \<open>n \<noteq> 0\<close> in \<open>auto simp: read_out_def\<close>)
    next
      case Interrupted
      with Cons.IH [OF os, of n got xs] False show ?thesis by auto
    next
      case Failed
      with Cons.prems show ?thesis by simp
    qed
  qed (auto simp: read_out_def)
qed (auto simp: read_out_def)

lemma read_exact_ok:
  assumes "Failed \<notin> set os"
  shows "\<exists>os'. set os' \<subseteq> set os \<and> read_exact os n xs = Inr (os', read_out n [] xs)"
  using read_loop_ok [OF assms] by (simp add: read_exact_def)

section \<open>Frames\<close>

definition frame :: "bytes \<Rightarrow> bytes" where
  "frame r = log_header r @ r"

definition frames :: "bytes list \<Rightarrow> bytes" where
  "frames rs = concat (map frame rs)"

definition record_ok :: "bytes \<Rightarrow> bool" where
  "record_ok r \<longleftrightarrow> length r < 2 ^ 32"

lemma length_header [simp]: "length (log_header r) = 8"
  by (simp add: log_header_def)

lemma length_frame [simp]: "length (frame r) = 8 + length r"
  by (simp add: frame_def)

lemma frames_simps [simp]:
  "frames [] = []" "frames (r # rs) = frame r @ frames rs" "frames (rs @ qs) = frames rs @ frames qs"
  by (simp_all add: frames_def)

lemma header_fields:
  "from_le (take 4 (log_header r)) = crc32 r"
  "record_ok r \<Longrightarrow> unat (from_le (drop 4 (log_header r)) :: u32) = length r"
  by (simp_all add: log_header_def w_u32_def from_le_to_le record_ok_def)

lemma replay_whole:
  assumes "Failed \<notin> set os" and "record_ok r"
  shows "\<exists>os'. set os' \<subseteq> set os \<and> replay_loop f os (frame r @ rest) st = rbind (f r st) (replay_loop f os' rest)"
proof -
  obtain os1 where os1: "set os1 \<subseteq> set os" "read_exact os 8 (frame r @ rest) = Inr (os1, Some (log_header r), r @ rest)"
    using read_exact_ok [OF assms(1), of 8 "frame r @ rest"] by (auto simp: frame_def read_out_def)
  have "\<exists>os'. set os' \<subseteq> set os \<and>
      (if 0 < length r then read_exact os1 (length r) (r @ rest) else Inr (os1, Some [], r @ rest)) = Inr (os', Some r, rest)"
  proof (cases "r = []")
    case False
    with read_exact_ok [of os1 "length r" "r @ rest"] os1(1) assms(1) show ?thesis
      by (fastforce simp: read_out_def)
  qed (use os1 in auto)
  with os1 assms(2) show ?thesis
    by (auto simp: replay_loop.simps [of f os] header_fields Let_def)
qed

lemma replay_torn:
  assumes "Failed \<notin> set os" and "record_ok r" and "n < length (frame r)"
  shows "\<exists>os'. set os' \<subseteq> set os \<and> replay_loop f os (take n (frame r)) st = Inr (os', st)"
proof (cases "n < 8")
  case True
  with read_exact_ok [OF assms(1), of 8 "take n (frame r)"] assms(3) show ?thesis
    by (auto simp: replay_loop.simps [of f os] read_out_def)
next
  case False
  then have "take n (frame r) = log_header r @ take (n - 8) r"
    by (simp add: frame_def)
  moreover obtain os1 where os1: "set os1 \<subseteq> set os"
    "read_exact os 8 (log_header r @ take (n - 8) r) = Inr (os1, Some (log_header r), take (n - 8) r)"
    using read_exact_ok [OF assms(1), of 8 "log_header r @ take (n - 8) r"] by (auto simp: read_out_def)
  moreover have "n - 8 < length r"
    using assms(3) False by simp
  moreover from this obtain os2 where "set os2 \<subseteq> set os1" "read_exact os1 (length r) (take (n - 8) r) = Inr (os2, None, [])"
    using read_exact_ok [of os1 "length r" "take (n - 8) r"] os1(1) assms(1) by (fastforce simp: read_out_def)
  ultimately show ?thesis
    using assms(2) by (auto simp: replay_loop.simps [of f os] header_fields Let_def)
qed

section \<open>Replay\<close>

lemma replay_frames:
  assumes "Failed \<notin> set os" and "\<forall>r \<in> set rs. record_ok r"
  shows "\<exists>os'. set os' \<subseteq> set os \<and> replay_loop f os (frames rs @ rest) st = rbind (rfold f rs st) (replay_loop f os' rest)"
  using assms
proof (induction rs arbitrary: os st)
  case (Cons r rs)
  then obtain os1 where os1: "set os1 \<subseteq> set os"
    "replay_loop f os (frame r @ frames rs @ rest) st = rbind (f r st) (replay_loop f os1 (frames rs @ rest))"
    using replay_whole [of os r f "frames rs @ rest" st] by auto
  show ?case
  proof (cases "f r st")
    case (Inr st1)
    obtain os' where "set os' \<subseteq> set os1"
      "replay_loop f os1 (frames rs @ rest) st1 = rbind (rfold f rs st1) (replay_loop f os' rest)"
      using Cons.IH [of os1 st1] Cons.prems os1(1) by auto
    with os1 Inr show ?thesis by auto
  qed (use os1 in auto)
qed auto

text \<open>How many whole frames the first \<open>n\<close> bytes of a log hold.\<close>

fun whole_frames :: "nat \<Rightarrow> bytes list \<Rightarrow> nat" where
  "whole_frames n [] = 0"
| "whole_frames n (r # rs) =
     (if n < length (frame r) then 0 else Suc (whole_frames (n - length (frame r)) rs))"

lemma whole_frames_le: "whole_frames n rs \<le> length rs"
  by (induction n rs rule: whole_frames.induct) simp_all

lemma whole_frames_ge: "length (frames (take j rs)) \<le> n \<Longrightarrow> j \<le> length rs \<Longrightarrow> j \<le> whole_frames n rs"
proof (induction n rs arbitrary: j rule: whole_frames.induct)
  case (2 n r rs)
  then show ?case by (cases j) auto
qed simp

lemma whole_frames_iff: "j \<le> length rs \<Longrightarrow> length (frames (take j rs)) \<le> n \<longleftrightarrow> j \<le> whole_frames n rs"
proof (induction n rs arbitrary: j rule: whole_frames.induct)
  case (2 n r rs)
  show ?case
  proof (cases "j = 0 \<or> n < length (frame r)")
    case False
    then obtain i where "j = Suc i" by (cases j) auto
    moreover from this False "2.prems" have "length (frames (take i rs)) \<le> n - length (frame r) \<longleftrightarrow> i \<le> whole_frames (n - length (frame r)) rs"
      by (intro "2.IH") auto
    ultimately show ?thesis
      using False by (auto simp: le_diff_conv2)
  qed (use 2 in \<open>cases j; auto\<close>)
qed simp

lemma take_frames:
  "\<exists>t. take n (frames rs) = frames (take (whole_frames n rs) rs) @ t
     \<and> (t = [] \<or> (\<exists>r \<in> set rs. \<exists>m < length (frame r). t = take m (frame r)))"
proof (induction n rs rule: whole_frames.induct)
  case (2 n r rs)
  then show ?case
    by (cases "n < length (frame r)") (auto simp: take_append)
qed simp

lemma replay_cut:
  assumes "Failed \<notin> set os" and "\<forall>r \<in> set rs. record_ok r"
  shows "\<exists>os'. set os' \<subseteq> set os \<and>
    replay_loop f os (take n (frames rs)) st = rbind (rfold f (take (whole_frames n rs) rs) st) (\<lambda>st'. Inr (os', st'))"
proof -
  let ?k = "whole_frames n rs"
  obtain t where t: "take n (frames rs) = frames (take ?k rs) @ t"
    "t = [] \<or> (\<exists>r \<in> set rs. \<exists>m < length (frame r). t = take m (frame r))"
    using take_frames by blast
  obtain os1 where os1: "set os1 \<subseteq> set os"
    "replay_loop f os (frames (take ?k rs) @ t) st = rbind (rfold f (take ?k rs) st) (replay_loop f os1 t)"
    using replay_frames [of os "take ?k rs" f t st] assms by (auto dest: in_set_takeD)
  obtain r m where torn: "record_ok r" "m < length (frame r)" "t = take m (frame r)"
    using t(2) assms(2) that [of "[]" 0] by (auto simp: record_ok_def)
  have "Failed \<notin> set os1"
    using os1(1) assms(1) by auto
  then have "\<exists>os'. set os' \<subseteq> set os1 \<and> replay_loop f os1 t st' = Inr (os', st')" for st'
    using replay_torn [of os1 r m f st'] torn by simp
  then have "\<exists>os'. set os' \<subseteq> set os \<and> replay_loop f os1 t st' = Inr (os', st')" for st'
    using os1(1) by (meson order_trans)
  with t(1) os1 show ?thesis
    by (cases "rfold f (take ?k rs) st") auto
qed

section \<open>The interface of a log\<close>

text \<open>
  \<^verbatim>\<open>class LogStore\<close>: what a client of the seam relies on. \<open>recs\<close> are the records of a log in good order;
  an append adds one, a replay folds the callback over them, a truncation discards them.
\<close>

locale log_seam =
  fixes append :: "bytes \<Rightarrow> 'l \<Rightarrow> 'l \<times> unit res"
    and sync :: "'l \<Rightarrow> 'l \<times> unit res"
    and replay :: "(bytes \<Rightarrow> 's \<Rightarrow> 's res) \<Rightarrow> 'l \<Rightarrow> 's \<Rightarrow> ('l \<times> 's) res"
    and truncate :: "'l \<Rightarrow> 'l \<times> unit res"
    and recs :: "'l \<Rightarrow> bytes list"
    and good :: "'l \<Rightarrow> bool"
  assumes append_ok: "good l \<Longrightarrow> record_ok r \<Longrightarrow>
      \<exists>l'. append r l = (l', Inr ()) \<and> good l' \<and> recs l' = recs l @ [r]"
    and sync_ok: "good l \<Longrightarrow> \<exists>l'. sync l = (l', Inr ()) \<and> good l' \<and> recs l' = recs l"
    and replay_ok: "good l \<Longrightarrow> \<exists>l'. replay f l st = rbind (rfold f (recs l) st) (\<lambda>st'. Inr (l', st'))
      \<and> good l' \<and> recs l' = recs l"
    and truncate_ok: "good l \<Longrightarrow> \<exists>l'. truncate l = (l', Inr ()) \<and> good l' \<and> recs l' = []"
begin

definition append_all :: "bytes list \<Rightarrow> 'l \<Rightarrow> 'l" where
  "append_all rs l = fold (\<lambda>r l. fst (append r l)) rs l"

lemma append_all_ok:
  assumes "good l" and "\<forall>r \<in> set rs. record_ok r"
  shows "good (append_all rs l) \<and> recs (append_all rs l) = recs l @ rs"
  using assms
proof (induction rs arbitrary: l)
  case (Cons r rs)
  then obtain l' where "append r l = (l', Inr ())" "good l'" "recs l' = recs l @ [r]"
    using append_ok [of l r] by auto
  with Cons show ?case
    by (simp add: append_all_def)
qed (simp add: append_all_def)

lemma replay_appended:
  assumes "good l" and "\<forall>r \<in> set rs. record_ok r"
  shows "\<exists>l'. replay f (append_all rs l) st = rbind (rfold f (recs l @ rs) st) (\<lambda>st'. Inr (l', st'))"
  using append_all_ok [OF assms] replay_ok [of "append_all rs l" f st] by auto

end

text \<open>The file log provides it while its system calls succeed, in however many pieces they transfer.\<close>

definition parse_file :: "bytes \<Rightarrow> bytes list" where
  "parse_file file = (case replay_loop (\<lambda>r rs. Inr (rs @ [r])) [] file [] of Inl _ \<Rightarrow> [] | Inr (_, rs) \<Rightarrow> rs)"

definition log_recs :: "log_store \<Rightarrow> bytes list" where
  "log_recs s = parse_file (ls_file s)"

definition log_good :: "log_store \<Rightarrow> bool" where
  "log_good s \<longleftrightarrow> ls_fd s \<and> healthy (ls_env s) \<and> ls_file s = frames (log_recs s) \<and> list_all record_ok (log_recs s)"

lemma collect_rfold: "rfold (\<lambda>r rs. Inr (rs @ [r])) xs acc = Inr (acc @ xs)"
  by (induction xs arbitrary: acc) simp_all

lemma parse_frames:
  assumes "\<forall>r \<in> set rs. record_ok r"
  shows "parse_file (frames rs) = rs"
  using replay_frames [of "[]" rs "\<lambda>r rs. Inr (rs @ [r])" "[]" "[]"] assms
  by (auto simp: parse_file_def collect_rfold replay_loop.simps [of _ _ "[]"] read_exact_def)

lemma log_goodI:
  assumes "ls_fd s" and "healthy (ls_env s)" and "ls_file s = frames rs" and "\<forall>r \<in> set rs. record_ok r"
  shows "log_good s \<and> log_recs s = rs"
  using assms parse_frames [of rs] by (simp add: log_good_def log_recs_def list_all_iff)

lemma healthy_mono:
  assumes "healthy e" and "set (env_writes e') \<subseteq> set (env_writes e)" and "set (env_reads e') \<subseteq> set (env_reads e)"
    and "set (env_fsyncs e') \<subseteq> set (env_fsyncs e)" and "set (env_opens e') \<subseteq> set (env_opens e)"
  shows "healthy e'"
  using assms by (auto simp: healthy_def)

lemma set_tl_subset: "set (tl xs) \<subseteq> set xs"
  by (cases xs) auto

lemma write_all_ok:
  assumes "ls_fd s" and "healthy (ls_env s)"
  shows "\<exists>e. write_all data s = (s\<lparr>ls_file := ls_file s @ data, ls_env := e\<rparr>, Inr ()) \<and> healthy e"
proof -
  have "Failed \<notin> set (env_writes (ls_env s))"
    using assms(2) by (simp add: healthy_def)
  then obtain os where "write_loop (env_writes (ls_env s)) data (ls_file s) = (os, ls_file s @ data, Inr ())"
    "set os \<subseteq> set (env_writes (ls_env s))"
    using write_loop_ok by blast
  moreover from this(2) have "healthy ((ls_env s)\<lparr>env_writes := os\<rparr>)"
    by (intro healthy_mono [OF assms(2)]) simp_all
  ultimately show ?thesis
    using assms(1) by (intro exI [of _ "(ls_env s)\<lparr>env_writes := os\<rparr>"]) (simp add: write_all_def)
qed

lemma log_sync_ok:
  assumes "ls_fd s" and "healthy (ls_env s)"
  shows "\<exists>e n. log_sync s = (s\<lparr>ls_env := e, ls_synced := n\<rparr>, Inr ()) \<and> healthy e
    \<and> (ls_policy s \<noteq> Off \<longrightarrow> n = length (ls_file s))"
proof (cases "ls_policy s = Off")
  case True
  then show ?thesis
    using assms by (auto simp: log_sync_def intro!: exI [of _ "ls_env s"] exI [of _ "ls_synced s"])
next
  case False
  have "env_fsyncs (ls_env s) = [] \<or> hd (env_fsyncs (ls_env s))"
    using assms(2) by (cases "env_fsyncs (ls_env s)") (auto simp: healthy_def)
  moreover have "healthy ((ls_env s)\<lparr>env_fsyncs := tl (env_fsyncs (ls_env s))\<rparr>)"
    by (intro healthy_mono [OF assms(2)]) (simp_all add: set_tl_subset)
  ultimately show ?thesis
    using assms False
    by (intro exI [of _ "(ls_env s)\<lparr>env_fsyncs := tl (env_fsyncs (ls_env s))\<rparr>"] exI [of _ "length (ls_file s)"])
      (auto simp: log_sync_def Let_def)
qed

lemma log_append_ok:
  assumes "ls_fd s" and "healthy (ls_env s)"
  shows "\<exists>e n. log_append r s = (s\<lparr>ls_file := ls_file s @ frame r, ls_env := e, ls_synced := n\<rparr>, Inr ()) \<and> healthy e
    \<and> (ls_policy s = Always \<longrightarrow> n = length (ls_file s @ frame r))"
proof -
  obtain e1 where w1: "write_all (log_header r) s = (s\<lparr>ls_file := ls_file s @ log_header r, ls_env := e1\<rparr>, Inr ())" "healthy e1"
    using write_all_ok [OF assms] by blast
  let ?s1 = "s\<lparr>ls_file := ls_file s @ log_header r, ls_env := e1\<rparr>"
  obtain e2 where w2: "write_all r ?s1 = (s\<lparr>ls_file := ls_file s @ frame r, ls_env := e2\<rparr>, Inr ())" "healthy e2"
    using write_all_ok [of ?s1 r] assms(1) w1(2) by (auto simp: frame_def)
  let ?s2 = "s\<lparr>ls_file := ls_file s @ frame r, ls_env := e2\<rparr>"
  obtain e3 n where w3: "log_sync ?s2 = (?s2\<lparr>ls_env := e3, ls_synced := n\<rparr>, Inr ())" "healthy e3"
    "ls_policy ?s2 \<noteq> Off \<longrightarrow> n = length (ls_file ?s2)"
    using log_sync_ok [of ?s2] assms(1) w2(2) by auto
  show ?thesis
  proof (cases "ls_policy s = Always")
    case True
    with w1 w2 w3 show ?thesis
      by (auto simp: log_append_def intro!: exI [of _ e3] exI [of _ n])
  next
    case False
    with w1 w2 show ?thesis
      by (auto simp: log_append_def intro!: exI [of _ e2] exI [of _ "ls_synced s"])
  qed
qed

lemma opens_ok: "healthy e \<Longrightarrow> env_opens e = [] \<or> (\<exists>os. env_opens e = True # os)"
  by (cases "env_opens e") (auto simp: healthy_def)

lemma log_replay_ok:
  assumes "healthy (ls_env s)" and "ls_file s = take n (frames rs)" and "\<forall>r \<in> set rs. record_ok r"
  shows "\<exists>e. log_replay f s st =
      rbind (rfold f (take (whole_frames n rs) rs) st) (\<lambda>st'. Inr (s\<lparr>ls_env := e\<rparr>, st')) \<and> healthy e"
proof -
  obtain os where "set os \<subseteq> set (env_reads (ls_env s))"
    "replay_loop f (env_reads (ls_env s)) (ls_file s) st =
      rbind (rfold f (take (whole_frames n rs) rs) st) (\<lambda>st'. Inr (os, st'))"
    using replay_cut [OF _ assms(3), of "env_reads (ls_env s)" f n st] assms(1,2) by (auto simp: healthy_def)
  moreover from this(1) have "healthy ((ls_env s)\<lparr>env_opens := tl (env_opens (ls_env s)), env_reads := os\<rparr>)"
    by (intro healthy_mono [OF assms(1)]) (simp_all add: set_tl_subset)
  ultimately show ?thesis
    using opens_ok [OF assms(1)]
    by (intro exI [of _ "(ls_env s)\<lparr>env_opens := tl (env_opens (ls_env s)), env_reads := os\<rparr>"])
      (auto simp: log_replay_def rbind_assoc)
qed

lemma whole_frames_complete: "length (frames rs) \<le> n \<Longrightarrow> whole_frames n rs = length rs"
  using whole_frames_ge [of "length rs" rs n] whole_frames_le [of n rs] by simp

lemma whole_frames_all: "whole_frames (length (frames rs)) rs = length rs"
  using whole_frames_ge [of "length rs" rs "length (frames rs)"] whole_frames_le [of "length (frames rs)" rs] by simp

lemma log_truncate_ok:
  assumes "healthy (ls_env s)"
  shows "\<exists>e. log_truncate s = (s\<lparr>ls_fd := True, ls_file := [], ls_synced := 0, ls_env := e\<rparr>, Inr ()) \<and> healthy e"
proof -
  have "healthy ((ls_env s)\<lparr>env_opens := tl (env_opens (ls_env s))\<rparr>)"
    by (intro healthy_mono [OF assms]) (simp_all add: set_tl_subset)
  then show ?thesis
    using opens_ok [OF assms]
    by (intro exI [of _ "(ls_env s)\<lparr>env_opens := tl (env_opens (ls_env s))\<rparr>"]) (auto simp: log_truncate_def Let_def)
qed

lemma log_goodD:
  "log_good s \<Longrightarrow> ls_fd s" "log_good s \<Longrightarrow> healthy (ls_env s)"
  "log_good s \<Longrightarrow> ls_file s = frames (log_recs s)" "log_good s \<Longrightarrow> \<forall>r \<in> set (log_recs s). record_ok r"
  by (simp_all add: log_good_def list_all_iff)

interpretation file_log: log_seam log_append log_sync log_replay log_truncate log_recs log_good
proof
  fix l r
  assume good: "log_good l" and r: "record_ok r"
  obtain e n where a: "log_append r l = (l\<lparr>ls_file := ls_file l @ frame r, ls_env := e, ls_synced := n\<rparr>, Inr ())" "healthy e"
    using log_append_ok [of l r] log_goodD [OF good] by auto
  have "log_good (fst (log_append r l)) \<and> log_recs (fst (log_append r l)) = log_recs l @ [r]"
    using log_goodD [OF good] r a by (intro log_goodI) auto
  with a(1) show "\<exists>l'. log_append r l = (l', Inr ()) \<and> log_good l' \<and> log_recs l' = log_recs l @ [r]"
    by simp
next
  fix l
  assume good: "log_good l"
  obtain e n where a: "log_sync l = (l\<lparr>ls_env := e, ls_synced := n\<rparr>, Inr ())" "healthy e"
    using log_sync_ok [of l] log_goodD [OF good] by auto
  have "log_good (fst (log_sync l)) \<and> log_recs (fst (log_sync l)) = log_recs l"
    using log_goodD [OF good] a by (intro log_goodI) auto
  with a(1) show "\<exists>l'. log_sync l = (l', Inr ()) \<and> log_good l' \<and> log_recs l' = log_recs l"
    by simp
next
  fix l f and st :: 'a
  assume good: "log_good l"
  then obtain e where a: "log_replay f l st = rbind (rfold f (log_recs l) st) (\<lambda>st'. Inr (l\<lparr>ls_env := e\<rparr>, st'))" "healthy e"
    using log_replay_ok [of l "length (frames (log_recs l))" "log_recs l" f st] log_goodD [OF good]
    by (auto simp: whole_frames_all)
  have "log_good (l\<lparr>ls_env := e\<rparr>) \<and> log_recs (l\<lparr>ls_env := e\<rparr>) = log_recs l"
    using log_goodD [OF good] a by (intro log_goodI) auto
  with a(1) show "\<exists>l'. log_replay f l st = rbind (rfold f (log_recs l) st) (\<lambda>st'. Inr (l', st'))
      \<and> log_good l' \<and> log_recs l' = log_recs l"
    by blast
next
  fix l
  assume good: "log_good l"
  obtain e where a: "log_truncate l = (l\<lparr>ls_fd := True, ls_file := [], ls_synced := 0, ls_env := e\<rparr>, Inr ())" "healthy e"
    using log_truncate_ok log_goodD(2) [OF good] by blast
  have "log_good (fst (log_truncate l)) \<and> log_recs (fst (log_truncate l)) = []"
    using a by (intro log_goodI) auto
  with a(1) show "\<exists>l'. log_truncate l = (l', Inr ()) \<and> log_good l' \<and> log_recs l' = []"
    by simp
qed

section \<open>Properties\<close>

lemma write_all_prefix:
  "\<exists>n s' res. write_all d x = (s', res) \<and> ls_file s' = ls_file x @ take n d \<and> ls_policy s' = ls_policy x
    \<and> ls_synced s' = ls_synced x \<and> (res = Inr () \<and> length d \<le> n \<or> res = Inl System_error \<and> n < length d)"
proof (cases "ls_fd x")
  case True
  obtain n os' res where "write_loop (env_writes (ls_env x)) d (ls_file x) = (os', ls_file x @ take n d, res)"
    "res = Inr () \<and> length d \<le> n \<or> res = Inl System_error \<and> n < length d"
    using write_loop_prefix [of "env_writes (ls_env x)" d "ls_file x"] by blast
  with True show ?thesis
    by (auto simp: write_all_def intro!: exI [of _ n])
qed (auto simp: write_all_def intro!: exI [of _ 0])

lemma log_sync_outcomes:
  "\<exists>s' res. log_sync s = (s', res) \<and> ls_file s' = ls_file s \<and>
     (res = Inl System_error \<and> ls_synced s' = ls_synced s
      \<or> res = Inr () \<and> (ls_policy s \<noteq> Off \<longrightarrow> ls_synced s' = length (ls_file s)))"
  by (auto simp: log_sync_def Let_def)

text \<open>Whatever the kernel does, an append leaves the old contents followed by a prefix of the record's
  frame; it reports success only with the whole frame in the file (and, under \<open>Always\<close>, on stable
  storage), and a failure is a \<open>system_error\<close>.\<close>

lemma log_append_outcomes:
  "\<exists>s'. log_append r s = (s', Inr ()) \<and> ls_file s' = ls_file s @ frame r
      \<and> ls_synced s' = (if ls_policy s = Always then length (ls_file s') else ls_synced s)
    \<or> (\<exists>n. log_append r s = (s', Inl System_error) \<and> ls_file s' = ls_file s @ take n (frame r)
      \<and> ls_synced s' = ls_synced s)"
proof -
  obtain n1 s1 r1 where w1: "write_all (log_header r) s = (s1, r1)" "ls_file s1 = ls_file s @ take n1 (log_header r)"
    "ls_policy s1 = ls_policy s" "ls_synced s1 = ls_synced s"
    "r1 = Inr () \<and> length (log_header r) \<le> n1 \<or> r1 = Inl System_error \<and> n1 < length (log_header r)"
    using write_all_prefix by blast
  obtain n2 s2 r2 where w2: "write_all r s1 = (s2, r2)" "ls_file s2 = ls_file s1 @ take n2 r"
    "ls_policy s2 = ls_policy s1" "ls_synced s2 = ls_synced s1"
    "r2 = Inr () \<and> length r \<le> n2 \<or> r2 = Inl System_error \<and> n2 < length r"
    using write_all_prefix by blast
  show ?thesis
  proof (cases "r1 = Inr ()")
    case False
    with w1 have "log_append r s = (s1, Inl System_error)" "ls_file s1 = ls_file s @ take n1 (frame r)"
      by (auto simp: log_append_def frame_def)
    with w1(4) show ?thesis by blast
  next
    case True
    with w1 w2 have "ls_file s2 = ls_file s @ take (8 + n2) (frame r)"
      by (auto simp: frame_def)
    moreover from True w1 w2 have "log_append r s = (if r2 \<noteq> Inr () then (s2, r2)
        else if ls_policy s = Always then log_sync s2 else (s2, Inr ()))"
      by (auto simp: log_append_def)
    moreover have "\<exists>n. frame r = take n (frame r)"
      using take_all [OF order_refl, of "frame r", symmetric] by (rule exI)
    moreover obtain s3 res where "log_sync s2 = (s3, res)" "ls_file s3 = ls_file s2"
      "res = Inl System_error \<and> ls_synced s3 = ls_synced s2
        \<or> res = Inr () \<and> (ls_policy s2 \<noteq> Off \<longrightarrow> ls_synced s3 = length (ls_file s2))"
      using log_sync_outcomes by blast
    ultimately show ?thesis
      using w1(2-4) w2(2-5)
      by (cases "r2 = Inr ()"; cases "ls_policy s = Always") (auto simp del: take_append)
  qed
qed

text \<open>C9: If a crash leaves any prefix of a log of whole records, recovery hands the callback exactly the
  records that lie whole within the prefix, in order: in particular every record that was synced.\<close>

theorem replay_after_crash:
  assumes "healthy (ls_env s)" and "ls_file s = take n (frames rs)" and "\<forall>r \<in> set rs. record_ok r"
  shows "\<exists>k s'. log_replay f s st = rbind (rfold f (take k rs) st) (\<lambda>st'. Inr (s', st'))
    \<and> (\<forall>j \<le> length rs. length (frames (take j rs)) \<le> n \<longleftrightarrow> j \<le> k)"
  using log_replay_ok [OF assms, of f st] whole_frames_iff [of _ rs n] by blast

definition healthy_env :: environment where
  "healthy_env = \<lparr>env_writes = [Done 1, Interrupted], env_reads = [Interrupted, Done 3], env_fsyncs = [], env_opens = []\<rparr>"

definition log_on :: "bytes \<Rightarrow> log_store" where
  "log_on file = \<lparr>ls_policy = Always, ls_fd = True, ls_file = file, ls_synced = 0, ls_env = healthy_env\<rparr>"

theorem replay_after_crash_witness:
  "\<exists>k s'. log_replay (\<lambda>r n. Inr (n + length r)) (log_on (take 13 (frames [[1, 2], [3, 4]]))) 0
    = rbind (rfold (\<lambda>r n. Inr (n + length r)) (take k [[1, 2], [3, 4 :: byte]]) (0 :: nat)) (\<lambda>st'. Inr (s', st')) \<and> k = 1"
proof -
  let ?s = "log_on (take 13 (frames [[1, 2], [3, 4]]))"
  obtain k s' where k: "log_replay (\<lambda>r n. Inr (n + length r)) ?s 0
      = rbind (rfold (\<lambda>r n. Inr (n + length r)) (take k [[1, 2], [3, 4 :: byte]]) (0 :: nat)) (\<lambda>st'. Inr (s', st'))"
    "\<forall>j \<le> length [[1, 2], [3, 4 :: byte]]. length (frames (take j [[1, 2], [3, 4]])) \<le> 13 \<longleftrightarrow> j \<le> k"
    using replay_after_crash [of ?s 13 "[[1, 2], [3, 4]]" "\<lambda>r n. Inr (n + length r)" 0]
    by (auto simp: log_on_def healthy_def healthy_env_def record_ok_def)
  have "k = 1"
    using k(2) [rule_format, of 1] k(2) [rule_format, of 2] by simp
  with k(1) show ?thesis by blast
qed

text \<open>Records appended to a log in good order are replayed after the earlier ones, each once, in order,
  although every transfer may be partial or interrupted.\<close>

lemma replay_appended_records:
  assumes "log_good l" and "\<forall>r \<in> set rs. record_ok r"
  shows "\<exists>l'. log_replay f (fold (\<lambda>r l. fst (log_append r l)) rs l) st
    = rbind (rfold f (log_recs l @ rs) st) (\<lambda>st'. Inr (l', st'))"
  using file_log.replay_appended [OF assms] by (simp add: file_log.append_all_def)

lemma replay_appended_records_witness:
  "\<exists>l'. log_replay (\<lambda>r n. Inr (n + length r)) (fold (\<lambda>r l. fst (log_append r l)) [[1], [2, 3]] (log_on [])) 0 = Inr (l', 3 :: nat)"
proof -
  have "log_good (log_on []) \<and> log_recs (log_on []) = []"
    by (rule log_goodI) (simp_all add: log_on_def healthy_def healthy_env_def)
  then show ?thesis
    using replay_appended_records [of "log_on []" "[[1], [2, 3]]" "\<lambda>r n. Inr (n + length r)" 0]
    by (simp add: record_ok_def numeral_3_eq_3)
qed

subsection \<open>Appending after a failure\<close>

text \<open>A header whose payload does not check ends the replay.\<close>

lemma replay_spoiled:
  assumes "Failed \<notin> set os" and "record_ok r" and "r \<noteq> []" and "length x < length r \<or> crc32 (take (length r) x) \<noteq> crc32 r"
  shows "\<exists>os'. set os' \<subseteq> set os \<and> replay_loop f os (log_header r @ x) st = Inr (os', st)"
proof -
  obtain os1 where os1: "set os1 \<subseteq> set os" "read_exact os 8 (log_header r @ x) = Inr (os1, Some (log_header r), x)"
    using read_exact_ok [OF assms(1), of 8 "log_header r @ x"] by (auto simp: read_out_def)
  obtain os2 where os2: "set os2 \<subseteq> set os1" "read_exact os1 (length r) x = Inr (os2, read_out (length r) [] x)"
    using read_exact_ok [of os1 "length r" x] os1(1) assms(1) by auto
  have "replay_loop f os (log_header r @ x) st = Inr (os2, st)"
    using os1(2) os2(2) assms(2-4) by (auto simp: replay_loop.simps [of f os] header_fields Let_def read_out_def)
  with os1(1) os2(1) show ?thesis
    by auto
qed

text \<open>A sequence of appends, every one of them acknowledged.\<close>

fun acked :: "bytes list \<Rightarrow> log_store \<Rightarrow> log_store option" where
  "acked [] s = Some s"
| "acked (r # rs) s = (case log_append r s of (s', Inr _) \<Rightarrow> acked rs s' | (s', Inl _) \<Rightarrow> None)"

lemma acked_file: "acked rs s = Some s' \<Longrightarrow> ls_file s' = ls_file s @ frames rs"
proof (induction rs arbitrary: s)
  case (Cons r rs)
  obtain s1 res where a: "log_append r s = (s1, res)"
    by (cases "log_append r s")
  then have "res = Inr ()"
    using Cons.prems by (cases res) auto
  with a log_append_outcomes [of r s] have "ls_file s1 = ls_file s @ frame r"
    by auto
  with Cons a show ?case
    by (cases res) auto
qed simp

text \<open>
  C38: A torn append hides every later record. When an append fails with the header written and a part of the payload
  missing, the bytes stay in the file, and whatever is appended after them is taken for the missing part. Unless it
  happens to be that part, or more than four bytes are missing and the checksum happens to agree, a replay ends there:
  it delivers the records before the torn one, and none of those appended after it, although every one of them was
  acknowledged.
\<close>

theorem torn_append_hides_later:
  assumes "ls_file s = frames rs" and "\<forall>q \<in> set rs. record_ok q" and "record_ok r"
    and "log_append r s = (s1, Inl System_error)" and "ls_file s1 = ls_file s @ take n (frame r)"
    and "8 \<le> n" and "n + m = length (frame r)" and "0 < m"
    and "acked qs s1 = Some s2" and "take m (frames qs) \<noteq> drop (n - 8) r"
    and "m \<le> 4 \<or> crc32 (take (n - 8) r @ take m (frames qs)) \<noteq> crc32 r"
    and "ls_file t = ls_file s2" and "healthy (ls_env t)"
  shows "\<exists>t'. log_replay f t st = rbind (rfold f rs st) (\<lambda>st'. Inr (t', st'))"
proof -
  let ?x = "take (n - 8) r @ frames qs"
  have len: "length r = (n - 8) + m" "r \<noteq> []"
    using assms(6-8) by auto
  have fl: "ls_file t = frames rs @ log_header r @ ?x"
    using acked_file [OF assms(9)] assms(1,5,6,12) by (simp add: frame_def)
  have reads: "Failed \<notin> set (env_reads (ls_env t))"
    using assms(13) by (simp add: healthy_def)
  obtain os1 where os1: "set os1 \<subseteq> set (env_reads (ls_env t))"
    "replay_loop f (env_reads (ls_env t)) (ls_file t) st = rbind (rfold f rs st) (replay_loop f os1 (log_header r @ ?x))"
    using replay_frames [OF reads assms(2), of f "log_header r @ ?x" st] unfolding fl by blast
  have x: "take (length r) ?x = take (n - 8) r @ take m (frames qs)"
    using len by simp
  have "length ?x < length r \<or> crc32 (take (length r) ?x) \<noteq> crc32 r"
  proof (rule disjCI)
    assume "\<not> crc32 (take (length r) ?x) \<noteq> crc32 r"
    then have "crc32 (take (n - 8) r @ take m (frames qs) @ []) = crc32 (take (n - 8) r @ drop (n - 8) r @ [])" "m \<le> 4"
      using assms(11) x by simp_all
    then have "length (take m (frames qs)) \<noteq> m"
      using crc32_window_inj [of "take (n - 8) r" "take m (frames qs)" "[]" "drop (n - 8) r"] assms(10) len(1) by auto
    then show "length ?x < length r"
      using len(1) by auto
  qed
  then have stop: "\<exists>os'. replay_loop f os1 (log_header r @ ?x) st' = Inr (os', st')" for st'
    using replay_spoiled [of os1 r ?x f st'] reads os1(1) assms(3) len(2) by blast
  show ?thesis
  proof (cases "rfold f rs st")
    case (Inr st')
    moreover obtain os' where "replay_loop f os1 (log_header r @ ?x) st' = Inr (os', st')"
      using stop by blast
    ultimately show ?thesis
      using opens_ok [OF assms(13)] os1(2) by (auto simp: log_replay_def)
  qed (use opens_ok [OF assms(13)] os1(2) in \<open>auto simp: log_replay_def\<close>)
qed

theorem torn_append_hides_later_witness:
  "\<exists>s1 s2 t'. log_append [5] ((log_on [])\<lparr>ls_env := healthy_env\<lparr>env_writes := [Done 8, Failed]\<rparr>\<rparr>) = (s1, Inl System_error)
    \<and> acked [[], [7]] s1 = Some s2 \<and> ls_synced s2 = length (ls_file s2)
    \<and> log_replay (\<lambda>r rs. Inr (rs @ [r])) (s2\<lparr>ls_env := healthy_env\<rparr>) [] = Inr (t', [])"
proof -
  let ?s0 = "(log_on [])\<lparr>ls_env := healthy_env\<lparr>env_writes := [Done 8, Failed]\<rparr>\<rparr>"
  let ?s1 = "(log_on [])\<lparr>ls_file := log_header [5], ls_env := healthy_env\<lparr>env_writes := []\<rparr>\<rparr>"
  have ne: "log_header [5] \<noteq> []"
    using length_header [of "[5]"] by (metis list.size(3) zero_neq_numeral)
  have a: "log_append [5] ?s0 = (?s1, Inl System_error)"
    using ne by (simp add: log_append_def log_on_def write_all_def healthy_env_def)
  have good: "ls_fd ?s1" "healthy (ls_env ?s1)" "ls_policy ?s1 = Always"
    by (simp_all add: log_on_def healthy_def healthy_env_def)
  obtain e n where b: "log_append [] ?s1 = (?s1\<lparr>ls_file := ls_file ?s1 @ frame [], ls_env := e, ls_synced := n\<rparr>, Inr ())" "healthy e"
    using log_append_ok [OF good(1,2), of "[]"] by blast
  let ?s2 = "?s1\<lparr>ls_file := ls_file ?s1 @ frame [], ls_env := e, ls_synced := n\<rparr>"
  obtain e' n' where c: "log_append [7] ?s2 = (?s2\<lparr>ls_file := ls_file ?s2 @ frame [7], ls_env := e', ls_synced := n'\<rparr>, Inr ())"
    "n' = length (ls_file ?s2 @ frame [7])"
    using log_append_ok [of ?s2 "[7]"] good(1,3) b(2) by auto
  let ?s3 = "?s2\<lparr>ls_file := ls_file ?s2 @ frame [7], ls_env := e', ls_synced := n'\<rparr>"
  have d: "acked [[], [7]] ?s1 = Some ?s3"
    using b(1) c(1) by simp
  have "crc32 [] = 0"
    by (simp add: crc32_def)
  then have "take 1 (frames [[], [7]]) \<noteq> drop (8 - 8) [5]"
    by (simp add: frame_def log_header_def w_u32_def to_le_def upt_rec)
  then have "\<exists>t'. log_replay (\<lambda>r rs. Inr (rs @ [r])) (?s3\<lparr>ls_env := healthy_env\<rparr>) []
      = rbind (rfold (\<lambda>r rs. Inr (rs @ [r])) [] []) (\<lambda>st'. Inr (t', st'))"
    by (intro torn_append_hides_later [OF _ _ _ a _ _ _ _ d, of "[]" 8 1])
      (simp_all add: log_on_def record_ok_def frame_def healthy_def healthy_env_def)
  then obtain t' where "log_replay (\<lambda>r rs. Inr (rs @ [r])) (?s3\<lparr>ls_env := healthy_env\<rparr>) [] = Inr (t', [])"
    by auto
  moreover have "ls_synced ?s3 = length (ls_file ?s3)"
    using c(2) by simp
  ultimately show ?thesis
    using a d by (intro exI [of _ ?s1] exI [of _ ?s3] exI [of _ t']) simp
qed

end
