(* ===== verification/Blob_Store.thy ===== *)
theory Blob_Store
  imports Prelude "HOL-Library.Sublist"
begin

text \<open>
  \<^verbatim>\<open>src/blob_store.cpp\<close>: the keyed store of snapshots. The file system is a map from paths to contents and,
  as in the log, an oracle for the outcomes of the coming operations. Publication by rename makes a
  failed \<open>put\<close> invisible; a short flush in the destructor of the output stream, which nothing checks, does not.
\<close>

section \<open>The file system\<close>

datatype put_outcome =
    Put_done
  | Dir_fails          \<comment> \<open>\<^verbatim>\<open>create_directories\<close> throws\<close>
  | Open_fails         \<comment> \<open>the stream does not open\<close>
  | Write_fails nat    \<comment> \<open>the stream is bad after \<^verbatim>\<open>write\<close>; some bytes are in the temporary file\<close>
  | Flush_short nat    \<comment> \<open>the buffered rest is lost when the destructor closes the stream\<close>
  | Rename_fails

record blob_store =
  bs_dir :: string
  bs_files :: "string \<rightharpoonup> bytes"
  bs_puts :: "put_outcome list"
  bs_reads :: "bool list"

text \<open>\<^verbatim>\<open>operator/\<close> of \<^verbatim>\<open>std::filesystem::path\<close>: an absolute right operand replaces the left one.\<close>

definition path_join :: "string \<Rightarrow> string \<Rightarrow> string" where
  "path_join d k =
     (if k \<noteq> [] \<and> hd k = CHR ''/'' then k
      else if d = [] \<or> last d = CHR ''/'' then d @ k
      else d @ ''/'' @ k)"

section \<open>Operations\<close>

text \<open>The constructor creates the directory; whether that succeeds is an argument.\<close>

definition open_blobs :: "bool \<Rightarrow> blob_store \<Rightarrow> blob_store res" where
  "open_blobs created b = (if created then Inr b else Inl System_error)"

definition path_for :: "blob_store \<Rightarrow> string \<Rightarrow> string" where
  "path_for b key = path_join (bs_dir b) key"

definition blob_put :: "string \<Rightarrow> bytes \<Rightarrow> blob_store \<Rightarrow> blob_store \<times> unit res" where
  "blob_put key data b =
     (let p = path_for b key; tmp = p @ ''.tmp''; b1 = b\<lparr>bs_puts := tl (bs_puts b)\<rparr>;
          publish = (\<lambda>d. b1\<lparr>bs_files := (bs_files b)(tmp := None, p \<mapsto> d)\<rparr>)
      in case (case bs_puts b of [] \<Rightarrow> Put_done | x # _ \<Rightarrow> x) of
           Put_done \<Rightarrow> (publish data, Inr ())
         | Dir_fails \<Rightarrow> (b1, Inl System_error)
         | Open_fails \<Rightarrow> (b1, Inl Runtime_error)
         | Write_fails n \<Rightarrow>
             if data = [] then (publish data, Inr ())
             else (b1\<lparr>bs_files := (bs_files b)(tmp \<mapsto> take n data)\<rparr>, Inl Runtime_error)
         | Flush_short n \<Rightarrow> (publish (take n data), Inr ())
         | Rename_fails \<Rightarrow> (b1\<lparr>bs_files := (bs_files b)(tmp \<mapsto> data)\<rparr>, Inl System_error))"

definition blob_get :: "string \<Rightarrow> blob_store \<Rightarrow> blob_store \<times> bytes res" where
  "blob_get key b =
     (case bs_files b (path_for b key) of
        None \<Rightarrow> (b, Inl Runtime_error)
      | Some d \<Rightarrow>
          (b\<lparr>bs_reads := tl (bs_reads b)\<rparr>,
           if bs_reads b \<noteq> [] \<and> \<not> hd (bs_reads b) then Inl Runtime_error else Inr d))"

definition blob_exists :: "string \<Rightarrow> blob_store \<Rightarrow> bool" where
  "blob_exists key b \<longleftrightarrow> bs_files b (path_for b key) \<noteq> None"

section \<open>The interface\<close>

text \<open>\<^verbatim>\<open>class BlobStore\<close>, over the map from keys to contents.\<close>

locale blob_seam =
  fixes put :: "string \<Rightarrow> bytes \<Rightarrow> 'b \<Rightarrow> 'b \<times> unit res"
    and get :: "string \<Rightarrow> 'b \<Rightarrow> 'b \<times> bytes res"
    and exists :: "string \<Rightarrow> 'b \<Rightarrow> bool"
    and look :: "'b \<Rightarrow> string \<Rightarrow> bytes option"
    and key_ok :: "string \<Rightarrow> bool"
    and good :: "'b \<Rightarrow> bool"
  assumes put_ok: "good b \<Longrightarrow> key_ok k \<Longrightarrow> \<exists>b'. put k d b = (b', Inr ()) \<and> good b' \<and> look b' k = Some d
      \<and> (\<forall>j. key_ok j \<longrightarrow> j \<noteq> k \<longrightarrow> look b' j = look b j)"
    and get_ok: "good b \<Longrightarrow> \<exists>b'. get k b = (b', case look b k of None \<Rightarrow> Inl Runtime_error | Some d \<Rightarrow> Inr d)
      \<and> good b' \<and> look b' = look b"
    and exists_ok: "exists k b \<longleftrightarrow> look b k \<noteq> None"
begin

lemma get_put:
  assumes "good b" and "key_ok k"
  shows "exists k (fst (put k d b)) \<and> snd (get k (fst (put k d b))) = Inr d"
proof -
  obtain b' where b': "put k d b = (b', Inr ())" "good b'" "look b' k = Some d"
    using put_ok [OF assms] by blast
  moreover obtain b'' where "get k b' = (b'', case look b' k of None \<Rightarrow> Inl Runtime_error | Some d \<Rightarrow> Inr d)"
    using get_ok [OF b'(2)] by blast
  ultimately show ?thesis
    by (simp add: exists_ok)
qed

lemma get_put_other:
  assumes "good b" and "key_ok k" and "key_ok j" and "j \<noteq> k"
  shows "exists j (fst (put k d b)) = exists j b \<and> snd (get j (fst (put k d b))) = snd (get j b)"
proof -
  obtain b' where b': "put k d b = (b', Inr ())" "good b'" "look b' j = look b j"
    using put_ok [OF assms(1,2)] assms(3,4) by blast
  moreover obtain b1 b2 where "get j b' = (b1, case look b' j of None \<Rightarrow> Inl Runtime_error | Some d \<Rightarrow> Inr d)"
    "get j b = (b2, case look b j of None \<Rightarrow> Inl Runtime_error | Some d \<Rightarrow> Inr d)"
    using get_ok [OF b'(2)] get_ok [OF assms(1)] by meson
  ultimately show ?thesis
    by (simp add: exists_ok)
qed

end

definition blob_look :: "blob_store \<Rightarrow> string \<Rightarrow> bytes option" where
  "blob_look b k = bs_files b (path_for b k)"

text \<open>A relative key that is not the name of a temporary file.\<close>

definition blob_key :: "string \<Rightarrow> bool" where
  "blob_key k \<longleftrightarrow> k \<noteq> [] \<and> hd k \<noteq> CHR ''/'' \<and> \<not> suffix ''.tmp'' k"

definition blob_good :: "blob_store \<Rightarrow> bool" where
  "blob_good b \<longleftrightarrow> set (bs_puts b) \<subseteq> {Put_done} \<and> False \<notin> set (bs_reads b)"

lemma path_for_inj:
  assumes "blob_key j" and "blob_key k"
  shows "path_for b j = path_for b k \<longleftrightarrow> j = k" "path_for b j \<noteq> path_for b k @ ''.tmp''"
proof -
  show "path_for b j = path_for b k \<longleftrightarrow> j = k"
    using assms by (auto simp: path_for_def path_join_def blob_key_def)
  have "path_for b k @ ''.tmp'' = path_for b (k @ ''.tmp'')"
    using assms(2) by (auto simp: path_for_def path_join_def blob_key_def)
  moreover have "path_for b j = path_for b (k @ ''.tmp'') \<longleftrightarrow> j = k @ ''.tmp''"
    using assms by (auto simp: path_for_def path_join_def blob_key_def)
  moreover have "j \<noteq> k @ ''.tmp''"
    using assms(1) by (auto simp: blob_key_def suffix_def)
  ultimately show "path_for b j \<noteq> path_for b k @ ''.tmp''"
    by simp
qed

lemma path_for_update [simp]:
  "path_for (b\<lparr>bs_files := f\<rparr>) k = path_for b k" "path_for (b\<lparr>bs_puts := p\<rparr>) k = path_for b k"
  "path_for (b\<lparr>bs_reads := r\<rparr>) k = path_for b k"
  by (simp_all add: path_for_def)

interpretation file_blobs: blob_seam blob_put blob_get blob_exists blob_look blob_key blob_good
proof
  fix b k and d :: bytes
  assume good: "blob_good b" and k: "blob_key k"
  let ?b = "b\<lparr>bs_puts := tl (bs_puts b), bs_files := (bs_files b)(path_for b k @ ''.tmp'' := None, path_for b k \<mapsto> d)\<rparr>"
  have "blob_put k d b = (?b, Inr ())"
    using good by (cases "bs_puts b") (auto simp: blob_put_def blob_good_def Let_def)
  moreover have "blob_good ?b"
    using good by (cases "bs_puts b") (auto simp: blob_good_def)
  moreover have "blob_look ?b k = Some d"
    by (simp add: blob_look_def)
  moreover have "blob_look ?b j = blob_look b j" if "blob_key j" "j \<noteq> k" for j
    using that path_for_inj [OF that(1) k] by (simp add: blob_look_def)
  ultimately show "\<exists>b'. blob_put k d b = (b', Inr ()) \<and> blob_good b' \<and> blob_look b' k = Some d
      \<and> (\<forall>j. blob_key j \<longrightarrow> j \<noteq> k \<longrightarrow> blob_look b' j = blob_look b j)"
    by blast
next
  fix b k
  assume good: "blob_good b"
  show "\<exists>b'. blob_get k b = (b', case blob_look b k of None \<Rightarrow> Inl Runtime_error | Some d \<Rightarrow> Inr d)
      \<and> blob_good b' \<and> blob_look b' = blob_look b"
    using good by (cases "bs_reads b")
      (auto simp: blob_get_def blob_look_def blob_good_def fun_eq_iff split: option.split)
next
  fix b k
  show "blob_exists k b \<longleftrightarrow> blob_look b k \<noteq> None"
    by (simp add: blob_exists_def blob_look_def)
qed

section \<open>Properties\<close>

text \<open>C36: A \<open>put\<close> that throws, at whatever point, leaves the contents of its key as they were, and those of every other
  key but one: the key that names the temporary file, the path of the key with \<^verbatim>\<open>.tmp\<close> appended, may be left with the
  first bytes of the data. A snapshot is published whole or not at all as far as errors are reported.\<close>

theorem blob_put_atomic:
  assumes "blob_put k d b = (b', Inl e)"
  shows "blob_look b' k = blob_look b k
    \<and> (\<forall>j. blob_look b' j = blob_look b j \<or> path_for b j = path_for b k @ ''.tmp'' \<and> (\<exists>n. blob_look b' j = Some (take n d)))"
  using assms by (auto simp: blob_put_def blob_look_def Let_def intro: exI [of _ "length d"] split: put_outcome.splits if_splits)

definition blobs_with :: "put_outcome list \<Rightarrow> blob_store" where
  "blobs_with os = \<lparr>bs_dir = ''data'', bs_files = [''data/snapshot'' \<mapsto> [1]], bs_puts = os, bs_reads = []\<rparr>"

theorem blob_put_atomic_witness:
  "\<exists>b'. blob_put ''snapshot'' [2, 3] (blobs_with [Write_fails 1]) = (b', Inl Runtime_error)
     \<and> blob_look b' ''snapshot'' = Some [1] \<and> blob_look b' ''other'' = None \<and> blob_look b' ''snapshot.tmp'' = Some [2]"
proof -
  let ?b = "blobs_with [Write_fails 1]"
  obtain b' where b': "blob_put ''snapshot'' [2, 3] ?b = (b', Inl Runtime_error)" "blob_look b' ''snapshot.tmp'' = Some [2]"
    by (simp add: blob_put_def blobs_with_def Let_def blob_look_def path_for_def path_join_def)
  have "blob_look b' ''snapshot'' = blob_look ?b ''snapshot''" "blob_look b' ''other'' = blob_look ?b ''other''"
    using blob_put_atomic [OF b'(1)] by (auto simp: path_for_def path_join_def blobs_with_def)
  with b' show ?thesis
    by (simp add: blob_look_def blobs_with_def path_for_def path_join_def)
qed

text \<open>Without failures a \<open>get\<close> returns what was last \<open>put\<close> under the key, and other keys are unaffected.\<close>

lemma blob_get_put:
  assumes "blob_good b" and "blob_key k" and "blob_key j"
  shows "snd (blob_get j (fst (blob_put k d b))) = (if j = k then Inr d else snd (blob_get j b))"
  using file_blobs.get_put [OF assms(1,2)] file_blobs.get_put_other [OF assms(1-3)] by simp

lemma blob_get_put_witness: "snd (blob_get ''snapshot'' (fst (blob_put ''snapshot'' [7] (blobs_with [])))) = Inr [7]"
  using blob_get_put [of "blobs_with []" "''snapshot''" "''snapshot''" "[7]"]
  by (simp add: blob_good_def blobs_with_def blob_key_def suffix_def)

text \<open>
  A short flush goes unnoticed: the stream is tested before its destructor writes the buffered rest,
  so \<open>put\<close> can succeed and replace a good snapshot by a truncated one.
\<close>

lemma blob_put_short_flush:
  "\<exists>b'. blob_put ''snapshot'' [2, 3] (blobs_with [Flush_short 1]) = (b', Inr ())
     \<and> blob_look b' ''snapshot'' = Some [2]"
  by (simp add: blob_put_def blobs_with_def Let_def blob_look_def path_for_def path_join_def)

end
