(* ===== verification/Engine.thy ===== *)
theory Engine
  imports Index Log_Store Blob_Store
begin

text \<open>
  \<^verbatim>\<open>include/toyvdb/engine.hpp\<close> and \<^verbatim>\<open>src/engine.cpp\<close>: the facade that owns the store, the index, the
  write-ahead log and the snapshot store. Operations that touch the log or the snapshots return the
  engine they leave behind next to their result: an exception after the log was written keeps the record.
  Exceptions of the in-memory part leave the memory as it was, since the store validates before it writes.
\<close>

section \<open>State\<close>

datatype index_kind = Flat_kind | Hnsw_kind

record persistence_config =
  pc_dir :: string
  pc_sync :: sync_policy

record engine_config =
  cfg_dim :: dim
  cfg_metric :: metric_kind
  cfg_index :: index_kind
  cfg_hnsw :: hnsw_params
  cfg_persistence :: "persistence_config option"

record engine =
  eng_cfg :: engine_config
  eng_store :: vector_store
  eng_index :: index
  eng_wal :: "log_store option"
  eng_blobs :: "blob_store option"

definition kSnapshotKey :: string where
  "kSnapshotKey = ''snapshot''"

definition make_index :: "engine_config \<Rightarrow> index" where
  "make_index cfg =
     (case cfg_index cfg of
        Flat_kind \<Rightarrow> Flat (make_flat_index (cfg_metric cfg))
      | Hnsw_kind \<Rightarrow> Hnsw (make_hnsw_index (cfg_metric cfg) (cfg_hnsw cfg)))"

definition durable :: "engine \<Rightarrow> bool" where
  "durable e \<longleftrightarrow> eng_wal e \<noteq> None"

section \<open>Mutations\<close>

text \<open>The in-memory part of \<^verbatim>\<open>apply_op\<close>.\<close>

definition apply_mem :: "op \<Rightarrow> vector_store \<times> index \<Rightarrow> (internal_id \<times> vector_store \<times> index) res" where
  "apply_mem p = (\<lambda>(s, x).
     case op_type p of
       Insert \<Rightarrow>
         rbind (resolve s (op_ext_id p)) (\<lambda>r.
         rbind (vs_apply p s) (\<lambda>(i, s').
           case i of
             None \<Rightarrow> Inl Bad_optional_access
           | Some i \<Rightarrow>
               if r = None
               then rbind (vs_get s' i) (\<lambda>_. rbind (index_add s' i x) (\<lambda>x'. Inr (i, s', x')))
               else Inr (i, s', x)))
     | Update \<Rightarrow> rbind (vs_apply p s) (\<lambda>(_, s'). Inr (kInvalidId, s', x))
     | Delete \<Rightarrow>
         rbind (vs_apply p s) (\<lambda>(i, s').
           Inr (kInvalidId, s', case i of None \<Rightarrow> x | Some i \<Rightarrow> index_remove i x)))"

definition log_op :: "op \<Rightarrow> engine \<Rightarrow> engine \<times> unit res" where
  "log_op p e =
     (case eng_wal e of
        None \<Rightarrow> (e, Inr ())
      | Some w \<Rightarrow> (case log_append (encode_op p) w of (w', r) \<Rightarrow> (e\<lparr>eng_wal := Some w'\<rparr>, r)))"

definition apply_op :: "op \<Rightarrow> bool \<Rightarrow> engine \<Rightarrow> engine \<times> internal_id res" where
  "apply_op p log_it e =
     (case (if log_it then log_op p e else (e, Inr ())) of
        (e1, Inl er) \<Rightarrow> (e1, Inl er)
      | (e1, Inr _) \<Rightarrow>
          (case apply_mem p (eng_store e1, eng_index e1) of
             Inl er \<Rightarrow> (e1, Inl er)
           | Inr (i, s, x) \<Rightarrow> (e1\<lparr>eng_store := s, eng_index := x\<rparr>, Inr i)))"

definition engine_insert :: "string \<Rightarrow> fvec \<Rightarrow> metadata \<Rightarrow> engine \<Rightarrow> engine \<times> internal_id res" where
  "engine_insert ext_id vec meta e =
     apply_op \<lparr>op_type = Insert, op_ext_id = ext_id, op_vec = vec, op_meta = Some meta\<rparr> True e"

definition engine_update ::
  "string \<Rightarrow> fvec \<Rightarrow> metadata option \<Rightarrow> engine \<Rightarrow> engine \<times> bool res" where
  "engine_update ext_id vec meta e =
     (case resolve (eng_store e) ext_id of
        Inl er \<Rightarrow> (e, Inl er)
      | Inr None \<Rightarrow> (e, Inr False)
      | Inr (Some _) \<Rightarrow>
          (case apply_op \<lparr>op_type = Update, op_ext_id = ext_id, op_vec = vec, op_meta = meta\<rparr> True e of
             (e', Inl er) \<Rightarrow> (e', Inl er)
           | (e', Inr _) \<Rightarrow> (e', Inr True)))"

definition engine_erase :: "string \<Rightarrow> engine \<Rightarrow> engine \<times> bool res" where
  "engine_erase ext_id e =
     (case resolve (eng_store e) ext_id of
        Inl er \<Rightarrow> (e, Inl er)
      | Inr None \<Rightarrow> (e, Inr False)
      | Inr (Some _) \<Rightarrow>
          (case apply_op \<lparr>op_type = Delete, op_ext_id = ext_id, op_vec = [], op_meta = None\<rparr> True e of
             (e', Inl er) \<Rightarrow> (e', Inl er)
           | (e', Inr _) \<Rightarrow> (e', Inr True)))"

section \<open>Queries\<close>

text \<open>The loop that resolves a filter into the set of admitted ids.\<close>

definition allowed_set :: "vector_store \<Rightarrow> filter \<Rightarrow> bitset res" where
  "allowed_set s f =
     rfold (\<lambda>i b.
       if is_live s (of_nat i) \<and> (case vs_metadata s (of_nat i) of None \<Rightarrow> False | Some m \<Rightarrow> matches f m)
       then bitset_set i b else Inr b)
       [0..<slot_count s] (bitset_resize (slot_count s))"

definition query_params :: "nat \<Rightarrow> bitset option \<Rightarrow> search_params" where
  "query_params ef allowed =
     default_params\<lparr>sp_ef := (if 0 < ef then ef else sp_ef default_params), sp_allowed := allowed\<rparr>"

definition engine_search ::
  "fvec \<Rightarrow> nat \<Rightarrow> filter option \<Rightarrow> nat \<Rightarrow> engine \<Rightarrow> search_result list res" where
  "engine_search q k f ef e =
     (if length q \<noteq> unat (vs_dim (eng_store e)) then Inl Invalid_argument
      else if k = 0 then Inr []
      else case f of
          None \<Rightarrow> index_search (eng_store e) (eng_index e) q k (query_params ef None)
        | Some f \<Rightarrow>
            rbind (allowed_set (eng_store e) f) (\<lambda>b.
              index_search (eng_store e) (eng_index e) q k (query_params ef (Some b))))"

text \<open>One assignment \<^verbatim>\<open>results[i] = ...\<close> of a worker, and the index ranges of the workers.\<close>

definition batch_step ::
  "engine \<Rightarrow> fvec list \<Rightarrow> nat \<Rightarrow> search_params \<Rightarrow> nat \<Rightarrow> search_result list list \<Rightarrow> search_result list list res" where
  "batch_step e queries k params i results =
     rbind (vget queries i) (\<lambda>q.
     rbind (index_search (eng_store e) (eng_index e) q k params) (\<lambda>r. vset results i r))"

definition worker_ranges :: "nat \<Rightarrow> nat \<Rightarrow> (nat \<times> nat) list" where
  "worker_ranges qn tcount =
     (let chunk = (qn + tcount - 1) div tcount
      in map (\<lambda>t. (t * chunk, min (t * chunk + chunk) qn))
           (takeWhile (\<lambda>t. t * chunk < qn) [0..<tcount]))"

text \<open>
  The batch with its assignments executed in the order \<open>schedule\<close> picks from the work of all workers; the
  hardware concurrency is a parameter.
\<close>

definition batch_order ::
  "((nat \<times> nat) list \<Rightarrow> nat list) \<Rightarrow> nat \<Rightarrow> nat \<Rightarrow> nat \<Rightarrow> nat list" where
  "batch_order schedule hardware num_threads qn =
     (let threads = (if num_threads = 0 then max 1 hardware else num_threads);
          tcount = min threads qn
      in if tcount \<le> 1 then [0..<qn] else schedule (worker_ranges qn tcount))"

definition search_batch ::
  "((nat \<times> nat) list \<Rightarrow> nat list) \<Rightarrow> nat \<Rightarrow> fvec list \<Rightarrow> nat \<Rightarrow> filter option \<Rightarrow> nat \<Rightarrow> nat \<Rightarrow>
   engine \<Rightarrow> search_result list list res" where
  "search_batch schedule hardware queries k f ef num_threads e =
     (let qn = length queries; results = replicate qn []
      in if qn = 0 then Inr results
         else if \<exists>q \<in> set queries. length q \<noteq> unat (vs_dim (eng_store e)) then Inl Invalid_argument
         else if k = 0 then Inr results
         else
           rbind (case f of None \<Rightarrow> Inr None | Some f \<Rightarrow> rbind (allowed_set (eng_store e) f) (\<lambda>b. Inr (Some b)))
             (\<lambda>allowed.
               rfold (batch_step e queries k (query_params ef allowed))
                 (batch_order schedule hardware num_threads qn) results))"

section \<open>Durability\<close>

definition engine_flush :: "engine \<Rightarrow> engine \<times> unit res" where
  "engine_flush e =
     (case eng_wal e of
        None \<Rightarrow> (e, Inr ())
      | Some w \<Rightarrow> (case log_sync w of (w', r) \<Rightarrow> (e\<lparr>eng_wal := Some w'\<rparr>, r)))"

definition live_ids :: "vector_store \<Rightarrow> nat list" where
  "live_ids s = List.filter (\<lambda>i. is_live s (of_nat i)) [0..<slot_count s]"

text \<open>The entry of a live slot, as an insertion.\<close>

definition live_entry :: "vector_store \<Rightarrow> nat \<Rightarrow> op res" where
  "live_entry s i =
     rbind (external_id s (of_nat i)) (\<lambda>k.
     rbind (vs_get s (of_nat i)) (\<lambda>v.
       Inr \<lparr>op_type = Insert, op_ext_id = k, op_vec = v, op_meta = vs_metadata s (of_nat i)\<rparr>))"

definition snapshot_record :: "op \<Rightarrow> bytes" where
  "snapshot_record p = (let rec = encode_op p in w_u32 (of_nat (length rec)) @ rec)"

definition snapshot_bytes :: "vector_store \<Rightarrow> bytes res" where
  "snapshot_bytes s =
     rfold (\<lambda>i out. rbind (live_entry s i) (\<lambda>p. Inr (out @ snapshot_record p))) (live_ids s) []"

definition engine_snapshot :: "engine \<Rightarrow> engine \<times> unit res" where
  "engine_snapshot e =
     (case eng_blobs e of
        None \<Rightarrow> (e, Inr ())
      | Some b \<Rightarrow>
          (case snapshot_bytes (eng_store e) of
             Inl er \<Rightarrow> (e, Inl er)
           | Inr out \<Rightarrow>
               (case blob_put kSnapshotKey out b of
                  (b', Inl er) \<Rightarrow> (e\<lparr>eng_blobs := Some b'\<rparr>, Inl er)
                | (b', Inr _) \<Rightarrow>
                    (let e1 = e\<lparr>eng_blobs := Some b'\<rparr>
                     in case eng_wal e1 of
                          None \<Rightarrow> (e1, Inr ())
                        | Some w \<Rightarrow> (case log_truncate w of (w', r) \<Rightarrow> (e1\<lparr>eng_wal := Some w'\<rparr>, r))))))"

definition compact_entries :: "vector_store \<Rightarrow> op list res" where
  "compact_entries s =
     rfold (\<lambda>i out. rbind (live_entry s i) (\<lambda>p.
       Inr (out @ [p\<lparr>op_meta := Some (case op_meta p of Some m \<Rightarrow> m | None \<Rightarrow> [])\<rparr>]))) (live_ids s) []"

definition reinsert :: "op \<Rightarrow> vector_store \<times> index \<Rightarrow> (vector_store \<times> index) res" where
  "reinsert p = (\<lambda>(s, x).
     rbind (vs_insert (op_ext_id p) (op_vec p) (case op_meta p of Some m \<Rightarrow> m | None \<Rightarrow> []) s) (\<lambda>(i, s').
     rbind (vs_get s' i) (\<lambda>_. rbind (index_add s' i x) (\<lambda>x'. Inr (s', x')))))"

text \<open>
  Compaction. The state is only described where the rebuilding succeeds: its failures are undefined
  behaviour or a dimension mismatch, and \<open>compact_mem\<close> (theory \<open>Engine_Durability\<close>) excludes both
  for every engine in good order.
\<close>

definition engine_compact :: "engine \<Rightarrow> engine \<times> unit res" where
  "engine_compact e =
     (case rbind (compact_entries (eng_store e)) (\<lambda>live.
             rbind (vs_new (cfg_dim (eng_cfg e))) (\<lambda>s.
               rfold reinsert live (s, make_index (eng_cfg e)))) of
        Inl er \<Rightarrow> (e, Inl er)
      | Inr (s, x) \<Rightarrow>
          (let e1 = e\<lparr>eng_store := s, eng_index := x\<rparr>
           in if eng_blobs e1 = None then (e1, Inr ()) else engine_snapshot e1))"

section \<open>Recovery\<close>

definition replay_op :: "bytes \<Rightarrow> vector_store \<times> index \<Rightarrow> (vector_store \<times> index) res" where
  "replay_op rec m = rbind (decode_op rec) (\<lambda>p. rbind (apply_mem p m) (\<lambda>(_, m'). Inr m'))"

text \<open>The loop of \<^verbatim>\<open>replay_blob\<close> over the unread rest of the snapshot.\<close>

function replay_blob :: "bytes \<Rightarrow> vector_store \<times> index \<Rightarrow> (vector_store \<times> index) res" where
  "replay_blob data m =
     (if length data < 4 then Inr m
      else let len = unat (from_le (take 4 data) :: u32); rest = drop 4 data
           in if length rest < len then Inr m
              else rbind (replay_op (take len rest) m) (replay_blob (drop len rest)))"
  by pat_completeness auto
termination
  by (relation "measure (\<lambda>(data, _). length data)") auto

declare replay_blob.simps [simp del]

definition recover :: "engine \<Rightarrow> engine res" where
  "recover e =
     rbind (case eng_blobs e of
              None \<Rightarrow> Inr e
            | Some b \<Rightarrow>
                if blob_exists kSnapshotKey b
                then (case blob_get kSnapshotKey b of
                        (b', r) \<Rightarrow> rbind r (\<lambda>snap. rbind (replay_blob snap (eng_store e, eng_index e)) (\<lambda>(s, x).
                          Inr (e\<lparr>eng_blobs := Some b', eng_store := s, eng_index := x\<rparr>))))
                else Inr e) (\<lambda>e.
       case eng_wal e of
         None \<Rightarrow> Inr e
       | Some w \<Rightarrow>
           rbind (log_replay replay_op w (eng_store e, eng_index e)) (\<lambda>(w', s, x).
             Inr (e\<lparr>eng_wal := Some w', eng_store := s, eng_index := x\<rparr>)))"

text \<open>
  The constructor. Whether the directories can be created, what they hold (the snapshot files and the
  bytes of the log) and the outcomes of the later system calls are arguments.
\<close>

definition engine_new :: "engine_config \<Rightarrow> bool \<Rightarrow> blob_store \<Rightarrow> bytes \<Rightarrow> environment \<Rightarrow> engine res" where
  "engine_new cfg created blobs wal_file env =
     rbind (vs_new (cfg_dim cfg)) (\<lambda>s.
       let e = \<lparr>eng_cfg = cfg, eng_store = s, eng_index = make_index cfg, eng_wal = None, eng_blobs = None\<rparr>
       in case cfg_persistence cfg of
            None \<Rightarrow> Inr e
          | Some p \<Rightarrow>
              rbind (open_blobs created blobs) (\<lambda>b.
              rbind (open_log (pc_sync p) wal_file env) (\<lambda>w.
                recover (e\<lparr>eng_wal := Some w, eng_blobs := Some b\<rparr>))))"

section \<open>The memory refines the logical operations\<close>

definition mem_wf :: "metric_kind \<Rightarrow> vector_store \<times> index \<Rightarrow> bool" where
  "mem_wf mk = (\<lambda>(s, x). store_wf s \<and> coupled s x \<and> index_metric x = mk)"

definition mem_abs :: "vector_store \<times> index \<Rightarrow> string \<rightharpoonup> fvec \<times> metadata" where
  "mem_abs = (\<lambda>(s, x). store_abs s)"

definition mem_dim :: "vector_store \<times> index \<Rightarrow> dim" where
  "mem_dim = (\<lambda>(s, x). vs_dim s)"

definition mem_room :: "vector_store \<times> index \<Rightarrow> nat" where
  "mem_room = (\<lambda>(s, x). store_room s)"

lemma live_entry_resolves:
  assumes "store_wf s" and "is_live s i" and "ext_ids s ! unat i = k"
  shows "resolve s k = Inr (Some i)"
proof -
  have "unat i < length (ext_ids s)"
    using assms(2) store_wfD(4) [OF assms(1)] by (simp add: is_live_def)
  then have "ext_to_int s k = Some i"
    using store_wfD(8) [OF assms(1), of k i] assms(3) by simp
  then show ?thesis
    using assms(1,2) by (simp add: resolve_total is_live_def)
qed

lemma apply_insert:
  assumes m: "store_wf s" "coupled s x" and ok: "op_ok (vs_dim s) p" and t: "op_type p = Insert"
    and room: "ext_to_int s (op_ext_id p) = None \<Longrightarrow> has_room s"
  shows "\<exists>i s' x'. apply_mem p (s, x) = Inr (i, s', x') \<and> store_wf s' \<and> coupled s' x' \<and> vs_dim s' = vs_dim s
    \<and> store_abs s' = spec_apply p (store_abs s) \<and> index_metric x' = index_metric x
    \<and> ext_ids s' = (if ext_to_int s (op_ext_id p) = None then ext_ids s @ [op_ext_id p] else ext_ids s)
    \<and> resolve s' (op_ext_id p) = Inr (Some i)"
proof -
  let ?k = "op_ext_id p" and ?meta = "case op_meta p of Some m \<Rightarrow> m | None \<Rightarrow> []"
  have "meta_wf ?meta" "length (op_vec p) = unat (vs_dim s)"
    using ok t by (auto simp: op_ok_def meta_wf_def split: option.split)
  from do_insert_spec [OF m(1) this(2,1) room] obtain i s' where s':
    "do_insert ?k (op_vec p) ?meta s = Inr (i, s')" "store_wf s'" "vs_dim s' = vs_dim s"
    "store_abs s' = (store_abs s)(?k \<mapsto> (op_vec p, ?meta))" "ext_to_int s' ?k = Some i"
    "ext_ids s' = (if ext_to_int s ?k = None then ext_ids s @ [?k] else ext_ids s)"
    "\<forall>j. is_live s' j \<longleftrightarrow> j = i \<or> is_live s j"
    by blast
  have v: "vs_apply p s = Inr (Some i, s')"
    using s'(1) t by (simp add: vs_apply_def)
  have i: "is_live s' i" "unat i < length (ext_ids s')" "ext_ids s' ! unat i = ?k"
    using s'(7) ext_to_int_bound [OF s'(2,5)] by auto
  then have res: "resolve s' ?k = Inr (Some i)"
    using live_entry_resolves [OF s'(2)] by blast
  have step: "store_step s s' (insert i (live_set s))"
    using s'(2,6,7) by (auto simp: store_step_def slot_count_def live_set_def)
  have spec: "store_abs s' = spec_apply p (store_abs s)"
    using s'(4) t by (simp add: spec_apply_def)
  have get: "vs_get s' i = Inr (slot_vec s' i)"
    using vs_get_slot [OF s'(2)] i(2) by (simp add: slot_count_def)
  obtain r where r: "resolve s ?k = Inr r"
    using resolve_abs [OF m(1)] by blast
  have live_i: "is_live s i \<Longrightarrow> r = Some i"
  proof -
    assume l: "is_live s i"
    then have "unat i < length (ext_ids s)"
      using store_wfD(4) [OF m(1)] by (simp add: is_live_def)
    with i(3) have "ext_ids s ! unat i = ?k"
      using s'(6) by (simp add: nth_append split: if_splits)
    then show "r = Some i"
      using live_entry_resolves [OF m(1) l] r by simp
  qed
  have "\<exists>x'. apply_mem p (s, x) = Inr (i, s', x') \<and> coupled s' x' \<and> index_metric x' = index_metric x"
  proof (cases r)
    case None
    with live_i have "i \<notin> live_set s"
      by (auto simp: live_set_def)
    from dispatch.add_ok [OF m(2) this step] show ?thesis
      using None r v get t by (auto simp: apply_mem_def)
  next
    case (Some j)
    then have "ext_to_int s ?k = Some j" "is_live s j"
      using r m(1) ext_to_int_bound [OF m(1), of ?k j]
      by (auto simp: resolve_total is_live_def split: option.splits if_splits)
    moreover from this(1) have "j = i"
      using s'(5,6) store_wfD(8) [OF m(1), of ?k j] store_wfD(8) [OF s'(2), of ?k j] by simp
    ultimately have "store_step s s' (live_set s)"
      using step by (simp add: insert_absorb live_set_def)
    with dispatch.update_ok [OF m(2)] Some r v t show ?thesis
      by (auto simp: apply_mem_def)
  qed
  with s'(2,3,6) spec res show ?thesis
    by auto
qed

lemma apply_update:
  assumes m: "store_wf s" "coupled s x" and ok: "op_ok (vs_dim s) p" and t: "op_type p = Update"
  shows "\<exists>s'. apply_mem p (s, x) = Inr (kInvalidId, s', x) \<and> store_wf s' \<and> coupled s' x \<and> vs_dim s' = vs_dim s
    \<and> store_abs s' = spec_apply p (store_abs s) \<and> ext_ids s' = ext_ids s"
proof -
  obtain s' r where s': "do_update (op_ext_id p) (op_vec p) (op_meta p) s = Inr (r, s')" "store_wf s'" "vs_dim s' = vs_dim s"
    "store_abs s' = (case store_abs s (op_ext_id p) of None \<Rightarrow> store_abs s
       | Some (_, old) \<Rightarrow> (store_abs s)(op_ext_id p \<mapsto> (op_vec p, case op_meta p of Some x \<Rightarrow> x | None \<Rightarrow> old)))"
    "ext_ids s' = ext_ids s" "live s' = live s"
    using do_update_spec [OF m(1), of "op_vec p" "op_meta p" "op_ext_id p"] ok t by (auto simp: op_ok_def)
  have "store_step s s' (live_set s)"
    using s'(2,5,6) by (simp add: store_step_def slot_count_def live_set_def is_live_def)
  with dispatch.update_ok [OF m(2)] s' t show ?thesis
    by (simp add: apply_mem_def vs_apply_def spec_apply_def)
qed

lemma apply_delete:
  assumes m: "store_wf s" "coupled s x" and t: "op_type p = Delete"
  shows "\<exists>s' x'. apply_mem p (s, x) = Inr (kInvalidId, s', x') \<and> store_wf s' \<and> coupled s' x' \<and> vs_dim s' = vs_dim s
    \<and> store_abs s' = spec_apply p (store_abs s) \<and> ext_ids s' = ext_ids s \<and> index_metric x' = index_metric x"
proof -
  obtain s' r where s': "do_erase (op_ext_id p) s = Inr (r, s')" "store_wf s'" "vs_dim s' = vs_dim s"
    "store_abs s' = (store_abs s)(op_ext_id p := None)" "ext_ids s' = ext_ids s"
    "\<forall>j. is_live s' j \<longleftrightarrow> r \<noteq> Some j \<and> is_live s j"
    using do_erase_spec [OF m(1), of "op_ext_id p"] by blast
  show ?thesis
  proof (cases r)
    case None
    then have "store_step s s' (live_set s)"
      using s'(2,5,6) by (simp add: store_step_def slot_count_def live_set_def)
    with dispatch.update_ok [OF m(2)] s' t None show ?thesis
      by (simp add: apply_mem_def vs_apply_def spec_apply_def)
  next
    case (Some i)
    then have "store_step s s' (live_set s - {i})"
      using s'(2,5,6) by (auto simp: store_step_def slot_count_def live_set_def)
    with dispatch.remove_ok [OF m(2)] s' t Some show ?thesis
      by (simp add: apply_mem_def vs_apply_def spec_apply_def)
  qed
qed

lemma apply_mem_ok:
  assumes "store_wf s" and "coupled s x" and "op_ok (vs_dim s) p"
    and "op_type p = Insert \<Longrightarrow> ext_to_int s (op_ext_id p) = None \<Longrightarrow> has_room s"
  shows "\<exists>i s' x'. apply_mem p (s, x) = Inr (i, s', x') \<and> store_wf s' \<and> coupled s' x' \<and> vs_dim s' = vs_dim s
    \<and> store_abs s' = spec_apply p (store_abs s) \<and> index_metric x' = index_metric x
    \<and> length (ext_ids s') \<le> Suc (length (ext_ids s))
    \<and> (if op_type p = Insert then resolve s' (op_ext_id p) = Inr (Some i) else i = kInvalidId)"
proof (cases "op_type p")
  case Insert
  with apply_insert [OF assms(1-3) Insert] assms(4) show ?thesis
    by (auto split: if_splits)
next
  case Update
  with apply_update [OF assms(1-3) Update] show ?thesis
    by auto
next
  case Delete
  with apply_delete [OF assms(1,2) Delete] show ?thesis
    by auto
qed

interpretation memory: op_store apply_mem "mem_wf mk" mem_abs mem_dim mem_room for mk
proof
  fix m p
  assume "mem_wf mk m" and "op_ok (mem_dim m) p" and "0 < mem_room m"
  moreover obtain s x where "m = (s, x)" by (cases m)
  moreover have "0 < store_room s \<Longrightarrow> has_room s"
    by (simp add: store_room_def has_room_def slot_count_def)
  ultimately show "\<exists>r m'. apply_mem p m = Inr (r, m') \<and> mem_wf mk m' \<and> mem_dim m' = mem_dim m
      \<and> mem_room m \<le> Suc (mem_room m') \<and> mem_abs m' = spec_apply p (mem_abs m)"
    using apply_mem_ok [of s x p]
    by (fastforce simp: mem_wf_def mem_dim_def mem_room_def mem_abs_def store_room_def slot_count_def)
qed

section \<open>Replaying a history\<close>

text \<open>The operations the engine records: encodable, in a record whose length fits its field.\<close>

definition op_loggable :: "op \<Rightarrow> bool" where
  "op_loggable p \<longleftrightarrow> op_encodable p \<and> record_ok (encode_op p) \<and> canonical p = p \<and> (op_type p = Insert \<longrightarrow> op_meta p \<noteq> None)"

definition run_ops :: "op list \<Rightarrow> vector_store \<times> index \<Rightarrow> (vector_store \<times> index) res" where
  "run_ops ps m = rfold (\<lambda>p m. rbind (apply_mem p m) (\<lambda>(_, m'). Inr m')) ps m"

lemma replay_op_encoded:
  assumes "op_loggable p"
  shows "replay_op (encode_op p) m = rbind (apply_mem p m) (\<lambda>(_, m'). Inr m')"
  using decode_op_take [of p "length (encode_op p)" "[]"] assms by (simp add: replay_op_def op_loggable_def)

lemma replay_records:
  assumes "\<forall>p \<in> set ps. op_loggable p"
  shows "rfold replay_op (map encode_op ps) m = run_ops ps m"
  using assms
proof (induction ps arbitrary: m)
  case (Cons p ps)
  then show ?case
    by (cases "apply_mem p m") (auto simp: run_ops_def replay_op_encoded rbind_assoc)
qed (simp add: run_ops_def)

lemma replay_blob_record:
  assumes "op_loggable p"
  shows "replay_blob (snapshot_record p @ rest) m = rbind (rbind (apply_mem p m) (\<lambda>(_, m'). Inr m')) (replay_blob rest)"
proof -
  have "from_le (take 4 (snapshot_record p @ rest)) = (of_nat (length (encode_op p)) :: u32)"
    "drop 4 (snapshot_record p @ rest) = encode_op p @ rest" "\<not> length (snapshot_record p @ rest) < 4"
    by (simp_all add: snapshot_record_def Let_def w_u32_def from_le_to_le)
  moreover have "unat (of_nat (length (encode_op p)) :: u32) = length (encode_op p)"
    using assms by (simp add: op_loggable_def record_ok_def)
  ultimately show ?thesis
    using replay_op_encoded [OF assms, of m] by (subst replay_blob.simps) (simp add: Let_def)
qed

lemma replay_blob_records:
  assumes "\<forall>p \<in> set ps. op_loggable p"
  shows "replay_blob (concat (map snapshot_record ps)) m = run_ops ps m"
  using assms
proof (induction ps arbitrary: m)
  case Nil
  then show ?case
    by (simp add: run_ops_def replay_blob.simps)
next
  case (Cons p ps)
  then show ?case
    by (cases "apply_mem p m") (auto simp: run_ops_def replay_blob_record)
qed

lemma run_ops_ok:
  assumes "mem_wf mk m" and "\<forall>p \<in> set ps. op_ok (mem_dim m) p" and "length ps \<le> mem_room m"
  shows "\<exists>m'. run_ops ps m = Inr m' \<and> mem_wf mk m' \<and> mem_dim m' = mem_dim m
    \<and> mem_room m \<le> mem_room m' + length ps \<and> mem_abs m' = fold spec_apply ps (mem_abs m)"
  using memory.run_refines [OF assms] by (simp add: run_ops_def memory.run_def)

section \<open>Idempotence of histories\<close>

text \<open>
  Replaying a history on top of its own result changes nothing: an insertion or a deletion of a key
  forgets what was there, and updates alone leave what they set.
\<close>

definition key_apply :: "op \<Rightarrow> (fvec \<times> metadata) option \<Rightarrow> (fvec \<times> metadata) option" where
  "key_apply p v =
     (case op_type p of
        Insert \<Rightarrow> Some (op_vec p, case op_meta p of Some x \<Rightarrow> x | None \<Rightarrow> [])
      | Update \<Rightarrow> map_option (\<lambda>(_, old). (op_vec p, case op_meta p of Some x \<Rightarrow> x | None \<Rightarrow> old)) v
      | Delete \<Rightarrow> None)"

lemma spec_apply_key:
  "spec_apply p m k = (if op_ext_id p = k then key_apply p (m k) else m k)"
  by (auto simp: spec_apply_def key_apply_def split: op_type.split option.split)

lemma fold_spec_key:
  "fold spec_apply ps m k = fold key_apply (List.filter (\<lambda>p. op_ext_id p = k) ps) (m k)"
  by (induction ps arbitrary: m) (simp_all add: spec_apply_key)

text \<open>The effect of a history on one key: constant, or of the form of an update, or nothing.\<close>

lemma fold_key_forms:
  "(\<exists>c. \<forall>v. fold key_apply ps v = c)
   \<or> (\<exists>x f. (\<forall>old. f (f old) = f old) \<and> (\<forall>v. fold key_apply ps v = map_option (\<lambda>(_, old). (x, f old)) v))
   \<or> (\<forall>v. fold key_apply ps v = v)"
proof (induction ps rule: rev_induct)
  case (snoc p ps)
  show ?case
  proof (cases "op_type p")
    case Update
    let ?g = "\<lambda>old. case op_meta p of Some x \<Rightarrow> x | None \<Rightarrow> old"
    have step: "fold key_apply (ps @ [p]) v = map_option (\<lambda>(_, old). (op_vec p, ?g old)) (fold key_apply ps v)" for v
      using Update by (simp add: key_apply_def)
    from snoc.IH show ?thesis
    proof (elim disjE exE conjE)
      fix x f
      assume f: "\<forall>old. f (f old) = f old" "\<forall>v. fold key_apply ps v = map_option (\<lambda>(_, old). (x, f old)) v"
      have "fold key_apply (ps @ [p]) v = map_option (\<lambda>(_, old). (op_vec p, ?g (f old))) v" for v
        unfolding step f(2) [rule_format] by (cases v) auto
      moreover have "?g (f (?g (f old))) = ?g (f old)" for old
        using f(1) by (cases "op_meta p") simp_all
      ultimately show ?thesis
        by (intro disjI2 disjI1 exI [of _ "op_vec p"] exI [of _ "\<lambda>old. ?g (f old)"]) simp
    next
      assume "\<forall>v. fold key_apply ps v = v"
      with step have "\<forall>v. fold key_apply (ps @ [p]) v = map_option (\<lambda>(_, old). (op_vec p, ?g old)) v"
        by simp
      moreover have "?g (?g old) = ?g old" for old
        by (cases "op_meta p") simp_all
      ultimately show ?thesis
        by (intro disjI2 disjI1 exI [of _ "op_vec p"] exI [of _ ?g]) simp
    qed (use step in auto)
  qed (auto simp: key_apply_def)
qed simp

lemma fold_key_idem: "fold key_apply ps (fold key_apply ps v) = fold key_apply ps v"
  using fold_key_forms [of ps] by (elim disjE exE conjE; cases v) auto

lemma history_idempotent: "fold spec_apply ps (fold spec_apply ps m) = fold spec_apply ps m"
  by (rule ext) (simp only: fold_spec_key fold_key_idem)

end
