(* ===== verification/Engine_Queries.thy ===== *)
theory Engine_Queries
  imports Engine
begin

text \<open>
  The query path of \<^verbatim>\<open>src/engine.cpp\<close>. A filter becomes exactly the set of live entries whose metadata it
  matches; a search returns entries of the abstract map with their true distances, all of the nearest ones
  when the index is flat; a batch returns what the single searches return, for every interleaving of its
  workers.
\<close>

section \<open>Filters\<close>

definition engine_wf :: "engine \<Rightarrow> bool" where
  "engine_wf e \<longleftrightarrow> mem_wf (cfg_metric (eng_cfg e)) (eng_store e, eng_index e) \<and> vs_dim (eng_store e) = cfg_dim (eng_cfg e)"

lemma engine_wfD:
  assumes "engine_wf e"
  shows "store_wf (eng_store e)" "coupled (eng_store e) (eng_index e)" "index_metric (eng_index e) = cfg_metric (eng_cfg e)"
    "vs_dim (eng_store e) = cfg_dim (eng_cfg e)"
  using assms by (simp_all add: engine_wf_def mem_wf_def)

definition filter_ok :: "filter option \<Rightarrow> metadata \<Rightarrow> bool" where
  "filter_ok f m \<longleftrightarrow> (case f of None \<Rightarrow> True | Some f \<Rightarrow> matches f m)"

lemma allowed_set_ok:
  assumes "store_wf s"
  shows "\<exists>b. allowed_set s f = Inr b \<and> bitset_wf b
    \<and> (\<forall>i. is_live s i \<longrightarrow> (unat i \<in> bitset_abs b \<longleftrightarrow> matches f (metas s ! unat i)))"
proof -
  let ?P = "\<lambda>i. is_live s (of_nat i) \<and> (case vs_metadata s (of_nat i) of None \<Rightarrow> False | Some m \<Rightarrow> matches f m)"
  obtain b where b: "allowed_set s f = Inr b" "bitset_wf b" "bitset_abs b = {i \<in> set [0..<slot_count s]. ?P i}"
    using bits.collect_loop [of "bitset_resize (slot_count s)" "[0..<slot_count s]" ?P]
    by (auto simp: allowed_set_def bits.make)
  have "unat i \<in> bitset_abs b \<longleftrightarrow> matches f (metas s ! unat i)" if "is_live s i" for i
  proof -
    have "unat i < slot_count s" "unat i < length (metas s)"
      using is_live_slot [OF assms that] store_wfD(5) [OF assms] by (simp_all add: slot_count_def)
    with that show ?thesis
      by (simp add: b(3) vs_metadata_def)
  qed
  with b show ?thesis
    by blast
qed

text \<open>The parameters a search runs with admit the live entries its filter matches.\<close>

definition resolve_filter :: "vector_store \<Rightarrow> filter option \<Rightarrow> bitset option res" where
  "resolve_filter s f =
     (case f of None \<Rightarrow> Inr None | Some f \<Rightarrow> rbind (allowed_set s f) (\<lambda>b. Inr (Some b)))"

lemma resolve_filter_ok:
  assumes "store_wf s"
  shows "\<exists>a. resolve_filter s f = Inr a \<and> allowed_wf a
    \<and> (\<forall>i. is_live s i \<longrightarrow> (admits a i \<longleftrightarrow> filter_ok f (metas s ! unat i)))"
proof (cases f)
  case None
  then show ?thesis
    by (auto simp: resolve_filter_def allowed_wf_def admits_def filter_ok_def)
next
  case (Some g)
  with allowed_set_ok [OF assms, of g] show ?thesis
    by (fastforce simp: resolve_filter_def allowed_wf_def admits_def filter_ok_def)
qed

lemma engine_search_resolved:
  assumes "length q = unat (vs_dim (eng_store e))" and "0 < k"
  shows "engine_search q k f ef e = rbind (resolve_filter (eng_store e) f) (\<lambda>a.
    index_search (eng_store e) (eng_index e) q k (query_params ef a))"
  using assms by (simp add: engine_search_def resolve_filter_def rbind_assoc split: option.split)

lemma query_params_allowed [simp]: "sp_allowed (query_params ef a) = a"
  by (simp add: query_params_def)

section \<open>Searches over the abstract map\<close>

text \<open>A hit describes an entry: its key, vector and metadata, with the true distance.\<close>

definition describes ::
  "vector_store \<Rightarrow> metric_kind \<Rightarrow> fvec \<Rightarrow> filter option \<Rightarrow> search_result \<Rightarrow> bool" where
  "describes s mk q f h \<longleftrightarrow>
     (\<exists>k v m. external_id s (sr_id h) = Inr k \<and> store_abs s k = Some (v, m)
        \<and> sr_score h = metric_value mk q v \<and> filter_ok f m)"

lemma live_abs:
  assumes "store_wf s" and "is_live s i"
  shows "external_id s i = Inr (ext_ids s ! unat i)"
    "store_abs s (ext_ids s ! unat i) = Some (slot_vec s i, metas s ! unat i)"
proof -
  have i: "unat i < length (ext_ids s)"
    using is_live_slot [OF assms] by (simp add: slot_count_def)
  then show "external_id s i = Inr (ext_ids s ! unat i)"
    by (simp add: external_id_def vec_simps)
  have "ext_to_int s (ext_ids s ! unat i) = Some i"
    using store_wfD(8) [OF assms(1)] i by simp
  then show "store_abs s (ext_ids s ! unat i) = Some (slot_vec s i, metas s ! unat i)"
    using assms(2) by (simp add: store_abs_def is_live_def)
qed

lemma abs_live:
  assumes "store_wf s" and "store_abs s k = Some (v, m)"
  shows "\<exists>i. is_live s i \<and> external_id s i = Inr k \<and> v = slot_vec s i \<and> m = metas s ! unat i"
proof -
  obtain i where i: "ext_to_int s k = Some i" "live s ! unat i \<noteq> 0" "v = slot_vec s i" "m = metas s ! unat i"
    using assms(2) by (auto simp: store_abs_def split: option.splits if_splits)
  then show ?thesis
    using ext_to_int_bound [OF assms(1) i(1)] by (auto simp: is_live_def external_id_def vec_simps)
qed

lemma sound_hits_describe:
  assumes "store_wf s" and "sound_hits s mk q k a out"
    and "\<forall>i. is_live s i \<longrightarrow> (admits a i \<longleftrightarrow> filter_ok f (metas s ! unat i))" and "h \<in> set out"
  shows "describes s mk q f h"
proof -
  have h: "is_live s (sr_id h)" "admits a (sr_id h)" "h = hit s mk q (sr_id h)"
    using assms(2,4) by (auto simp: sound_hits_def)
  then have "sr_score h = metric_value mk q (slot_vec s (sr_id h))"
    by (metis hit_def search_result.select_convs(2))
  with h(1,2) assms(3) live_abs [OF assms(1) h(1)] show ?thesis
    by (auto simp: describes_def)
qed

lemma engine_search_ok:
  assumes e: "engine_wf e" and q: "length q = unat (cfg_dim (eng_cfg e))" and nan: "nan_free (eng_store e) (cfg_metric (eng_cfg e)) q"
  shows "\<exists>out. engine_search q k f ef e = Inr out \<and> length out \<le> k \<and> distinct (map sr_id out)
    \<and> sorted_wrt (\<lambda>g h. hit_key g \<le> hit_key h) out
    \<and> (\<forall>h \<in> set out. describes (eng_store e) (cfg_metric (eng_cfg e)) q f h)"
proof (cases "k = 0")
  case True
  then show ?thesis
    using q engine_wfD(4) [OF e] by (simp add: engine_search_def)
next
  case False
  note D = engine_wfD [OF e]
  obtain a where a: "resolve_filter (eng_store e) f = Inr a" "allowed_wf a"
    "\<forall>i. is_live (eng_store e) i \<longrightarrow> (admits a i \<longleftrightarrow> filter_ok f (metas (eng_store e) ! unat i))"
    using resolve_filter_ok [OF D(1)] by blast
  obtain out where "index_search (eng_store e) (eng_index e) q k (query_params ef a) = Inr out"
    "sound_hits (eng_store e) (cfg_metric (eng_cfg e)) q k a out"
    using dispatch.search_ok [OF D(2,1), of q "query_params ef a" k] a(2) q nan D(3,4) by auto
  then show ?thesis
    using False q D(4) a(1) sound_hits_describe [OF D(1) _ a(3)]
    by (auto simp: engine_search_resolved sound_hits_def)
qed

text \<open>C5: On a well-formed engine a search of the right dimension always answers, with at most \<open>k\<close> distinct
  hits in ascending order, each an entry of the database that the filter matches, with its true distance.\<close>

theorem engine_search_sound:
  assumes "engine_wf e" and "length q = unat (cfg_dim (eng_cfg e))" and "nan_free (eng_store e) (cfg_metric (eng_cfg e)) q"
  shows "\<exists>out. engine_search q k f ef e = Inr out \<and> length out \<le> k \<and> distinct (map sr_id out)
    \<and> sorted_wrt (\<lambda>g h. hit_key g \<le> hit_key h) out
    \<and> (\<forall>h \<in> set out. describes (eng_store e) (cfg_metric (eng_cfg e)) q f h)"
  using assms by (rule engine_search_ok)

definition demo_config :: "index_kind \<Rightarrow> engine_config" where
  "demo_config ik = \<lparr>cfg_dim = 1, cfg_metric = L2, cfg_index = ik, cfg_hnsw = demo_params, cfg_persistence = None\<rparr>"

definition demo_engine :: engine where
  "demo_engine = \<lparr>eng_cfg = demo_config Flat_kind, eng_store = demo_one,
     eng_index = Flat \<lparr>flat_metric = L2, flat_ids = [0]\<rparr>, eng_wal = None, eng_blobs = None\<rparr>"

lemma demo_engine_wf: "engine_wf demo_engine"
proof -
  have "live_set demo_one = {0}"
    by (auto simp: live_set_def is_live_def demo_one_def)
  then show ?thesis
    using demo_one_wf by (simp add: engine_wf_def mem_wf_def demo_engine_def flat_coupled_def demo_config_def demo_one_def)
qed

lemma demo_engine_fields: "cfg_dim (eng_cfg demo_engine) = 1" "cfg_metric (eng_cfg demo_engine) = L2" "eng_store demo_engine = demo_one"
  by (simp_all add: demo_engine_def demo_config_def)

theorem engine_search_sound_witness:
  "\<exists>out. engine_search [f32_zero] 1 None 0 demo_engine = Inr out
     \<and> (\<forall>h \<in> set out. describes demo_one L2 [f32_zero] None h)"
  using engine_search_sound [OF demo_engine_wf, of "[f32_zero]" 1 None 0] demo_one_nan_free
  by (auto simp: demo_engine_fields)

section \<open>Exactness of the flat index\<close>

definition matching :: "vector_store \<Rightarrow> filter option \<Rightarrow> string set" where
  "matching s f = {k. \<exists>v m. store_abs s k = Some (v, m) \<and> filter_ok f m}"

lemma matching_ids:
  assumes "store_wf s" and "set ids = {i. is_live s i \<and> filter_ok f (metas s ! unat i)}" and "distinct ids"
  shows "card (matching s f) = length ids"
proof -
  have "matching s f = (\<lambda>i. ext_ids s ! unat i) ` set ids"
  proof (intro set_eqI iffI)
    fix k assume "k \<in> matching s f"
    then obtain v m where "store_abs s k = Some (v, m)" "filter_ok f m"
      by (auto simp: matching_def)
    with abs_live [OF assms(1), of k v m] show "k \<in> (\<lambda>i. ext_ids s ! unat i) ` set ids"
      by (auto simp: assms(2) external_id_def res_simps)
  next
    fix k assume "k \<in> (\<lambda>i. ext_ids s ! unat i) ` set ids"
    then show "k \<in> matching s f"
      using live_abs(2) [OF assms(1)] by (auto simp: assms(2) matching_def)
  qed
  moreover have "inj_on (\<lambda>i. ext_ids s ! unat i) (set ids)"
  proof (rule inj_onI)
    fix i j assume "i \<in> set ids" "j \<in> set ids" "ext_ids s ! unat i = ext_ids s ! unat j"
    then show "i = j"
      using ext_ids_inj [OF assms(1), of "unat i" "unat j"] is_live_slot [OF assms(1)]
      by (auto simp: assms(2) slot_count_def)
  qed
  ultimately show ?thesis
    by (simp add: card_image distinct_card assms(3))
qed

lemma k_smallest_left_out:
  assumes "k_smallest hit_key k (mset out) (mset hs)" and "h \<in> set hs" and "h \<notin> set out" and "g \<in> set out"
  shows "hit_key g \<le> hit_key h"
proof -
  have "h \<in># mset hs" and "h \<notin># mset out"
    using assms(2,3) by simp_all
  then have "h \<in># mset hs - mset out"
    by (simp only: in_diff_count not_in_iff count_greater_zero_iff)
  with assms(1,4) show ?thesis
    by (auto simp: k_smallest_def)
qed

text \<open>An engine whose index finds the \<open>k\<close> nearest of the live admitted entries answers exactly.\<close>

lemma exact_index_engine:
  assumes e: "engine_wf e" and q: "length q = unat (cfg_dim (eng_cfg e))"
    and index: "\<And>a. allowed_wf a \<Longrightarrow> \<exists>out ids. index_search (eng_store e) (eng_index e) q k (query_params ef a) = Inr out
      \<and> distinct ids \<and> set ids = {i. is_live (eng_store e) i \<and> admits a i}
      \<and> k_smallest hit_key k (mset out) (mset (map (hit (eng_store e) (cfg_metric (eng_cfg e)) q) ids))"
  shows "\<exists>out. engine_search q k f ef e = Inr out \<and> length out = min k (card (matching (eng_store e) f))
    \<and> (\<forall>key v m. store_abs (eng_store e) key = Some (v, m) \<longrightarrow> filter_ok f m \<longrightarrow>
         (\<exists>h \<in> set out. external_id (eng_store e) (sr_id h) = Inr key)
       \<or> (\<forall>h \<in> set out. hit_key h \<le> f32_key (metric_value (cfg_metric (eng_cfg e)) q v)))"
proof (cases "k = 0")
  case True
  then show ?thesis
    using q engine_wfD(4) [OF e] by (simp add: engine_search_def)
next
  case False
  let ?s = "eng_store e" and ?mk = "cfg_metric (eng_cfg e)"
  note D = engine_wfD [OF e]
  obtain a where a: "resolve_filter ?s f = Inr a" "allowed_wf a"
    "\<forall>i. is_live ?s i \<longrightarrow> (admits a i \<longleftrightarrow> filter_ok f (metas ?s ! unat i))"
    using resolve_filter_ok [OF D(1)] by blast
  obtain out ids where o: "index_search ?s (eng_index e) q k (query_params ef a) = Inr out" "distinct ids"
    "set ids = {i. is_live ?s i \<and> admits a i}" "k_smallest hit_key k (mset out) (mset (map (hit ?s ?mk q) ids))"
    using index [OF a(2)] by blast
  have ids: "set ids = {i. is_live ?s i \<and> filter_ok f (metas ?s ! unat i)}"
    using o(3) a(3) by auto
  have len: "length out = min k (card (matching ?s f))"
    using o(4) matching_ids [OF D(1) ids o(2)] by (simp add: k_smallest_def)
  have "(\<exists>h \<in> set out. external_id ?s (sr_id h) = Inr key) \<or> (\<forall>h \<in> set out. hit_key h \<le> f32_key (metric_value ?mk q v))"
    if entry: "store_abs ?s key = Some (v, m)" "filter_ok f m" for key v m
  proof -
    obtain i where i: "is_live ?s i" "external_id ?s i = Inr key" "v = slot_vec ?s i" "m = metas ?s ! unat i"
      using abs_live [OF D(1) entry(1)] by blast
    then have "hit ?s ?mk q i \<in> set (map (hit ?s ?mk q) ids)"
      using entry(2) ids by simp
    with k_smallest_left_out [OF o(4) this] i(2,3) show ?thesis
      by (cases "hit ?s ?mk q i \<in> set out") (force simp: hit_def hit_key_def)+
  qed
  with len show ?thesis
    using False q D(4) a(1) o(1) by (auto simp: engine_search_resolved)
qed

lemma flat_engine_exact:
  assumes e: "engine_wf e" and x: "eng_index e = Flat x" and q: "length q = unat (cfg_dim (eng_cfg e))"
    and nan: "nan_free (eng_store e) (cfg_metric (eng_cfg e)) q"
  shows "\<exists>out. engine_search q k f ef e = Inr out \<and> length out = min k (card (matching (eng_store e) f))
    \<and> (\<forall>key v m. store_abs (eng_store e) key = Some (v, m) \<longrightarrow> filter_ok f m \<longrightarrow>
         (\<exists>h \<in> set out. external_id (eng_store e) (sr_id h) = Inr key)
       \<or> (\<forall>h \<in> set out. hit_key h \<le> f32_key (metric_value (cfg_metric (eng_cfg e)) q v)))"
proof (rule exact_index_engine [OF e q])
  note D = engine_wfD [OF e]
  fix a assume "allowed_wf a"
  then show "\<exists>out ids. index_search (eng_store e) (eng_index e) q k (query_params ef a) = Inr out
      \<and> distinct ids \<and> set ids = {i. is_live (eng_store e) i \<and> admits a i}
      \<and> k_smallest hit_key k (mset out) (mset (map (hit (eng_store e) (cfg_metric (eng_cfg e)) q) ids))"
    using flat_exact [of "eng_store e" x q "query_params ef a" k] D x q nan by auto
qed

text \<open>C3: With the flat index a search is exact: it returns \<open>min k n\<close> of the \<open>n\<close> entries the filter matches,
  and every matching entry it leaves out is at least as far from the query as every hit.\<close>

theorem engine_search_exact:
  assumes "engine_wf e" and "eng_index e = Flat x" and "length q = unat (cfg_dim (eng_cfg e))"
    and "nan_free (eng_store e) (cfg_metric (eng_cfg e)) q"
  shows "\<exists>out. engine_search q k f ef e = Inr out \<and> length out = min k (card (matching (eng_store e) f))
    \<and> (\<forall>key v m. store_abs (eng_store e) key = Some (v, m) \<longrightarrow> filter_ok f m \<longrightarrow>
         (\<exists>h \<in> set out. external_id (eng_store e) (sr_id h) = Inr key)
       \<or> (\<forall>h \<in> set out. hit_key h \<le> f32_key (metric_value (cfg_metric (eng_cfg e)) q v)))"
  using assms by (rule flat_engine_exact)

theorem engine_search_exact_witness:
  "\<exists>out. engine_search [f32_zero] 5 None 0 demo_engine = Inr out \<and> length out = min 5 (card (matching demo_one None))"
  using engine_search_exact [OF demo_engine_wf, of "\<lparr>flat_metric = L2, flat_ids = [0]\<rparr>" "[f32_zero]" 5 None 0] demo_one_nan_free
  by (auto simp: demo_engine_fields) (auto simp: demo_engine_def)

text \<open>A query of the wrong dimension is rejected with \<open>invalid_argument\<close>, before anything else.\<close>

lemma engine_search_wrong_dim:
  "length q \<noteq> unat (vs_dim (eng_store e)) \<Longrightarrow> engine_search q k f ef e = Inl Invalid_argument"
  by (simp add: engine_search_def)

lemma engine_search_wrong_dim_witness: "engine_search [] 3 None 0 demo_engine = Inl Invalid_argument"
  by (rule engine_search_wrong_dim) (simp add: demo_engine_fields demo_one_def)

section \<open>Batches\<close>

lemma ranges_cover:
  "concat (map (\<lambda>t. [t * c ..< min (t * c + c) n]) [0..<j]) = [0 ..< min (j * c) n]"
proof (induction j)
  case (Suc j)
  show ?case
  proof (cases "j * c < n")
    case True
    then have "[0 ..< j * c] @ [j * c ..< min (j * c + c) n] = [0 ..< min (j * c + c) n]"
      by (metis add_0 le_add1 min.cobounded1 min_def upt_add_eq_append zero_le ordered_cancel_comm_monoid_diff_class.add_diff_inverse less_or_eq_imp_le)
    with Suc True show ?thesis
      by (simp add: add.commute)
  qed (use Suc in \<open>simp add: add.commute min_def\<close>)
qed simp

lemma worker_ranges_cover:
  assumes "0 < tcount"
  shows "concat (map (\<lambda>(lo, hi). [lo..<hi]) (worker_ranges qn tcount)) = [0..<qn]"
proof -
  let ?c = "(qn + tcount - 1) div tcount" and ?r = "\<lambda>c t. [t * c ..< min (t * c + c) qn]"
  have "(qn + tcount - 1) mod tcount < tcount"
    using assms by simp
  moreover have "tcount * ?c + (qn + tcount - 1) mod tcount = qn + tcount - 1"
    by (rule mult_div_mod_eq)
  ultimately have all: "qn \<le> tcount * ?c"
    using assms by linarith
  have drop: "concat (map (?r c) (takeWhile (\<lambda>t. t * c < qn) ts)) = concat (map (?r c) ts)" if "sorted ts" for c ts
    using that
  proof (induction ts)
    case (Cons t ts)
    have "?r c u = []" if "\<not> t * c < qn" "u \<in> set ts" for u
    proof -
      have "t * c \<le> u * c"
        using Cons.prems that(2) by (simp add: mult_le_mono1)
      with that(1) have "qn \<le> u * c"
        by linarith
      then show ?thesis
        by (simp add: min.coboundedI2)
    qed
    with Cons show ?case
      by auto
  qed simp
  have "concat (map (\<lambda>(lo, hi). [lo..<hi]) (worker_ranges qn tcount)) = concat (map (?r ?c) [0..<tcount])"
    by (simp add: worker_ranges_def Let_def comp_def drop)
  also have "\<dots> = [0 ..< min (tcount * ?c) qn]"
    by (rule ranges_cover)
  finally show ?thesis
    using all by (simp add: min_def)
qed

lemma batch_order_mset:
  assumes "\<And>ranges. mset (schedule ranges) = mset (concat (map (\<lambda>(lo, hi). [lo..<hi]) ranges))"
  shows "mset (batch_order schedule hw nt n) = mset [0..<n]"
proof -
  have "mset (schedule (worker_ranges n t)) = mset [0..<n]" if "\<not> t \<le> 1" for t
    using assms [of "worker_ranges n t"] worker_ranges_cover [of t n] that by simp
  then show ?thesis
    by (simp add: batch_order_def Let_def)
qed

lemma batch_fold:
  assumes "\<forall>i \<in> set js. i < length qs \<and> index_search (eng_store e) (eng_index e) (qs ! i) k params = Inr (r i)"
    and "length results = length qs"
  shows "rfold (batch_step e qs k params) js results = Inr (map (\<lambda>i. if i \<in> set js then r i else results ! i) [0..<length qs])"
  using assms
proof (induction js arbitrary: results)
  case Nil
  then show ?case
    using map_nth [of results] by simp
next
  case (Cons j js)
  have "batch_step e qs k params j results = Inr (results[j := r j])"
    using Cons.prems by (simp add: batch_step_def vec_simps)
  then show ?case
    using Cons.IH [of "results[j := r j]"] Cons.prems by (auto simp: nth_list_update)
qed

lemma search_batch_ok:
  assumes e: "engine_wf e" and qs: "\<forall>q \<in> set qs. length q = unat (cfg_dim (eng_cfg e)) \<and> nan_free (eng_store e) (cfg_metric (eng_cfg e)) q"
    and sched: "\<And>ranges. mset (schedule ranges) = mset (concat (map (\<lambda>(lo, hi). [lo..<hi]) ranges))"
  shows "\<exists>rs. search_batch schedule hw qs k f ef nt e = Inr rs \<and> length rs = length qs
    \<and> (\<forall>i < length qs. engine_search (qs ! i) k f ef e = Inr (rs ! i))"
proof -
  let ?s = "eng_store e" and ?n = "length qs"
  note D = engine_wfD [OF e]
  have dims: "\<forall>q \<in> set qs. length q = unat (vs_dim ?s)"
    using qs D(4) by simp
  consider "qs = []" | "qs \<noteq> []" "k = 0" | "qs \<noteq> []" "0 < k"
    by auto
  then show ?thesis
  proof cases
    case 1
    then show ?thesis by (simp add: search_batch_def)
  next
    case 2
    with dims show ?thesis
      by (auto simp: search_batch_def engine_search_def)
  next
    case 3
    obtain a where a: "resolve_filter ?s f = Inr a" "allowed_wf a"
      using resolve_filter_ok [OF D(1)] by blast
    have "\<exists>r. index_search ?s (eng_index e) (qs ! i) k (query_params ef a) = Inr r" if "i < ?n" for i
      using dispatch.search_ok [OF D(2,1), of "qs ! i" "query_params ef a" k] qs D(3,4) a(2) that by fastforce
    then obtain r where r: "\<And>i. i < ?n \<Longrightarrow> index_search ?s (eng_index e) (qs ! i) k (query_params ef a) = Inr (r i)"
      by metis
    let ?js = "batch_order schedule hw nt ?n"
    have "set ?js = {0..<?n}"
      using mset_eq_setD [OF batch_order_mset [OF sched]] by simp
    then have "rfold (batch_step e qs k (query_params ef a)) ?js (replicate ?n []) = Inr (map r [0..<?n])"
      using batch_fold [of ?js qs e k "query_params ef a" r "replicate ?n []"] r by auto
    then have "search_batch schedule hw qs k f ef nt e = Inr (map r [0..<?n])"
      using 3 dims a(1) by (simp add: search_batch_def Let_def resolve_filter_def [symmetric])
    then show ?thesis
      using 3 dims a(1) r by (auto simp: engine_search_resolved)
  qed
qed

text \<open>C11: A batch returns, for every query, exactly what a single search returns, whatever the number of
  threads and however the assignments of the workers interleave.\<close>

theorem search_batch_equiv:
  assumes "engine_wf e"
    and "\<forall>q \<in> set qs. length q = unat (cfg_dim (eng_cfg e)) \<and> nan_free (eng_store e) (cfg_metric (eng_cfg e)) q"
    and "\<And>ranges. mset (schedule ranges) = mset (concat (map (\<lambda>(lo, hi). [lo..<hi]) ranges))"
  shows "\<exists>rs. search_batch schedule hw qs k f ef nt e = Inr rs \<and> length rs = length qs
    \<and> (\<forall>i < length qs. engine_search (qs ! i) k f ef e = Inr (rs ! i))"
  using assms by (rule search_batch_ok)

theorem search_batch_equiv_witness:
  "\<exists>rs. search_batch (\<lambda>ranges. rev (concat (map (\<lambda>(lo, hi). [lo..<hi]) ranges))) 4 [[f32_zero], [f32_zero]] 1 None 0 2 demo_engine = Inr rs
     \<and> length rs = 2"
  using search_batch_equiv [OF demo_engine_wf, of "[[f32_zero], [f32_zero]]"
      "\<lambda>ranges. rev (concat (map (\<lambda>(lo, hi). [lo..<hi]) ranges))" 4 1 None 0 2] demo_one_nan_free
  by (fastforce simp: demo_engine_fields)

end
