(* ===== verification/Engine_Durability.thy ===== *)
theory Engine_Durability
  imports Engine_Queries
begin

text \<open>
  The durability of \<^verbatim>\<open>src/engine.cpp\<close>. A journal relates an engine to the operations its snapshot and its log
  hold: replaying them gives the live entries. Mutations, snapshots and compactions keep the relation and
  recovery realises it, also from a torn log and from the state between the two steps of a snapshot. Two
  findings delimit it: an operation that is logged and then rejected makes the database unrecoverable.
\<close>

section \<open>What the directory holds\<close>

definition entry_op :: "string \<Rightarrow> fvec \<Rightarrow> metadata \<Rightarrow> op" where
  "entry_op k v m = \<lparr>op_type = Insert, op_ext_id = k, op_vec = v, op_meta = Some m\<rparr>"

text \<open>Every live entry can be written to a snapshot.\<close>

definition entries_ok :: "dim \<Rightarrow> (string \<rightharpoonup> fvec \<times> metadata) \<Rightarrow> bool" where
  "entries_ok d A \<longleftrightarrow> (\<forall>k v m. A k = Some (v, m) \<longrightarrow> length v = unat d \<and> op_loggable (entry_op k v m))"

definition history_ok :: "dim \<Rightarrow> op list \<Rightarrow> bool" where
  "history_ok d ps \<longleftrightarrow> (\<forall>p \<in> set ps. op_ok d p \<and> op_loggable p)"

definition holds_snapshot :: "blob_store \<Rightarrow> op list \<Rightarrow> bool" where
  "holds_snapshot b ps \<longleftrightarrow>
     (case blob_look b kSnapshotKey of None \<Rightarrow> ps = [] | Some data \<Rightarrow> data = concat (map snapshot_record ps))"

definition journal :: "engine \<Rightarrow> op list \<Rightarrow> op list \<Rightarrow> bool" where
  "journal e sops wops \<longleftrightarrow>
     (\<exists>w b. eng_wal e = Some w \<and> eng_blobs e = Some b \<and> log_good w \<and> blob_good b
        \<and> log_recs w = map encode_op wops \<and> holds_snapshot b sops)
   \<and> history_ok (cfg_dim (eng_cfg e)) (sops @ wops)
   \<and> entries_ok (cfg_dim (eng_cfg e)) (store_abs (eng_store e))
   \<and> fold spec_apply (sops @ wops) Map.empty = store_abs (eng_store e)"

lemma entry_length:
  assumes "t \<noteq> Delete"
  shows "length (encode_op \<lparr>op_type = t, op_ext_id = k, op_vec = v, op_meta = Some m\<rparr>) = 10 + length k + length v * 4 + length (encode_metadata m)"
  using assms by (simp add: encode_op_def)

lemma entry_loggable:
  assumes "op_loggable p" and "op_type p \<noteq> Delete" and "op_meta p = Some m"
  shows "op_loggable (entry_op (op_ext_id p) (op_vec p) m)"
  using assms entry_length [of "op_type p" "op_ext_id p" "op_vec p" m] entry_length [of Insert "op_ext_id p" "op_vec p" m]
  by (cases p) (simp add: op_loggable_def entry_op_def op_encodable_def record_ok_def canonical_def)

lemma entry_loggable_vec:
  assumes "op_loggable (entry_op k v m)" and "length v' = length v"
  shows "op_loggable (entry_op k v' m)"
  using assms entry_length [of Insert k v m] entry_length [of Insert k v' m]
  by (simp add: op_loggable_def entry_op_def op_encodable_def record_ok_def canonical_def)

lemma entries_ok_apply:
  assumes "entries_ok d A" and "op_ok d p" and "op_loggable p"
  shows "entries_ok d (spec_apply p A)"
proof -
  have "length v = unat d \<and> op_loggable (entry_op k v m)" if kv: "spec_apply p A k = Some (v, m)" for k v m
  proof (cases "op_ext_id p = k")
    case False
    with that assms(1) show ?thesis
      by (simp add: spec_apply_key entries_ok_def)
  next
    case True
    show ?thesis
    proof (cases "op_type p")
      case Insert
      then obtain m' where "op_meta p = Some m'"
        using assms(3) by (auto simp: op_loggable_def)
      with Insert True that assms entry_loggable [of p m'] show ?thesis
        by (auto simp: spec_apply_key key_apply_def op_ok_def)
    next
      case Update
      then obtain u old where "A k = Some (u, old)" "v = op_vec p" "m = (case op_meta p of Some x \<Rightarrow> x | None \<Rightarrow> old)"
        using kv Update True by (auto simp: spec_apply_key key_apply_def)
      with Update True assms entry_loggable [of p m] entry_loggable_vec [of k u old v] show ?thesis
        by (cases "op_meta p") (auto simp: op_ok_def entries_ok_def)
    next
      case Delete
      with that True show ?thesis
        by (simp add: spec_apply_key key_apply_def)
    qed
  qed
  then show ?thesis
    by (simp add: entries_ok_def)
qed

section \<open>Mutations\<close>

lemma log_op_ok:
  assumes "journal e sops wops" and "op_loggable p"
  shows "\<exists>w'. log_op p e = (e\<lparr>eng_wal := Some w'\<rparr>, Inr ()) \<and> log_good w' \<and> log_recs w' = map encode_op (wops @ [p])"
proof -
  obtain w where w: "eng_wal e = Some w" "log_good w" "log_recs w = map encode_op wops"
    using assms(1) by (auto simp: journal_def)
  have "record_ok (encode_op p)"
    using assms(2) by (simp add: op_loggable_def)
  from file_log.append_ok [OF w(2) this] w(1,3) show ?thesis
    by (auto simp: log_op_def)
qed

lemma history_entries:
  assumes "history_ok d ps"
  shows "entries_ok d (fold spec_apply ps Map.empty)"
  using assms
proof (induction ps rule: rev_induct)
  case (snoc p ps)
  then show ?case
    by (auto simp: history_ok_def intro: entries_ok_apply)
qed (simp add: entries_ok_def)

text \<open>The store has a slot left if the operation needs a new one.\<close>

definition op_room :: "op \<Rightarrow> vector_store \<Rightarrow> bool" where
  "op_room p s \<longleftrightarrow> (op_type p = Insert \<and> ext_to_int s (op_ext_id p) = None \<longrightarrow> has_room s)"

text \<open>Logging leaves the memory alone, so an operation changes it through \<open>apply_mem\<close> or not at all.\<close>

lemma apply_op_shape:
  assumes "apply_op p lg e = (e', r)"
  shows "eng_store e' = eng_store e \<and> eng_index e' = eng_index e
    \<or> (\<exists>i. apply_mem p (eng_store e, eng_index e) = Inr (i, eng_store e', eng_index e'))"
proof -
  have "eng_store (fst (log_op p e)) = eng_store e" "eng_index (fst (log_op p e)) = eng_index e"
    by (simp_all add: log_op_def split: option.split prod.split)
  with assms show ?thesis
    unfolding apply_op_def by (auto split: prod.splits sum.splits if_splits)
qed

lemma apply_op_ok:
  assumes e: "engine_wf e" and j: "journal e sops wops" and p: "op_ok (cfg_dim (eng_cfg e)) p" "op_loggable p"
    and room: "op_room p (eng_store e)"
  shows "\<exists>e' i. apply_op p True e = (e', Inr i) \<and> engine_wf e' \<and> journal e' sops (wops @ [p])
    \<and> eng_cfg e' = eng_cfg e \<and> store_abs (eng_store e') = spec_apply p (store_abs (eng_store e))
    \<and> (op_type p = Insert \<longrightarrow> resolve (eng_store e') (op_ext_id p) = Inr (Some i))"
proof -
  note D = engine_wfD [OF e]
  obtain w' where w': "log_op p e = (e\<lparr>eng_wal := Some w'\<rparr>, Inr ())" "log_good w'" "log_recs w' = map encode_op (wops @ [p])"
    using log_op_ok [OF j p(2)] by blast
  obtain i s' x' where m: "apply_mem p (eng_store e, eng_index e) = Inr (i, s', x')" "store_wf s'" "coupled s' x'"
    "vs_dim s' = vs_dim (eng_store e)" "store_abs s' = spec_apply p (store_abs (eng_store e))"
    "index_metric x' = index_metric (eng_index e)"
    "if op_type p = Insert then resolve s' (op_ext_id p) = Inr (Some i) else i = kInvalidId"
    using apply_mem_ok [OF D(1,2), of p] p(1) D(4) room by (auto simp: op_room_def)
  let ?e = "e\<lparr>eng_wal := Some w', eng_store := s', eng_index := x'\<rparr>"
  have "apply_op p True e = (?e, Inr i)"
    using w'(1) m(1) by (simp add: apply_op_def)
  moreover have "engine_wf ?e"
    using D m by (simp add: engine_wf_def mem_wf_def)
  moreover have "entries_ok (cfg_dim (eng_cfg e)) (spec_apply p (store_abs (eng_store e)))"
    using entries_ok_apply [OF _ p] j by (simp add: journal_def)
  then have "journal ?e sops (wops @ [p])"
    using j p w'(2,3) m(5) by (auto simp: journal_def history_ok_def)
  ultimately show ?thesis
    using m(5,7) by auto
qed

section \<open>Recovery\<close>

definition hnsw_config_ok :: "engine_config \<Rightarrow> bool" where
  "hnsw_config_ok cfg \<longleftrightarrow> (cfg_index cfg = Hnsw_kind \<longrightarrow> params_ok (cfg_hnsw cfg))"

lemma fresh_memory:
  assumes "cfg_dim cfg \<noteq> 0" and "hnsw_config_ok cfg"
  shows "mem_wf (cfg_metric cfg) (vs_empty (cfg_dim cfg), make_index cfg)"
proof -
  have "live_set (vs_empty (cfg_dim cfg)) = {}"
    by (simp add: live_set_def is_live_def)
  then show ?thesis
    using assms vs_empty_wf(1) [OF assms(1)] make_hnsw_wf [of "cfg_hnsw cfg"]
    by (auto simp: mem_wf_def make_index_def hnsw_config_ok_def flat_coupled_def hnsw_coupled_def make_flat_index_def
        make_hnsw_index_def split: index_kind.split)
qed

lemma blob_snapshot_ok:
  assumes "blob_good b" and "holds_snapshot b sops" and "\<forall>p \<in> set sops. op_loggable p" and "run_ops sops m = Inr m'"
  shows "\<exists>b'. blob_good b' \<and> blob_look b' = blob_look b \<and>
    (if blob_exists kSnapshotKey b then (case blob_get kSnapshotKey b of (b', r) \<Rightarrow> rbind r (\<lambda>snap. rbind (replay_blob snap m) (g b')))
     else g b m) = g b' m'"
proof (cases "blob_look b kSnapshotKey")
  case None
  then have "sops = []"
    using assms(2) by (simp add: holds_snapshot_def)
  then show ?thesis
    using None assms(1,4) by (auto simp: file_blobs.exists_ok run_ops_def)
next
  case (Some d)
  then have "replay_blob d m = Inr m'"
    using assms(2-4) by (simp add: holds_snapshot_def replay_blob_records)
  then show ?thesis
    using Some file_blobs.get_ok [OF assms(1), of kSnapshotKey] by (auto simp: file_blobs.exists_ok)
qed

lemma recover_stages:
  assumes e: "(eng_store e, eng_index e) = m0" "eng_blobs e = Some b" "eng_wal e = Some w"
    and b: "blob_good b" "holds_snapshot b sops" "\<forall>p \<in> set sops. op_loggable p" and m1: "run_ops sops m0 = Inr m1"
  shows "\<exists>b'. blob_good b' \<and> blob_look b' = blob_look b \<and> recover e = rbind (log_replay replay_op w m1)
    (\<lambda>(w', s, x). Inr (e\<lparr>eng_blobs := Some b', eng_wal := Some w', eng_store := s, eng_index := x\<rparr>))"
proof -
  let ?g = "\<lambda>b' (s, x). Inr (e\<lparr>eng_blobs := Some b', eng_store := s, eng_index := x\<rparr>)"
  obtain b' where b': "blob_good b'" "blob_look b' = blob_look b"
    "(if blob_exists kSnapshotKey b then (case blob_get kSnapshotKey b of (b', r) \<Rightarrow> rbind r (\<lambda>snap. rbind (replay_blob snap m0) (?g b')))
      else ?g b m0) = ?g b' m1"
    using blob_snapshot_ok [OF b m1, of ?g] by blast
  have e_eq: "e\<lparr>eng_blobs := Some b\<rparr> = e"
    using e(2) by (cases e) simp
  have "recover e = rbind (?g b' m1) (\<lambda>e. case eng_wal e of None \<Rightarrow> Inr e
      | Some w \<Rightarrow> rbind (log_replay replay_op w (eng_store e, eng_index e)) (\<lambda>(w', s, x).
          Inr (e\<lparr>eng_wal := Some w', eng_store := s, eng_index := x\<rparr>)))"
    unfolding b'(3) [symmetric] recover_def e(2) e(1) [symmetric] by (simp add: e_eq)
  then have "recover e = rbind (log_replay replay_op w m1) (\<lambda>(w', s, x).
      Inr (e\<lparr>eng_blobs := Some b', eng_wal := Some w', eng_store := s, eng_index := x\<rparr>))"
    using e(3) by (cases m1) simp
  with b'(1,2) show ?thesis
    by blast
qed

lemma recover_ok:
  assumes m0: "mem_wf mk m0" "mem_dim m0 = d" "mem_abs m0 = Map.empty" "mem_room m0 = 2 ^ 32 - 1"
    and e: "(eng_store e, eng_index e) = m0" "eng_blobs e = Some b" "eng_wal e = Some w"
    and b: "blob_good b" "holds_snapshot b sops" and w: "healthy (ls_env w)" "ls_file w = take n (frames (map encode_op wops))"
    and h: "history_ok d (sops @ wops)" "length (sops @ wops) \<le> 2 ^ 32 - 1"
  shows "\<exists>e' b' env. recover e = Inr e' \<and> mem_wf mk (eng_store e', eng_index e') \<and> vs_dim (eng_store e') = d \<and> eng_cfg e' = eng_cfg e
    \<and> eng_wal e' = Some (w\<lparr>ls_env := env\<rparr>) \<and> healthy env \<and> eng_blobs e' = Some b' \<and> blob_good b' \<and> holds_snapshot b' sops
    \<and> store_abs (eng_store e') = fold spec_apply (sops @ take (whole_frames n (map encode_op wops)) wops) Map.empty
    \<and> run_ops (sops @ take (whole_frames n (map encode_op wops)) wops) m0 = Inr (eng_store e', eng_index e')"
proof -
  let ?k = "whole_frames n (map encode_op wops)"
  have ok: "\<forall>p \<in> set sops. op_ok d p" "\<forall>p \<in> set (take ?k wops). op_ok d p"
    and log: "\<forall>p \<in> set sops. op_loggable p" "\<forall>p \<in> set wops. op_loggable p" "\<forall>p \<in> set (take ?k wops). op_loggable p"
    using h(1) by (auto simp: history_ok_def dest: in_set_takeD)
  obtain m1 where m1: "run_ops sops m0 = Inr m1" "mem_wf mk m1" "mem_dim m1 = d" "mem_room m0 \<le> mem_room m1 + length sops"
    "mem_abs m1 = fold spec_apply sops Map.empty"
    using run_ops_ok [OF m0(1), of sops] ok(1) m0 h(2) by auto
  have "length (take ?k wops) \<le> length wops"
    by simp
  then have room: "length (take ?k wops) \<le> mem_room m1"
    using m1(4) m0(4) h(2) by (simp only: length_append)
  obtain m2 where m2: "run_ops (take ?k wops) m1 = Inr m2" "mem_wf mk m2" "mem_dim m2 = d"
    "mem_abs m2 = fold spec_apply (take ?k wops) (mem_abs m1)"
    using run_ops_ok [OF m1(2) _ room] ok(2) m1(3) by auto
  have rec: "\<forall>r \<in> set (map encode_op wops). record_ok r"
    using log(2) by (auto simp: op_loggable_def)
  obtain env where env: "log_replay replay_op w m1 = Inr (w\<lparr>ls_env := env\<rparr>, m2)" "healthy env"
    using log_replay_ok [OF w rec, of replay_op m1] replay_records [OF log(3), of m1] m2(1) by (auto simp: take_map)
  obtain b' where b': "blob_good b'" "blob_look b' = blob_look b" and "recover e = rbind (log_replay replay_op w m1)
      (\<lambda>(w', s, x). Inr (e\<lparr>eng_blobs := Some b', eng_wal := Some w', eng_store := s, eng_index := x\<rparr>))"
    using recover_stages [OF e b log(1) m1(1)] by blast
  moreover have "run_ops (sops @ take ?k wops) m0 = Inr m2"
    using m1(1) m2(1) by (simp add: run_ops_def rfold_append)
  ultimately show ?thesis
    using m2 m1(5) env b(2) by (cases m2) (fastforce simp: mem_dim_def mem_abs_def holds_snapshot_def)
qed

text \<open>A rejected operation in the log stops recovery with its exception.\<close>

lemma recover_rejected:
  assumes m0: "mem_wf mk m0" "mem_dim m0 = d" "mem_abs m0 = Map.empty" "mem_room m0 = 2 ^ 32 - 1"
    and e: "(eng_store e, eng_index e) = m0" "eng_blobs e = Some b" "eng_wal e = Some w"
    and b: "blob_good b" "holds_snapshot b sops" and w: "healthy (ls_env w)" "ls_file w = frames (map encode_op (wops @ [p]))"
    and h: "history_ok d (sops @ wops)" "length (sops @ wops) \<le> 2 ^ 32 - 1" "op_loggable p"
    and rej: "\<And>m. mem_wf mk m \<Longrightarrow> mem_dim m = d \<Longrightarrow> mem_abs m = fold spec_apply (sops @ wops) Map.empty \<Longrightarrow> apply_mem p m = Inl er"
  shows "recover e = Inl er"
proof -
  have ok: "\<forall>q \<in> set sops. op_ok d q" "\<forall>q \<in> set wops. op_ok d q" "\<forall>q \<in> set sops. op_loggable q" "\<forall>q \<in> set wops. op_loggable q"
    using h(1) by (auto simp: history_ok_def)
  obtain m1 where m1: "run_ops sops m0 = Inr m1" "mem_wf mk m1" "mem_dim m1 = d" "mem_room m0 \<le> mem_room m1 + length sops"
    "mem_abs m1 = fold spec_apply sops Map.empty"
    using run_ops_ok [OF m0(1), of sops] ok(1) m0 h(2) by auto
  obtain m2 where m2: "run_ops wops m1 = Inr m2" "mem_wf mk m2" "mem_dim m2 = d" "mem_abs m2 = fold spec_apply wops (mem_abs m1)"
    using run_ops_ok [OF m1(2), of wops] ok(2) m1(3,4) m0(4) h(2) by auto
  have "apply_mem p m2 = Inl er"
    using rej [OF m2(2,3)] m2(4) m1(5) by simp
  then have "run_ops (wops @ [p]) m1 = Inl er"
    using m2(1) by (simp add: run_ops_def rfold_append)
  moreover have log: "\<forall>q \<in> set (wops @ [p]). op_loggable q"
    using ok(4) h(3) by auto
  ultimately have fail: "rfold replay_op (map encode_op (wops @ [p])) m1 = Inl er"
    by (simp only: replay_records)
  let ?rs = "map encode_op (wops @ [p])"
  have rec: "\<forall>r \<in> set ?rs. record_ok r"
    using log by (auto simp: op_loggable_def)
  have "log_replay replay_op w m1 = Inl er"
    using log_replay_ok [OF w(1) _ rec, of "length (frames ?rs)" replay_op m1] fail w(2) whole_frames_all [of ?rs]
    by (auto simp del: map_append)
  then show ?thesis
    using recover_stages [OF e b ok(3) m1(1)] by auto
qed

text \<open>An engine that read its whole log can go on writing it.\<close>

lemma recovered_journal:
  assumes "eng_wal e = Some (w\<lparr>ls_env := env\<rparr>)" and "healthy env" and "eng_blobs e = Some b" and "blob_good b" and "holds_snapshot b sops"
    and "ls_fd w \<and> ls_file w = frames (map encode_op wops)" and "history_ok (cfg_dim (eng_cfg e)) (sops @ wops)"
    and "store_abs (eng_store e) = fold spec_apply (sops @ wops) Map.empty"
  shows "journal e sops wops"
proof -
  have "log_good (w\<lparr>ls_env := env\<rparr>) \<and> log_recs (w\<lparr>ls_env := env\<rparr>) = map encode_op wops"
    using assms(2,6,7) by (intro log_goodI) (auto simp: history_ok_def op_loggable_def)
  moreover have "entries_ok (cfg_dim (eng_cfg e)) (fold spec_apply (sops @ wops) Map.empty)"
    by (rule history_entries [OF assms(7)])
  ultimately show ?thesis
    using assms by (simp add: journal_def)
qed

lemma engine_new_ok:
  assumes cfg: "cfg_dim cfg \<noteq> 0" "hnsw_config_ok cfg" "cfg_persistence cfg = Some pc"
    and b: "blob_good b" "holds_snapshot b sops" and env: "healthy env"
    and h: "history_ok (cfg_dim cfg) (sops @ wops)" "length (sops @ wops) \<le> 2 ^ 32 - 1"
  shows "\<exists>e. engine_new cfg True b (take n (frames (map encode_op wops))) env = Inr e \<and> engine_wf e \<and> eng_cfg e = cfg
    \<and> store_abs (eng_store e) = fold spec_apply (sops @ take (whole_frames n (map encode_op wops)) wops) Map.empty
    \<and> run_ops (sops @ take (whole_frames n (map encode_op wops)) wops) (vs_empty (cfg_dim cfg), make_index cfg) = Inr (eng_store e, eng_index e)
    \<and> (length (frames (map encode_op wops)) \<le> n \<longrightarrow> journal e sops wops)"
proof -
  let ?m0 = "(vs_empty (cfg_dim cfg), make_index cfg)" and ?file = "take n (frames (map encode_op wops))"
  let ?w = "\<lparr>ls_policy = pc_sync pc, ls_fd = True, ls_file = ?file, ls_synced = 0, ls_env = env\<lparr>env_opens := tl (env_opens env)\<rparr>\<rparr>"
  let ?e = "\<lparr>eng_cfg = cfg, eng_store = vs_empty (cfg_dim cfg), eng_index = make_index cfg, eng_wal = Some ?w, eng_blobs = Some b\<rparr>"
  have "healthy (env\<lparr>env_opens := tl (env_opens env)\<rparr>)"
    by (rule healthy_mono [OF env]) (simp_all add: set_tl_subset)
  then obtain e' b' env' where e': "recover ?e = Inr e'" "mem_wf (cfg_metric cfg) (eng_store e', eng_index e')"
    "vs_dim (eng_store e') = cfg_dim cfg" "eng_cfg e' = cfg"
    "eng_wal e' = Some (?w\<lparr>ls_env := env'\<rparr>)" "healthy env'" "eng_blobs e' = Some b'" "blob_good b'" "holds_snapshot b' sops"
    "store_abs (eng_store e') = fold spec_apply (sops @ take (whole_frames n (map encode_op wops)) wops) Map.empty"
    "run_ops (sops @ take (whole_frames n (map encode_op wops)) wops) ?m0 = Inr (eng_store e', eng_index e')"
    using recover_ok [of "cfg_metric cfg" ?m0 "cfg_dim cfg" ?e b ?w sops n wops] fresh_memory [OF cfg(1,2)] b h
    by (auto simp: mem_dim_def mem_abs_def vs_empty_wf(2) mem_room_def store_room_def)
  have "open_log (pc_sync pc) ?file env = Inr ?w"
    using opens_ok [OF env] by (auto simp: open_log_def)
  with e' have "engine_new cfg True b ?file env = Inr e'" and "engine_wf e'"
    using cfg by (auto simp: engine_new_def open_blobs_def vs_new_def engine_wf_def)
  moreover have "journal e' sops wops" if "length (frames (map encode_op wops)) \<le> n"
    using recovered_journal [OF e'(5-9), of wops] h(1) that e'(4,10) whole_frames_complete [OF that] by simp
  ultimately show ?thesis
    using e' by blast
qed

section \<open>Snapshots\<close>

definition snap_ops :: "vector_store \<Rightarrow> op list" where
  "snap_ops s = map (\<lambda>i. entry_op (ext_ids s ! i) (slot_vec s (of_nat i)) (metas s ! i)) (live_ids s)"

lemma live_ids_bound:
  assumes "store_wf s" and "i \<in> set (live_ids s)"
  shows "i < length (ext_ids s)" "unat (of_nat i :: u32) = i" "is_live s (of_nat i)"
  using assms store_wfD(2) [OF assms(1)] by (auto simp: live_ids_def slot_count_def)

lemma live_entry_ok:
  assumes "store_wf s" and "i \<in> set (live_ids s)"
  shows "live_entry s i = Inr (entry_op (ext_ids s ! i) (slot_vec s (of_nat i)) (metas s ! i))"
  using live_ids_bound [OF assms] vs_get_slot [OF assms(1), of "of_nat i"] store_wfD(5) [OF assms(1)]
  by (simp add: live_entry_def external_id_def vec_simps slot_count_def entry_op_def vs_metadata_def)

lemma collect_entries:
  assumes "store_wf s" and "set js \<subseteq> set (live_ids s)"
  shows "rfold (\<lambda>i out. rbind (live_entry s i) (\<lambda>p. Inr (out @ f p))) js acc =
    Inr (acc @ concat (map f (map (\<lambda>i. entry_op (ext_ids s ! i) (slot_vec s (of_nat i)) (metas s ! i)) js)))"
  using assms(2) by (induction js arbitrary: acc) (simp_all add: live_entry_ok [OF assms(1)])

lemma snapshot_bytes_ok: "store_wf s \<Longrightarrow> snapshot_bytes s = Inr (concat (map snapshot_record (snap_ops s)))"
  using collect_entries [of s "live_ids s" snapshot_record "[]"] by (simp add: snapshot_bytes_def snap_ops_def)

lemma compact_entries_ok:
  assumes "store_wf s"
  shows "compact_entries s = Inr (snap_ops s)"
proof -
  let ?f = "\<lambda>p. [p\<lparr>op_meta := Some (case op_meta p of Some m \<Rightarrow> m | None \<Rightarrow> [])\<rparr>]"
  have "concat (map ?f (snap_ops s)) = snap_ops s"
    by (auto simp: snap_ops_def entry_op_def comp_def concat_map_singleton)
  with collect_entries [OF assms, of "live_ids s" ?f "[]"] show ?thesis
    by (simp add: compact_entries_def snap_ops_def)
qed

lemma fold_inserts:
  assumes "\<forall>p \<in> set ps. op_type p = Insert" and "distinct (map op_ext_id ps)"
  shows "fold spec_apply ps A = A ++ map_of (map (\<lambda>p. (op_ext_id p, op_vec p, case op_meta p of Some m \<Rightarrow> m | None \<Rightarrow> [])) ps)"
  using assms
proof (induction ps arbitrary: A)
  case (Cons p ps)
  let ?M = "map_of (map (\<lambda>p. (op_ext_id p, op_vec p, case op_meta p of Some m \<Rightarrow> m | None \<Rightarrow> [])) ps)"
  let ?v = "(op_vec p, case op_meta p of Some m \<Rightarrow> m | None \<Rightarrow> [])"
  have "op_ext_id p \<notin> dom ?M"
    using Cons.prems(2) by (auto simp: dom_map_of_conv_image_fst image_image)
  then have "A(op_ext_id p \<mapsto> ?v) ++ ?M = A ++ ?M(op_ext_id p \<mapsto> ?v)"
    by (auto simp: map_add_def fun_eq_iff split: option.split)
  moreover have "spec_apply p A = A(op_ext_id p \<mapsto> ?v)"
    using Cons.prems(1) by (simp add: spec_apply_def)
  moreover have "fold spec_apply ps (spec_apply p A) = spec_apply p A ++ ?M"
    by (rule Cons.IH) (use Cons.prems in auto)
  ultimately show ?case
    by (simp only: fold_simps list.map map_of.simps fst_conv snd_conv)
qed simp

lemma snap_ops_keys:
  assumes "store_wf s"
  shows "distinct (map op_ext_id (snap_ops s))"
proof -
  have "inj_on (\<lambda>i. ext_ids s ! i) (set (live_ids s))"
    using ext_ids_inj [OF assms] live_ids_bound(1) [OF assms] by (auto simp: inj_on_def)
  then show ?thesis
    by (simp add: snap_ops_def entry_op_def comp_def distinct_map live_ids_def)
qed

lemma snap_ops_abs:
  assumes "store_wf s"
  shows "fold spec_apply (snap_ops s) Map.empty = store_abs s"
proof -
  let ?l = "map (\<lambda>p. (op_ext_id p, op_vec p, case op_meta p of Some m \<Rightarrow> m | None \<Rightarrow> [])) (snap_ops s)"
  have d: "distinct (map fst ?l)"
    using snap_ops_keys [OF assms] by (simp add: comp_def)
  have "map_of ?l k = store_abs s k" for k
  proof (cases "store_abs s k")
    case None
    have "k \<notin> fst ` set ?l"
      using None live_abs(2) [OF assms] live_ids_bound [OF assms] by (fastforce simp: snap_ops_def entry_op_def)
    then show ?thesis
      using None by (simp add: map_of_eq_None_iff)
  next
    case (Some e)
    obtain v m where e: "e = (v, m)" by (cases e)
    obtain i where i: "is_live s i" "external_id s i = Inr k" "v = slot_vec s i" "m = metas s ! unat i"
      using abs_live [OF assms] Some e by blast
    then have "unat i \<in> set (live_ids s)" "ext_ids s ! unat i = k"
      using is_live_slot [OF assms] by (auto simp: live_ids_def external_id_def res_simps)
    with i have "(k, v, m) \<in> set ?l"
      by (force simp: snap_ops_def entry_op_def)
    with d Some e show ?thesis
      by simp
  qed
  then show ?thesis
    using fold_inserts [OF _ snap_ops_keys [OF assms], of Map.empty] by (auto simp: snap_ops_def entry_op_def)
qed

lemma snap_ops_history:
  assumes "store_wf s" and "entries_ok (vs_dim s) (store_abs s)"
  shows "history_ok (vs_dim s) (snap_ops s)"
  unfolding history_ok_def
proof
  fix p assume "p \<in> set (snap_ops s)"
  then obtain i where i: "i \<in> set (live_ids s)" "p = entry_op (ext_ids s ! i) (slot_vec s (of_nat i)) (metas s ! i)"
    by (auto simp: snap_ops_def)
  then have "store_abs s (ext_ids s ! i) = Some (slot_vec s (of_nat i), metas s ! i)"
    using live_abs(2) [OF assms(1), of "of_nat i"] live_ids_bound [OF assms(1) i(1)] by simp
  then have "length (slot_vec s (of_nat i)) = unat (vs_dim s)" "op_loggable p"
    using assms(2) i(2) by (auto simp: entries_ok_def)
  then show "op_ok (vs_dim s) p \<and> op_loggable p"
    using i(2) by (auto simp: op_ok_def entry_op_def op_loggable_def op_encodable_def meta_ok_def)
qed

text \<open>A snapshot does not depend on what the log holds: it publishes the entries and starts the log afresh.\<close>

lemma snapshot_publishes:
  assumes e: "engine_wf e" and wb: "eng_wal e = Some w" "eng_blobs e = Some b" "healthy (ls_env w)" "blob_good b"
    and ent: "entries_ok (cfg_dim (eng_cfg e)) (store_abs (eng_store e))"
  shows "\<exists>w' b'. engine_snapshot e = (e\<lparr>eng_blobs := Some b', eng_wal := Some w'\<rparr>, Inr ())
    \<and> blob_good b' \<and> holds_snapshot b' (snap_ops (eng_store e))
    \<and> journal (e\<lparr>eng_blobs := Some b', eng_wal := Some w'\<rparr>) (snap_ops (eng_store e)) []"
proof -
  let ?s = "eng_store e"
  note D = engine_wfD [OF e]
  have "blob_key kSnapshotKey"
    by (simp add: blob_key_def kSnapshotKey_def suffix_def)
  from file_blobs.put_ok [OF wb(4) this] obtain b' where b': "blob_put kSnapshotKey (concat (map snapshot_record (snap_ops ?s))) b = (b', Inr ())"
    "blob_good b'" "blob_look b' kSnapshotKey = Some (concat (map snapshot_record (snap_ops ?s)))"
    by blast
  obtain env where env: "log_truncate w = (w\<lparr>ls_fd := True, ls_file := [], ls_synced := 0, ls_env := env\<rparr>, Inr ())" "healthy env"
    using log_truncate_ok wb(3) by blast
  let ?w = "w\<lparr>ls_fd := True, ls_file := [], ls_synced := 0, ls_env := env\<rparr>"
  have w': "log_good ?w \<and> log_recs ?w = []"
    using env(2) by (intro log_goodI) auto
  have "history_ok (vs_dim ?s) (snap_ops ?s)"
    using snap_ops_history [OF D(1)] ent D(4) by simp
  then show ?thesis
    using wb b' env(1) w' ent D snapshot_bytes_ok [OF D(1)] snap_ops_abs [OF D(1)]
    by (intro exI [of _ ?w] exI [of _ b']) (simp add: engine_snapshot_def Let_def journal_def holds_snapshot_def)
qed

lemma snapshot_ok:
  assumes e: "engine_wf e" and j: "journal e sops wops"
  shows "\<exists>w' b'. engine_snapshot e = (e\<lparr>eng_blobs := Some b', eng_wal := Some w'\<rparr>, Inr ())
    \<and> blob_good b' \<and> holds_snapshot b' (snap_ops (eng_store e))
    \<and> journal (e\<lparr>eng_blobs := Some b', eng_wal := Some w'\<rparr>) (snap_ops (eng_store e)) []"
  using snapshot_publishes [OF e] j log_goodD(2) by (auto simp: journal_def)

section \<open>Compaction\<close>

lemma reinsert_fresh:
  assumes "store_wf s" and "coupled s x" and "op_type p = Insert" and "op_meta p = Some m" and "op_ok (vs_dim s) p"
    and "ext_to_int s (op_ext_id p) = None" and "has_room s"
  shows "reinsert p (s, x) = rbind (apply_mem p (s, x)) (\<lambda>(_, m'). Inr m')"
proof -
  have r: "resolve s (op_ext_id p) = Inr None"
    using assms(1,6) by (simp add: resolve_total)
  have p: "p = \<lparr>op_type = Insert, op_ext_id = op_ext_id p, op_vec = op_vec p, op_meta = Some m\<rparr>"
    using assms(3,4) by (cases p) simp
  obtain i s' where v: "vs_apply p s = Inr (Some i, s')"
    using vs_apply_spec [OF assms(1,5)] assms(3,7) by auto
  then have "vs_insert (op_ext_id p) (op_vec p) m s = Inr (i, s')"
    unfolding vs_insert_def p [symmetric] by simp
  then show ?thesis
    using r v assms(3,4) by (simp add: reinsert_def apply_mem_def rbind_assoc)
qed

lemma reinsert_all:
  assumes "mem_wf mk (s, x)" and "\<forall>p \<in> set ps. op_type p = Insert \<and> op_meta p \<noteq> None \<and> op_ok (vs_dim s) p"
    and "distinct (ext_ids s @ map op_ext_id ps)" and "length (ext_ids s) + length ps < 2 ^ 32"
  shows "\<exists>s' x'. rfold reinsert ps (s, x) = Inr (s', x') \<and> mem_wf mk (s', x') \<and> vs_dim s' = vs_dim s
    \<and> ext_ids s' = ext_ids s @ map op_ext_id ps \<and> store_abs s' = fold spec_apply ps (store_abs s)
    \<and> run_ops ps (s, x) = Inr (s', x')"
  using assms
proof (induction ps arbitrary: s x)
  case (Cons p ps)
  have m: "store_wf s" "coupled s x" "index_metric x = mk"
    using Cons.prems(1) by (simp_all add: mem_wf_def)
  obtain md where p: "op_type p = Insert" "op_meta p = Some md" "op_ok (vs_dim s) p"
    using Cons.prems(2) by auto
  have fresh: "ext_to_int s (op_ext_id p) = None"
  proof (rule ccontr)
    assume "ext_to_int s (op_ext_id p) \<noteq> None"
    then obtain i where "ext_to_int s (op_ext_id p) = Some i"
      by blast
    from ext_to_int_bound [OF m(1) this] have "op_ext_id p \<in> set (ext_ids s)"
      by (metis nth_mem)
    with Cons.prems(3) show False
      by simp
  qed
  have room: "has_room s"
    using Cons.prems(4) by (simp add: has_room_def)
  obtain i s1 x1 where s1: "apply_mem p (s, x) = Inr (i, s1, x1)" "store_wf s1" "coupled s1 x1" "vs_dim s1 = vs_dim s"
    "store_abs s1 = spec_apply p (store_abs s)" "index_metric x1 = mk" "ext_ids s1 = ext_ids s @ [op_ext_id p]"
    using apply_insert [OF m(1,2) p(3,1)] room fresh m(3) by auto
  have "reinsert p (s, x) = Inr (s1, x1)"
    using reinsert_fresh [OF m(1,2) p(1,2,3) fresh room] s1(1) by simp
  moreover have "mem_wf mk (s1, x1)"
    using s1 by (simp add: mem_wf_def)
  ultimately show ?case
    using Cons.IH [of s1 x1] Cons.prems s1 by (auto simp: run_ops_def)
qed (simp add: run_ops_def)

lemma dumped_op_ok:
  assumes "store_wf s" and "p \<in> set (snap_ops s)"
  shows "op_ok (vs_dim s) p"
proof -
  obtain i where i: "i \<in> set (live_ids s)" "p = entry_op (ext_ids s ! i) (slot_vec s (of_nat i)) (metas s ! i)"
    using assms(2) by (auto simp: snap_ops_def)
  have "i < slot_count s" "unat (of_nat i :: internal_id) = i"
    using live_ids_bound [OF assms(1) i(1)] by (auto simp: slot_count_def)
  then show ?thesis
    using i(2) length_slot_vec [OF assms(1), of "of_nat i"] store_wfD(5,7) [OF assms(1)]
    by (auto simp: op_ok_def entry_op_def slot_count_def)
qed

lemma compact_mem:
  assumes e: "engine_wf e" and cfg: "hnsw_config_ok (eng_cfg e)"
  shows "\<exists>s x. rbind (compact_entries (eng_store e)) (\<lambda>live. rbind (vs_new (cfg_dim (eng_cfg e))) (\<lambda>s.
       rfold reinsert live (s, make_index (eng_cfg e)))) = Inr (s, x)
    \<and> mem_wf (cfg_metric (eng_cfg e)) (s, x) \<and> vs_dim s = cfg_dim (eng_cfg e)
    \<and> store_abs s = store_abs (eng_store e) \<and> slot_count s = vs_size s
    \<and> run_ops (snap_ops (eng_store e)) (vs_empty (cfg_dim (eng_cfg e)), make_index (eng_cfg e)) = Inr (s, x)"
proof -
  let ?s = "eng_store e" and ?d = "cfg_dim (eng_cfg e)"
  note D = engine_wfD [OF e]
  have d: "?d \<noteq> 0"
    using store_wfD(1) [OF D(1)] D(4) by simp
  have live: "length (snap_ops ?s) = length (live_ids ?s)" "length (live_ids ?s) \<le> length (ext_ids ?s)"
    by (simp_all add: snap_ops_def live_ids_def slot_count_def)
      (metis length_filter_le length_upt minus_nat.diff_0)
  then have "length (ext_ids (vs_empty ?d)) + length (snap_ops ?s) < 2 ^ 32"
    using store_wfD(2) [OF D(1)] by simp
  moreover have "\<forall>p \<in> set (snap_ops ?s). op_type p = Insert \<and> op_meta p \<noteq> None \<and> op_ok (vs_dim (vs_empty ?d)) p"
    using dumped_op_ok [OF D(1)] D(4) by (auto simp: snap_ops_def entry_op_def)
  ultimately obtain s x where sx: "rfold reinsert (snap_ops ?s) (vs_empty ?d, make_index (eng_cfg e)) = Inr (s, x)"
    "mem_wf (cfg_metric (eng_cfg e)) (s, x)" "vs_dim s = ?d" "ext_ids s = map op_ext_id (snap_ops ?s)"
    "store_abs s = store_abs ?s" "run_ops (snap_ops ?s) (vs_empty ?d, make_index (eng_cfg e)) = Inr (s, x)"
    using reinsert_all [OF fresh_memory [OF d cfg], of "snap_ops ?s"] snap_ops_keys [OF D(1)] snap_ops_abs [OF D(1)]
    by (auto simp: vs_empty_wf(2))
  have ins: "\<forall>p \<in> set (snap_ops ?s). op_type p = Insert"
    by (auto simp: snap_ops_def entry_op_def)
  have dom: "dom (store_abs s) = set (ext_ids s)"
    unfolding sx(5) snap_ops_abs [OF D(1), symmetric] fold_inserts [OF ins snap_ops_keys [OF D(1)]]
    by (simp add: dom_map_of_conv_image_fst image_image sx(4))
  have "vs_size s = card (dom (store_abs s))"
    using size_card sx(2) by (simp add: mem_wf_def)
  also have "\<dots> = slot_count s"
    using distinct_card [OF snap_ops_keys [OF D(1)]] dom sx(4) by (simp add: slot_count_def)
  finally show ?thesis
    using sx d compact_entries_ok [OF D(1)] by (simp add: vs_new_def)
qed

lemma compact_ok:
  assumes e: "engine_wf e" and cfg: "hnsw_config_ok (eng_cfg e)" and j: "journal e sops wops"
  shows "\<exists>e'. engine_compact e = (e', Inr ()) \<and> engine_wf e' \<and> journal e' (snap_ops (eng_store e')) [] \<and> eng_cfg e' = eng_cfg e
    \<and> store_abs (eng_store e') = store_abs (eng_store e) \<and> slot_count (eng_store e') = vs_size (eng_store e')
    \<and> run_ops (snap_ops (eng_store e)) (vs_empty (cfg_dim (eng_cfg e)), make_index (eng_cfg e)) = Inr (eng_store e', eng_index e')"
proof -
  obtain s x where sx: "rbind (compact_entries (eng_store e)) (\<lambda>live. rbind (vs_new (cfg_dim (eng_cfg e))) (\<lambda>s.
       rfold reinsert live (s, make_index (eng_cfg e)))) = Inr (s, x)"
    "mem_wf (cfg_metric (eng_cfg e)) (s, x)" "vs_dim s = cfg_dim (eng_cfg e)"
    "store_abs s = store_abs (eng_store e)" "slot_count s = vs_size s"
    "run_ops (snap_ops (eng_store e)) (vs_empty (cfg_dim (eng_cfg e)), make_index (eng_cfg e)) = Inr (s, x)"
    using compact_mem [OF e cfg] by blast
  let ?e = "e\<lparr>eng_store := s, eng_index := x\<rparr>"
  have wf: "engine_wf ?e" and j': "journal ?e sops wops"
    using sx j by (auto simp: engine_wf_def journal_def)
  have "eng_blobs ?e \<noteq> None"
    using j by (auto simp: journal_def)
  with snapshot_ok [OF wf j'] sx wf show ?thesis
    by (auto simp: engine_compact_def Let_def engine_wf_def)
qed

section \<open>Properties\<close>

subsection \<open>A durable engine for the witnesses\<close>

definition durable_config :: engine_config where
  "durable_config = \<lparr>cfg_dim = 1, cfg_metric = L2, cfg_index = Flat_kind, cfg_hnsw = demo_params,
     cfg_persistence = Some \<lparr>pc_dir = ''data'', pc_sync = Always\<rparr>\<rparr>"

definition no_blobs :: blob_store where
  "no_blobs = \<lparr>bs_dir = ''data/blobs'', bs_files = Map.empty, bs_puts = [], bs_reads = []\<rparr>"

definition durable_engine :: engine where
  "durable_engine = \<lparr>eng_cfg = durable_config, eng_store = vs_empty 1, eng_index = make_index durable_config,
     eng_wal = Some (log_on []), eng_blobs = Some no_blobs\<rparr>"

lemma durable_fields [simp]:
  "eng_cfg durable_engine = durable_config" "eng_store durable_engine = vs_empty 1"
  "eng_wal durable_engine = Some (log_on [])" "eng_blobs durable_engine = Some no_blobs"
  "cfg_dim durable_config = 1" "cfg_persistence durable_config = Some \<lparr>pc_dir = ''data'', pc_sync = Always\<rparr>"
  "hnsw_config_ok durable_config"
  by (simp_all add: durable_engine_def durable_config_def hnsw_config_ok_def)

lemma healthy_demo [simp]: "healthy healthy_env"
  by (simp add: healthy_def healthy_env_def)

lemma durable_engine_wf: "engine_wf durable_engine"
  using fresh_memory [of durable_config] by (simp add: engine_wf_def) (simp add: durable_engine_def)

lemma durable_engine_journal: "journal durable_engine [] []"
proof -
  have "log_good (log_on []) \<and> log_recs (log_on []) = []"
    by (rule log_goodI) (simp_all add: log_on_def)
  then show ?thesis
    by (simp add: journal_def blob_good_def no_blobs_def holds_snapshot_def blob_look_def history_ok_def entries_ok_def
        vs_empty_wf(2))
qed

lemma demo_entry: "op_ok 1 (entry_op ''a'' [f32_one] [])" "op_loggable (entry_op ''a'' [f32_one] [])"
  by (simp_all add: op_ok_def entry_op_def meta_wf_def op_loggable_def op_encodable_def str_ok_def meta_ok_def
      record_ok_def canonical_def encode_op_def encode_metadata_def)

text \<open>After one insertion into it.\<close>

lemma engine_with_entry:
  obtains e w b where "engine_wf e" "journal e [] [entry_op ''a'' [f32_one] []]" "eng_cfg e = durable_config"
    "store_abs (eng_store e) = [''a'' \<mapsto> ([f32_one], [])]" "eng_wal e = Some w" "eng_blobs e = Some b"
proof -
  have "op_room (entry_op ''a'' [f32_one] []) (vs_empty 1)"
    by (simp add: op_room_def has_room_def)
  then obtain e where "engine_wf e" "journal e [] [entry_op ''a'' [f32_one] []]" "eng_cfg e = durable_config"
    "store_abs (eng_store e) = spec_apply (entry_op ''a'' [f32_one] []) Map.empty"
    using apply_op_ok [OF durable_engine_wf durable_engine_journal, of "entry_op ''a'' [f32_one] []"] demo_entry
    by (auto simp: vs_empty_wf(2))
  then show thesis
    using that [of e] by (auto simp: journal_def entry_op_def spec_apply_def)
qed

subsection \<open>Mutations\<close>

text \<open>C4: An insertion into a durable engine succeeds, adds the entry to the database, returns the id under
  which it is found, keeps index and store coupled, and extends the log by exactly its record.\<close>

theorem engine_insert_refines:
  assumes "engine_wf e" and "journal e sops wops" and "op_ok (cfg_dim (eng_cfg e)) (entry_op k v m)"
    and "op_loggable (entry_op k v m)" and "op_room (entry_op k v m) (eng_store e)"
  shows "\<exists>e' i. engine_insert k v m e = (e', Inr i) \<and> engine_wf e' \<and> journal e' sops (wops @ [entry_op k v m])
    \<and> store_abs (eng_store e') = (store_abs (eng_store e))(k \<mapsto> (v, m)) \<and> resolve (eng_store e') k = Inr (Some i)"
proof -
  have "engine_insert k v m e = apply_op (entry_op k v m) True e"
    by (simp add: engine_insert_def entry_op_def)
  then show ?thesis
    using apply_op_ok [OF assms] by (auto simp: entry_op_def spec_apply_def)
qed

theorem engine_insert_refines_witness:
  "\<exists>e' i. engine_insert ''a'' [f32_one] [] durable_engine = (e', Inr i) \<and> store_abs (eng_store e') ''a'' = Some ([f32_one], [])"
  using engine_insert_refines [OF durable_engine_wf durable_engine_journal, of "''a''" "[f32_one]" "[]"] demo_entry
  by (fastforce simp: op_room_def has_room_def)

lemma mutate_existing:
  assumes "engine_wf e" and "journal e sops wops" and "op_ok (cfg_dim (eng_cfg e)) p" and "op_loggable p" and "op_type p \<noteq> Insert"
  shows "\<exists>e' i. apply_op p True e = (e', Inr i) \<and> engine_wf e' \<and> journal e' sops (wops @ [p]) \<and> eng_cfg e' = eng_cfg e
    \<and> store_abs (eng_store e') = spec_apply p (store_abs (eng_store e))"
  using apply_op_ok [OF assms(1-4)] assms(5) by (auto simp: op_room_def)

lemma resolve_cases:
  assumes "engine_wf e"
  obtains "store_abs (eng_store e) k = None" "resolve (eng_store e) k = Inr None"
  | i where "store_abs (eng_store e) k \<noteq> None" "resolve (eng_store e) k = Inr (Some i)"
  using resolve_abs [OF engine_wfD(1) [OF assms], of k] by fastforce

text \<open>C6: An update of an entry that exists replaces its vector, and its metadata if given, and is logged; an
  update of an absent or deleted id returns \<open>false\<close> and changes nothing, in memory or in the log.\<close>

theorem engine_update_refines:
  assumes "engine_wf e" and "journal e sops wops"
    and "op_ok (cfg_dim (eng_cfg e)) \<lparr>op_type = Update, op_ext_id = k, op_vec = v, op_meta = m\<rparr>"
    and "op_loggable \<lparr>op_type = Update, op_ext_id = k, op_vec = v, op_meta = m\<rparr>"
  shows "case store_abs (eng_store e) k of
      None \<Rightarrow> engine_update k v m e = (e, Inr False)
    | Some (_, old) \<Rightarrow> \<exists>e'. engine_update k v m e = (e', Inr True) \<and> engine_wf e'
        \<and> journal e' sops (wops @ [\<lparr>op_type = Update, op_ext_id = k, op_vec = v, op_meta = m\<rparr>])
        \<and> store_abs (eng_store e') = (store_abs (eng_store e))(k \<mapsto> (v, case m of Some x \<Rightarrow> x | None \<Rightarrow> old))"
proof (rule resolve_cases [OF assms(1), of k])
  assume "store_abs (eng_store e) k = None" "resolve (eng_store e) k = Inr None"
  then show ?thesis
    by (simp add: engine_update_def)
next
  fix i assume "store_abs (eng_store e) k \<noteq> None" "resolve (eng_store e) k = Inr (Some i)"
  then show ?thesis
    using mutate_existing [OF assms] by (auto simp: engine_update_def spec_apply_def)
qed

theorem engine_update_refines_witness:
  "\<exists>e e'. engine_update ''a'' [f32_zero] None e = (e', Inr True) \<and> store_abs (eng_store e') ''a'' = Some ([f32_zero], [])"
proof (rule engine_with_entry)
  fix e assume e: "engine_wf e" "journal e [] [entry_op ''a'' [f32_one] []]" "eng_cfg e = durable_config"
    "store_abs (eng_store e) = [''a'' \<mapsto> ([f32_one], [])]"
  then show ?thesis
    using engine_update_refines [OF e(1,2), of "''a''" "[f32_zero]" None]
    by (fastforce simp: op_ok_def op_loggable_def op_encodable_def str_ok_def record_ok_def canonical_def encode_op_def)
qed

text \<open>C7: Erasing an entry that exists removes it and is logged; erasing an absent or deleted id returns
  \<open>false\<close> and changes nothing, in memory or in the log.\<close>

theorem engine_erase_refines:
  assumes "engine_wf e" and "journal e sops wops" and "length k < 2 ^ 31"
  shows "if store_abs (eng_store e) k = None then engine_erase k e = (e, Inr False)
    else \<exists>e'. engine_erase k e = (e', Inr True) \<and> engine_wf e'
        \<and> journal e' sops (wops @ [\<lparr>op_type = Delete, op_ext_id = k, op_vec = [], op_meta = None\<rparr>])
        \<and> store_abs (eng_store e') = (store_abs (eng_store e))(k := None)"
proof (rule resolve_cases [OF assms(1), of k])
  assume "store_abs (eng_store e) k = None" "resolve (eng_store e) k = Inr None"
  then show ?thesis
    by (simp add: engine_erase_def)
next
  let ?p = "\<lparr>op_type = Delete, op_ext_id = k, op_vec = [], op_meta = None\<rparr>"
  have "op_ok (cfg_dim (eng_cfg e)) ?p" "op_loggable ?p"
    using assms(3) by (simp_all add: op_ok_def op_loggable_def op_encodable_def str_ok_def record_ok_def canonical_def encode_op_def)
  note m = mutate_existing [OF assms(1,2) this]
  fix i assume "store_abs (eng_store e) k \<noteq> None" "resolve (eng_store e) k = Inr (Some i)"
  then show ?thesis
    using m by (auto simp: engine_erase_def spec_apply_def)
qed

theorem engine_erase_refines_witness:
  "\<exists>e e'. store_abs (eng_store e) ''a'' \<noteq> None \<and> engine_erase ''a'' e = (e', Inr True) \<and> store_abs (eng_store e') ''a'' = None"
proof (rule engine_with_entry)
  fix e assume e: "engine_wf e" "journal e [] [entry_op ''a'' [f32_one] []]" "store_abs (eng_store e) = [''a'' \<mapsto> ([f32_one], [])]"
  then obtain e' where "engine_erase ''a'' e = (e', Inr True)" "store_abs (eng_store e') ''a'' = None"
    using engine_erase_refines [OF e(1,2), of "''a''"] by auto
  with e(3) show ?thesis
    by (intro exI [of _ e] exI [of _ e']) simp
qed

subsection \<open>Recovery\<close>

lemma journal_history:
  assumes "journal e sops wops" and "eng_wal e = Some w" and "eng_blobs e = Some b"
  shows "blob_good b" "holds_snapshot b sops" "history_ok (cfg_dim (eng_cfg e)) (sops @ wops)"
    "ls_file w = frames (map encode_op wops)"
  using assms log_goodD(3) [of w] by (auto simp: journal_def)

text \<open>C2: Recovery after a crash. If the log of a durable engine survives up to any byte \<open>n\<close>, a new engine on
  the directory comes up well formed, with the state the snapshot and the first \<open>j\<close> logged operations give,
  where \<open>j\<close> counts exactly the operations whose records survived whole; if all of the log survived, the
  database is the one before the crash and the new engine continues the same history.\<close>

theorem recovery_after_crash:
  assumes "engine_wf e" and "journal e sops wops" and "eng_wal e = Some w" and "eng_blobs e = Some b"
    and "cfg_persistence (eng_cfg e) = Some pc" and "hnsw_config_ok (eng_cfg e)" and "healthy env"
    and "length (sops @ wops) \<le> 2 ^ 32 - 1"
  shows "\<exists>e' j. engine_new (eng_cfg e) True b (take n (ls_file w)) env = Inr e' \<and> engine_wf e'
    \<and> store_abs (eng_store e') = fold spec_apply (sops @ take j wops) Map.empty
    \<and> (\<forall>i \<le> length wops. length (frames (map encode_op (take i wops))) \<le> n \<longleftrightarrow> i \<le> j)
    \<and> (length (ls_file w) \<le> n \<longrightarrow> store_abs (eng_store e') = store_abs (eng_store e) \<and> journal e' sops wops)"
proof -
  note h = journal_history [OF assms(2-4)]
  let ?rs = "map encode_op wops" and ?j = "whole_frames n (map encode_op wops)"
  have "cfg_dim (eng_cfg e) \<noteq> 0"
    using store_wfD(1) [OF engine_wfD(1) [OF assms(1)]] engine_wfD(4) [OF assms(1)] by simp
  from engine_new_ok [OF this assms(6,5) h(1,2) assms(7) h(3) assms(8)] obtain e'
    where e': "engine_new (eng_cfg e) True b (take n (frames ?rs)) env = Inr e'" "engine_wf e'"
      "store_abs (eng_store e') = fold spec_apply (sops @ take ?j wops) Map.empty"
      "length (frames ?rs) \<le> n \<longrightarrow> journal e' sops wops"
    by blast
  have within: "length (frames (map encode_op (take i wops))) \<le> n \<longleftrightarrow> i \<le> ?j" if "i \<le> length wops" for i
    using whole_frames_iff [of i ?rs n] that by (simp add: take_map)
  have "store_abs (eng_store e') = store_abs (eng_store e)" if "length (ls_file w) \<le> n"
    using within [of "length wops"] that h(4) e'(3) assms(2) by (simp add: journal_def)
  with e' within h(4) show ?thesis
    by (intro exI [of _ e'] exI [of _ ?j]) simp
qed

theorem recovery_after_crash_witness:
  "\<exists>e w b e'. journal e [] [entry_op ''a'' [f32_one] []] \<and> eng_wal e = Some w \<and> eng_blobs e = Some b
    \<and> engine_new durable_config True b (ls_file w) healthy_env = Inr e' \<and> store_abs (eng_store e') ''a'' = Some ([f32_one], [])"
proof (rule engine_with_entry)
  fix e w b
  assume e: "engine_wf e" "journal e [] [entry_op ''a'' [f32_one] []]" "eng_cfg e = durable_config"
    "store_abs (eng_store e) = [''a'' \<mapsto> ([f32_one], [])]" and w: "eng_wal e = Some w" "eng_blobs e = Some b"
  obtain e' where "engine_new durable_config True b (ls_file w) healthy_env = Inr e'" "store_abs (eng_store e') = store_abs (eng_store e)"
    using recovery_after_crash [OF e(1,2) w, of "\<lparr>pc_dir = ''data'', pc_sync = Always\<rparr>" healthy_env "length (ls_file w)"] e(3)
    by auto
  with e w show ?thesis
    by (intro exI [of _ e] exI [of _ w] exI [of _ b] exI [of _ e']) simp
qed

text \<open>A snapshot of a durable engine succeeds, leaves the database untouched, and afterwards the snapshot
  alone, with an empty log, holds it.\<close>

lemma engine_snapshot_ok:
  assumes "engine_wf e" and "journal e sops wops"
  shows "\<exists>e'. engine_snapshot e = (e', Inr ()) \<and> engine_wf e' \<and> eng_store e' = eng_store e \<and> eng_index e' = eng_index e
    \<and> journal e' (snap_ops (eng_store e)) []"
proof -
  obtain w' b' where "engine_snapshot e = (e\<lparr>eng_blobs := Some b', eng_wal := Some w'\<rparr>, Inr ())"
    "journal (e\<lparr>eng_blobs := Some b', eng_wal := Some w'\<rparr>) (snap_ops (eng_store e)) []"
    using snapshot_ok [OF assms] by blast
  with assms(1) show ?thesis
    by (auto simp: engine_wf_def)
qed

lemma engine_snapshot_ok_witness: "\<exists>e'. engine_snapshot durable_engine = (e', Inr ()) \<and> engine_wf e'"
  using engine_snapshot_ok [OF durable_engine_wf durable_engine_journal] by blast

text \<open>C19: A crash between the two steps of a snapshot loses nothing: with the new snapshot published and the
  old log not yet truncated, recovery replays the logged operations on top of the state that already
  contains them, and arrives at the same database.\<close>

theorem snapshot_crash_window:
  assumes "engine_wf e" and "journal e sops wops" and "eng_wal e = Some w"
    and "cfg_persistence (eng_cfg e) = Some pc" and "hnsw_config_ok (eng_cfg e)" and "healthy env"
    and "length (snap_ops (eng_store e) @ wops) \<le> 2 ^ 32 - 1"
  shows "\<exists>e1 b1 e2. engine_snapshot e = (e1, Inr ()) \<and> eng_blobs e1 = Some b1
    \<and> engine_new (eng_cfg e) True b1 (ls_file w) env = Inr e2 \<and> engine_wf e2
    \<and> store_abs (eng_store e2) = store_abs (eng_store e)"
proof -
  let ?s = "eng_store e" and ?rs = "map encode_op wops"
  note D = engine_wfD [OF assms(1)]
  obtain w' b' where s: "engine_snapshot e = (e\<lparr>eng_blobs := Some b', eng_wal := Some w'\<rparr>, Inr ())"
    "blob_good b'" "holds_snapshot b' (snap_ops ?s)"
    using snapshot_ok [OF assms(1,2)] by blast
  have lf: "ls_file w = take (length (frames ?rs)) (frames ?rs)" and w: "\<forall>p \<in> set wops. op_ok (vs_dim ?s) p \<and> op_loggable p"
    and abs: "fold spec_apply wops (fold spec_apply sops Map.empty) = store_abs ?s"
    and ent: "entries_ok (vs_dim ?s) (store_abs ?s)"
    using assms(2,3) log_goodD(3) [of w] D(4) by (auto simp: journal_def history_ok_def)
  have hist: "history_ok (cfg_dim (eng_cfg e)) (snap_ops ?s @ wops)"
    using snap_ops_history [OF D(1) ent] w D(4) by (auto simp: history_ok_def)
  have d: "cfg_dim (eng_cfg e) \<noteq> 0"
    using store_wfD(1) [OF D(1)] D(4) by simp
  obtain e2 where e2: "engine_new (eng_cfg e) True b' (ls_file w) env = Inr e2" "engine_wf e2"
    "store_abs (eng_store e2) = fold spec_apply (snap_ops ?s @ wops) Map.empty"
    using engine_new_ok [OF d assms(5,4) s(2,3) assms(6) hist assms(7), of "length (frames ?rs)"] lf whole_frames_all [of ?rs]
    by auto
  have "fold spec_apply (snap_ops ?s @ wops) Map.empty = store_abs ?s"
    using snap_ops_abs [OF D(1)] history_idempotent [of wops "fold spec_apply sops Map.empty"] abs by simp
  with s(1) e2 show ?thesis
    by (intro exI [of _ "e\<lparr>eng_blobs := Some b', eng_wal := Some w'\<rparr>"] exI [of _ b'] exI [of _ e2]) simp
qed

theorem snapshot_crash_window_witness:
  "\<exists>e1 b1 e2. engine_snapshot durable_engine = (e1, Inr ()) \<and> eng_blobs e1 = Some b1
    \<and> engine_new durable_config True b1 [] healthy_env = Inr e2 \<and> store_abs (eng_store e2) = Map.empty"
  using snapshot_crash_window [OF durable_engine_wf durable_engine_journal, of "log_on []" "\<lparr>pc_dir = ''data'', pc_sync = Always\<rparr>" healthy_env]
  by (fastforce simp: log_on_def vs_empty_wf(2) snap_ops_def live_ids_def)

text \<open>An engine without a directory compacts its memory only.\<close>

lemma compact_memory_ok:
  assumes "engine_wf e" and "hnsw_config_ok (eng_cfg e)" and "eng_blobs e = None"
  shows "\<exists>e'. engine_compact e = (e', Inr ()) \<and> engine_wf e' \<and> eng_cfg e' = eng_cfg e
    \<and> store_abs (eng_store e') = store_abs (eng_store e) \<and> slot_count (eng_store e') = vs_size (eng_store e')"
proof -
  obtain s x where "rbind (compact_entries (eng_store e)) (\<lambda>live. rbind (vs_new (cfg_dim (eng_cfg e))) (\<lambda>s.
       rfold reinsert live (s, make_index (eng_cfg e)))) = Inr (s, x)"
    "mem_wf (cfg_metric (eng_cfg e)) (s, x)" "vs_dim s = cfg_dim (eng_cfg e)"
    "store_abs s = store_abs (eng_store e)" "slot_count s = vs_size s"
    using compact_mem [OF assms(1,2)] by blast
  with assms show ?thesis
    by (auto simp: engine_compact_def Let_def engine_wf_def)
qed

text \<open>C20: Compaction of an engine in good order, durable or not, succeeds, keeps the database and leaves no deleted slot
  behind: the slot count is the size. On a durable engine whose directory holds its database it also puts the compacted
  state into the snapshot and empties the log.\<close>

theorem engine_compact_ok:
  assumes "engine_wf e" and "hnsw_config_ok (eng_cfg e)" and "eng_blobs e \<noteq> None \<longrightarrow> (\<exists>sops wops. journal e sops wops)"
  shows "\<exists>e'. engine_compact e = (e', Inr ()) \<and> engine_wf e'
    \<and> store_abs (eng_store e') = store_abs (eng_store e) \<and> slot_count (eng_store e') = vs_size (eng_store e')
    \<and> (eng_blobs e \<noteq> None \<longrightarrow> journal e' (snap_ops (eng_store e')) [])"
proof (cases "eng_blobs e = None")
  case True
  then show ?thesis
    using compact_memory_ok [OF assms(1,2)] by auto
next
  case False
  then show ?thesis
    using compact_ok [OF assms(1,2)] assms(3) by blast
qed

definition tombstone_engine :: engine where
  "tombstone_engine = \<lparr>eng_cfg = durable_config\<lparr>cfg_persistence := None\<rparr>, eng_store = demo_two,
     eng_index = Flat \<lparr>flat_metric = L2, flat_ids = [1]\<rparr>, eng_wal = None, eng_blobs = None\<rparr>"

lemma tombstone_engine_wf: "engine_wf tombstone_engine"
proof -
  have "live_set demo_two = {1}"
    by (auto simp: live_set_def is_live_def demo_two_def two_slots)
  then show ?thesis
    using demo_two_wf by (simp add: engine_wf_def mem_wf_def tombstone_engine_def durable_config_def flat_coupled_def demo_two_def)
qed

text \<open>A store of two slots, one of them deleted, is left with one.\<close>

theorem engine_compact_ok_witness:
  "\<exists>e'. engine_compact tombstone_engine = (e', Inr ()) \<and> slot_count (eng_store tombstone_engine) = 2 \<and> slot_count (eng_store e') = 1
     \<and> store_abs (eng_store e') = store_abs (eng_store tombstone_engine)"
proof -
  have f: "hnsw_config_ok (eng_cfg tombstone_engine)" "eng_blobs tombstone_engine = None" "slot_count (eng_store tombstone_engine) = 2"
    "vs_size (eng_store tombstone_engine) = 1"
    by (simp_all add: tombstone_engine_def durable_config_def hnsw_config_ok_def slot_count_def demo_two_def vs_size_def)
  obtain e' where e': "engine_compact tombstone_engine = (e', Inr ())" "engine_wf e'"
    "store_abs (eng_store e') = store_abs (eng_store tombstone_engine)" "slot_count (eng_store e') = vs_size (eng_store e')"
    using engine_compact_ok [OF tombstone_engine_wf f(1)] f(2) by auto
  have "vs_size (eng_store e') = 1"
    using size_card [OF engine_wfD(1) [OF e'(2)]] size_card [OF engine_wfD(1) [OF tombstone_engine_wf]] e'(3) f(4) by simp
  with e' f(3) show ?thesis
    by auto
qed

subsection \<open>An operation that is logged and then rejected\<close>

lemma wrong_dim_rejected:
  assumes "mem_wf mk m" and "op_type p = Insert" and "length (op_vec p) < 2 ^ 32" and "length (op_vec p) \<noteq> unat (mem_dim m)"
  shows "apply_mem p m = Inl Invalid_argument"
proof -
  obtain s x where m: "m = (s, x)" by (cases m)
  then have wf: "store_wf s"
    using assms(1) by (simp add: mem_wf_def)
  have "vs_apply p s = Inl Invalid_argument"
    using validate_dim_fail [of "op_vec p" s] assms(2-4) by (simp add: m mem_dim_def vs_apply_def do_insert_def)
  then show ?thesis
    using assms(2) resolve_abs [OF wf, of "op_ext_id p"] by (auto simp: m apply_mem_def)
qed

text \<open>
  C37: The write-ahead log can be poisoned. An insertion whose vector has the wrong length throws
  \<open>invalid_argument\<close>, but only after its record was appended; on the directory as it is then, until a snapshot
  truncates the log, no engine can be opened, since recovery replays the record and its constructor throws the
  same exception.
\<close>

theorem rejected_insert_poisons_log:
  assumes "engine_wf e" and "journal e sops wops" and "eng_blobs e = Some b"
    and "cfg_persistence (eng_cfg e) = Some pc" and "hnsw_config_ok (eng_cfg e)" and "healthy env"
    and "length (sops @ wops) \<le> 2 ^ 32 - 1"
    and "op_loggable (entry_op k v m)" and "length v \<noteq> unat (cfg_dim (eng_cfg e))"
  shows "\<exists>e' w'. engine_insert k v m e = (e', Inl Invalid_argument) \<and> eng_store e' = eng_store e \<and> eng_wal e' = Some w'
    \<and> engine_new (eng_cfg e) True b (ls_file w') env = Inl Invalid_argument"
proof -
  let ?p = "entry_op k v m" and ?cfg = "eng_cfg e"
  note D = engine_wfD [OF assms(1)]
  have p: "op_type ?p = Insert" "length (op_vec ?p) < 2 ^ 32" "op_vec ?p = v"
    using assms(8) by (simp_all add: entry_op_def op_loggable_def op_encodable_def)
  obtain w' where w': "log_op ?p e = (e\<lparr>eng_wal := Some w'\<rparr>, Inr ())" "log_good w'" "log_recs w' = map encode_op (wops @ [?p])"
    using log_op_ok [OF assms(2,8)] by blast
  have "apply_mem ?p (eng_store e, eng_index e) = Inl Invalid_argument"
    using wrong_dim_rejected [of _ "(eng_store e, eng_index e)" ?p] assms(1,9) p D(4) by (auto simp: engine_wf_def mem_dim_def)
  then have ins: "engine_insert k v m e = (e\<lparr>eng_wal := Some w'\<rparr>, Inl Invalid_argument)"
    using w'(1) by (simp add: engine_insert_def apply_op_def entry_op_def)
  obtain w where w: "eng_wal e = Some w"
    using assms(2) by (auto simp: journal_def)
  note h = journal_history [OF assms(2) w assms(3)]
  have d: "cfg_dim ?cfg \<noteq> 0"
    using store_wfD(1) [OF D(1)] D(4) by simp
  let ?log = "\<lparr>ls_policy = pc_sync pc, ls_fd = True, ls_file = ls_file w', ls_synced = 0, ls_env = env\<lparr>env_opens := tl (env_opens env)\<rparr>\<rparr>"
  let ?e = "\<lparr>eng_cfg = ?cfg, eng_store = vs_empty (cfg_dim ?cfg), eng_index = make_index ?cfg, eng_wal = Some ?log, eng_blobs = Some b\<rparr>"
  have "healthy (env\<lparr>env_opens := tl (env_opens env)\<rparr>)"
    by (rule healthy_mono [OF assms(6)]) (simp_all add: set_tl_subset)
  then have "recover ?e = Inl Invalid_argument"
    using recover_rejected [of "cfg_metric ?cfg" "(vs_empty (cfg_dim ?cfg), make_index ?cfg)" "cfg_dim ?cfg" ?e b ?log sops wops ?p]
      fresh_memory [OF d assms(5)] h assms(7,8,9) p wrong_dim_rejected log_goodD(3) [OF w'(2)] w'(3)
    by (simp add: mem_dim_def mem_abs_def vs_empty_wf(2) mem_room_def store_room_def)
  moreover have "open_log (pc_sync pc) (ls_file w') env = Inr ?log"
    using opens_ok [OF assms(6)] by (auto simp: open_log_def)
  ultimately have "engine_new ?cfg True b (ls_file w') env = Inl Invalid_argument"
    using d assms(4) by (simp add: engine_new_def open_blobs_def vs_new_def)
  with ins show ?thesis
    by auto
qed

theorem rejected_insert_poisons_log_witness:
  "\<exists>e' w'. engine_insert ''a'' [] [] durable_engine = (e', Inl Invalid_argument) \<and> eng_wal e' = Some w'
    \<and> engine_new durable_config True no_blobs (ls_file w') healthy_env = Inl Invalid_argument"
  using rejected_insert_poisons_log [OF durable_engine_wf durable_engine_journal, of no_blobs
      "\<lparr>pc_dir = ''data'', pc_sync = Always\<rparr>" healthy_env "''a''" "[]" "[]"]
  by (fastforce simp: entry_op_def op_loggable_def op_encodable_def str_ok_def meta_ok_def meta_wf_def
      record_ok_def canonical_def encode_op_def encode_metadata_def)

end
