(* ===== verification/Engine_Runs.thy ===== *)
theory Engine_Runs
  imports Engine_Durability
begin

text \<open>
  Whole lives of a durable engine: any sequence of insertions, updates, deletions, flushes, snapshots,
  compactions and restarts of the process, performed by the operations of \<^verbatim>\<open>src/engine.cpp\<close>. Every request
  whose data fits the record format succeeds, and the database is at every moment the one the sequence of
  requests describes, in memory and for whoever opens the directory next.
\<close>

section \<open>Requests\<close>

datatype request =
    Put string fvec metadata
  | Change string fvec "metadata option"
  | Drop string
  | Flush
  | Snapshot
  | Compact
  | Restart environment   \<comment> \<open>the process ends and a new one opens the directory\<close>

definition no_value :: "engine \<times> 'a res \<Rightarrow> engine \<times> unit res" where
  "no_value = (\<lambda>(e, r). (e, rbind r (\<lambda>_. Inr ())))"

definition restart :: "environment \<Rightarrow> engine \<Rightarrow> engine \<times> unit res" where
  "restart env e =
     (case (eng_wal e, eng_blobs e) of
        (Some w, Some b) \<Rightarrow>
          (case engine_new (eng_cfg e) True b (ls_file w) env of Inl er \<Rightarrow> (e, Inl er) | Inr e' \<Rightarrow> (e', Inr ()))
      | _ \<Rightarrow> (e, Inr ()))"

fun perform :: "request \<Rightarrow> engine \<Rightarrow> engine \<times> unit res" where
  "perform (Put k v m) e = no_value (engine_insert k v m e)"
| "perform (Change k v m) e = no_value (engine_update k v m e)"
| "perform (Drop k) e = no_value (engine_erase k e)"
| "perform Flush e = engine_flush e"
| "perform Snapshot e = engine_snapshot e"
| "perform Compact e = engine_compact e"
| "perform (Restart env) e = restart env e"

text \<open>What a request does to the database.\<close>

fun spec_perform :: "request \<Rightarrow> (string \<rightharpoonup> fvec \<times> metadata) \<Rightarrow> (string \<rightharpoonup> fvec \<times> metadata)" where
  "spec_perform (Put k v m) A = A(k \<mapsto> (v, m))"
| "spec_perform (Change k v m) A =
     (case A k of None \<Rightarrow> A | Some (_, old) \<Rightarrow> A(k \<mapsto> (v, case m of Some x \<Rightarrow> x | None \<Rightarrow> old)))"
| "spec_perform (Drop k) A = A(k := None)"
| "spec_perform _ A = A"

text \<open>
  The data of a request fits: vectors have the configured dimension, records their length field, and a new
  key finds a free slot. System calls transfer data in pieces of any size and may be interrupted, but do not fail.
\<close>

definition change_op :: "string \<Rightarrow> fvec \<Rightarrow> metadata option \<Rightarrow> op" where
  "change_op k v m = \<lparr>op_type = Update, op_ext_id = k, op_vec = v, op_meta = m\<rparr>"

fun admissible :: "engine \<Rightarrow> request \<Rightarrow> bool" where
  "admissible e (Put k v m) \<longleftrightarrow>
     op_ok (cfg_dim (eng_cfg e)) (entry_op k v m) \<and> op_loggable (entry_op k v m) \<and> op_room (entry_op k v m) (eng_store e)"
| "admissible e (Change k v m) \<longleftrightarrow> op_ok (cfg_dim (eng_cfg e)) (change_op k v m) \<and> op_loggable (change_op k v m)"
| "admissible e (Drop k) \<longleftrightarrow> length k < 2 ^ 31"
| "admissible e (Restart env) \<longleftrightarrow> healthy env"
| "admissible e _ \<longleftrightarrow> True"

text \<open>The engines a run of requests leads to, from a new engine on an empty directory.\<close>

inductive reachable :: "engine_config \<Rightarrow> request list \<Rightarrow> engine \<Rightarrow> bool" for cfg where
  start: "\<lbrakk>engine_new cfg True b [] env = Inr e; healthy env; blob_good b; blob_look b kSnapshotKey = None\<rbrakk>
    \<Longrightarrow> reachable cfg [] e"
| step: "\<lbrakk>reachable cfg qs e; admissible e q; perform q e = (e', Inr ())\<rbrakk> \<Longrightarrow> reachable cfg (qs @ [q]) e'"

inductive_cases reachable_snocE: "reachable cfg (qs @ [q]) e"
inductive_cases reachable_NilE: "reachable cfg [] e"

section \<open>The invariant of a run\<close>

text \<open>The operation a request logs, if it changes the database.\<close>

fun request_op :: "request \<Rightarrow> op option" where
  "request_op (Put k v m) = Some (entry_op k v m)"
| "request_op (Change k v m) = Some (change_op k v m)"
| "request_op (Drop k) = Some \<lparr>op_type = Delete, op_ext_id = k, op_vec = [], op_meta = None\<rparr>"
| "request_op _ = None"

definition request_keeps :: "(op \<Rightarrow> bool) \<Rightarrow> request \<Rightarrow> bool" where
  "request_keeps Q q \<longleftrightarrow> (\<forall>p. request_op q = Some p \<longrightarrow> Q p)"

text \<open>
  The directory holds a history of at most \<open>n\<close> operations that leads to the database. Its operations satisfy \<open>Q\<close>,
  and store and index satisfy \<open>R\<close>.
\<close>

definition run_inv ::
  "engine_config \<Rightarrow> (op \<Rightarrow> bool) \<Rightarrow> (vector_store \<times> index \<Rightarrow> bool) \<Rightarrow> nat \<Rightarrow> (string \<rightharpoonup> fvec \<times> metadata) \<Rightarrow> engine \<Rightarrow> bool" where
  "run_inv cfg Q R n A e \<longleftrightarrow> engine_wf e \<and> eng_cfg e = cfg \<and> store_abs (eng_store e) = A \<and> R (eng_store e, eng_index e)
     \<and> (\<exists>sops wops. journal e sops wops \<and> length (sops @ wops) \<le> n \<and> (\<forall>p \<in> set (sops @ wops). Q p))"

lemma run_invI:
  "\<lbrakk>engine_wf e; eng_cfg e = cfg; store_abs (eng_store e) = A; journal e sops wops; length (sops @ wops) \<le> n;
    R (eng_store e, eng_index e); \<forall>p \<in> set (sops @ wops). Q p\<rbrakk> \<Longrightarrow> run_inv cfg Q R n A e"
  unfolding run_inv_def by blast

lemma run_inv_cases:
  assumes "run_inv cfg Q R n A e"
  obtains sops wops w b where "engine_wf e" "eng_cfg e = cfg" "store_abs (eng_store e) = A" "journal e sops wops"
    "length (sops @ wops) \<le> n" "eng_wal e = Some w" "eng_blobs e = Some b"
    "R (eng_store e, eng_index e)" "\<forall>p \<in> set (sops @ wops). Q p"
  using assms unfolding run_inv_def journal_def by blast

lemma run_inv_Suc: "run_inv cfg Q R n A e \<Longrightarrow> run_inv cfg Q R (Suc n) A e"
  unfolding run_inv_def by (meson le_SucI)

lemma card_history: "finite (dom (fold spec_apply ps A)) \<and> card (dom (fold spec_apply ps A)) \<le> card (dom A) + length ps"
  if "finite (dom A)" for A
  using that
proof (induction ps rule: rev_induct)
  case (snoc p ps)
  let ?B = "fold spec_apply ps A"
  have "dom (spec_apply p ?B) \<subseteq> insert (op_ext_id p) (dom ?B)"
    by (auto simp: spec_apply_def split: op_type.splits option.splits prod.splits if_splits)
  moreover from snoc have B: "finite (dom ?B)" "card (dom ?B) \<le> card (dom A) + length ps"
    by auto
  moreover have "card (insert (op_ext_id p) (dom ?B)) \<le> Suc (card (dom ?B))"
    using B(1) by (simp add: card_insert_if)
  ultimately show ?case
    using card_mono [of "insert (op_ext_id p) (dom ?B)" "dom (spec_apply p ?B)"]
    by (auto intro: finite_subset)
qed simp

lemma snapshot_length:
  assumes "store_wf s" and "fold spec_apply ps Map.empty = store_abs s"
  shows "length (snap_ops s) \<le> length ps"
proof -
  have ins: "\<forall>p \<in> set (snap_ops s). op_type p = Insert"
    by (auto simp: snap_ops_def entry_op_def)
  have "dom (store_abs s) = set (map op_ext_id (snap_ops s))"
    unfolding snap_ops_abs [OF assms(1), symmetric] fold_inserts [OF ins snap_ops_keys [OF assms(1)]]
    by (simp add: dom_map_of_conv_image_fst image_image)
  then have "card (dom (store_abs s)) = length (snap_ops s)"
    using distinct_card [OF snap_ops_keys [OF assms(1)]] by simp
  then show ?thesis
    using card_history [of Map.empty ps] assms(2) by simp
qed

lemma journal_length:
  assumes "engine_wf e" and "journal e sops wops" and "store_wf s" and "store_abs s = store_abs (eng_store e)"
  shows "length (snap_ops s) \<le> length (sops @ wops)"
  using snapshot_length [OF assms(3), of "sops @ wops"] assms(2,4) by (simp add: journal_def)

lemma spec_change: "spec_apply (change_op k v m) A = spec_perform (Change k v m) A"
  by (cases "A k") (auto simp: spec_apply_def change_op_def)

text \<open>
  A property \<open>R\<close> of store and index that an empty engine has and every operation with \<open>Q\<close> keeps, where the entries of
  a store with \<open>R\<close> can be written as insertions with \<open>Q\<close>. Every run of requests with \<open>Q\<close> keeps it, through
  snapshots, compactions and restarts.
\<close>

locale kept_memory =
  fixes cfg :: engine_config and Q :: "op \<Rightarrow> bool" and R :: "vector_store \<times> index \<Rightarrow> bool"
  assumes fresh: "R (vs_empty (cfg_dim cfg), make_index cfg)"
    and applied: "\<lbrakk>R m; Q p; apply_mem p m = Inr (i, m')\<rbrakk> \<Longrightarrow> R m'"
    and dumped: "\<lbrakk>store_wf s; R (s, x); p \<in> set (snap_ops s)\<rbrakk> \<Longrightarrow> Q p"
begin

lemma run_ops_kept: "run_ops ps m = Inr m' \<Longrightarrow> R m \<Longrightarrow> \<forall>p \<in> set ps. Q p \<Longrightarrow> R m'"
proof (induction ps arbitrary: m)
  case (Cons p ps)
  then obtain i m1 where "apply_mem p m = Inr (i, m1)" "run_ops ps m1 = Inr m'"
    by (auto simp: run_ops_def res_simps)
  with Cons applied [of m p i m1] show ?case
    by simp
qed (simp add: run_ops_def)

lemma apply_op_kept:
  "apply_op p lg e = (e', r) \<Longrightarrow> R (eng_store e, eng_index e) \<Longrightarrow> Q p \<Longrightarrow> R (eng_store e', eng_index e')"
  using apply_op_shape [of p lg e e' r] applied by auto

lemma perform_put:
  assumes "run_inv cfg Q R n A e" and "admissible e (Put k v m)" and "Q (entry_op k v m)"
  shows "\<exists>e'. perform (Put k v m) e = (e', Inr ()) \<and> run_inv cfg Q R (Suc n) (A(k \<mapsto> (v, m))) e'"
proof (rule run_inv_cases [OF assms(1)])
  fix sops wops
  assume e: "engine_wf e" "eng_cfg e = cfg" "store_abs (eng_store e) = A" "journal e sops wops" "length (sops @ wops) \<le> n"
    and kept: "R (eng_store e, eng_index e)" "\<forall>p \<in> set (sops @ wops). Q p"
  obtain e' i where e': "apply_op (entry_op k v m) True e = (e', Inr i)" "engine_wf e'" "journal e' sops (wops @ [entry_op k v m])"
    "eng_cfg e' = eng_cfg e" "store_abs (eng_store e') = spec_apply (entry_op k v m) (store_abs (eng_store e))"
    using apply_op_ok [OF e(1,4), of "entry_op k v m"] assms(2) by auto
  have "run_inv cfg Q R (Suc n) (A(k \<mapsto> (v, m))) e'"
    by (rule run_invI [OF e'(2) _ _ e'(3)])
      (use e e' kept assms(3) apply_op_kept [OF e'(1) kept(1) assms(3)] in \<open>simp_all add: entry_op_def spec_apply_def\<close>)
  with e'(1) show ?thesis
    by (simp add: engine_insert_def entry_op_def no_value_def)
qed

lemma perform_existing:
  assumes inv: "run_inv cfg Q R n A e" and p: "op_ok cfg_d p" "op_loggable p" "op_type p \<noteq> Insert" "cfg_d = cfg_dim (eng_cfg e)" "Q p"
  shows "\<exists>e' i. apply_op p True e = (e', Inr i) \<and> run_inv cfg Q R (Suc n) (spec_apply p A) e'"
proof (rule run_inv_cases [OF inv])
  fix sops wops
  assume e: "engine_wf e" "eng_cfg e = cfg" "store_abs (eng_store e) = A" "journal e sops wops" "length (sops @ wops) \<le> n"
    and kept: "R (eng_store e, eng_index e)" "\<forall>p \<in> set (sops @ wops). Q p"
  obtain e' i where e': "apply_op p True e = (e', Inr i)" "engine_wf e'" "journal e' sops (wops @ [p])" "eng_cfg e' = eng_cfg e"
    "store_abs (eng_store e') = spec_apply p (store_abs (eng_store e))"
    using mutate_existing [OF e(1,4), of p] p by auto
  moreover have "run_inv cfg Q R (Suc n) (spec_apply p A) e'"
    by (rule run_invI [OF e'(2) _ _ e'(3)]) (use e e' kept p(5) apply_op_kept [OF e'(1) kept(1) p(5)] in simp_all)
  ultimately show ?thesis
    by blast
qed

lemma perform_change:
  assumes "run_inv cfg Q R n A e" and "admissible e (Change k v m)" and "Q (change_op k v m)"
  shows "\<exists>e'. perform (Change k v m) e = (e', Inr ()) \<and> run_inv cfg Q R (Suc n) (spec_perform (Change k v m) A) e'"
proof (rule resolve_cases [of e k])
  show "engine_wf e"
    using assms(1) by (simp add: run_inv_def)
  have A: "store_abs (eng_store e) = A"
    using assms(1) by (simp add: run_inv_def)
  {
    assume "store_abs (eng_store e) k = None" "resolve (eng_store e) k = Inr None"
    with A run_inv_Suc [OF assms(1)] show ?thesis
      by (simp add: engine_update_def no_value_def)
  next
    obtain e' i where "apply_op (change_op k v m) True e = (e', Inr i)" "run_inv cfg Q R (Suc n) (spec_apply (change_op k v m) A) e'"
      using perform_existing [OF assms(1), of _ "change_op k v m"] assms(2,3) by (auto simp: change_op_def)
    moreover fix i assume "resolve (eng_store e) k = Inr (Some i)"
    ultimately show ?thesis
      by (simp only: spec_change) (simp add: engine_update_def no_value_def change_op_def)
  }
qed

lemma perform_drop:
  assumes "run_inv cfg Q R n A e" and "admissible e (Drop k)"
    and "Q \<lparr>op_type = Delete, op_ext_id = k, op_vec = [], op_meta = None\<rparr>"
  shows "\<exists>e'. perform (Drop k) e = (e', Inr ()) \<and> run_inv cfg Q R (Suc n) (A(k := None)) e'"
proof (rule resolve_cases [of e k])
  show "engine_wf e"
    using assms(1) by (simp add: run_inv_def)
  have A: "store_abs (eng_store e) = A"
    using assms(1) by (simp add: run_inv_def)
  let ?p = "\<lparr>op_type = Delete, op_ext_id = k, op_vec = [], op_meta = None\<rparr>"
  {
    assume "store_abs (eng_store e) k = None" "resolve (eng_store e) k = Inr None"
    with A run_inv_Suc [OF assms(1)] show ?thesis
      by (simp add: engine_erase_def no_value_def fun_upd_idem)
  next
    have "op_ok (cfg_dim (eng_cfg e)) ?p" "op_loggable ?p"
      using assms(2) by (simp_all add: op_ok_def op_loggable_def op_encodable_def str_ok_def record_ok_def canonical_def encode_op_def)
    then obtain e' i where "apply_op ?p True e = (e', Inr i)" "run_inv cfg Q R (Suc n) (spec_apply ?p A) e'"
      using perform_existing [OF assms(1), of _ ?p] assms(3) by auto
    moreover fix i assume "resolve (eng_store e) k = Inr (Some i)"
    ultimately show ?thesis
      by (simp add: engine_erase_def no_value_def spec_apply_def)
  }
qed

lemma perform_flush:
  assumes "run_inv cfg Q R n A e"
  shows "\<exists>e'. perform Flush e = (e', Inr ()) \<and> run_inv cfg Q R n A e'"
proof (rule run_inv_cases [OF assms])
  fix sops wops w b
  assume e: "engine_wf e" "eng_cfg e = cfg" "store_abs (eng_store e) = A" "journal e sops wops" "length (sops @ wops) \<le> n" "eng_wal e = Some w"
    and kept: "R (eng_store e, eng_index e)" "\<forall>p \<in> set (sops @ wops). Q p"
  obtain w' where w': "log_sync w = (w', Inr ())" "log_good w'" "log_recs w' = log_recs w"
    using file_log.sync_ok [of w] e(4,6) by (auto simp: journal_def)
  then have "journal (e\<lparr>eng_wal := Some w'\<rparr>) sops wops"
    using e(4,6) by (auto simp: journal_def)
  then have "run_inv cfg Q R n A (e\<lparr>eng_wal := Some w'\<rparr>)"
    by (rule run_invI [rotated 3]) (use e kept in \<open>simp_all add: engine_wf_def\<close>)
  with w'(1) e(6) show ?thesis
    by (simp add: engine_flush_def)
qed

lemma perform_snapshot:
  assumes "run_inv cfg Q R n A e"
  shows "\<exists>e'. perform Snapshot e = (e', Inr ()) \<and> run_inv cfg Q R n A e'"
proof (rule run_inv_cases [OF assms])
  fix sops wops
  assume e: "engine_wf e" "eng_cfg e = cfg" "store_abs (eng_store e) = A" "journal e sops wops" "length (sops @ wops) \<le> n"
    and kept: "R (eng_store e, eng_index e)" "\<forall>p \<in> set (sops @ wops). Q p"
  obtain w' b' where s: "engine_snapshot e = (e\<lparr>eng_blobs := Some b', eng_wal := Some w'\<rparr>, Inr ())"
    "journal (e\<lparr>eng_blobs := Some b', eng_wal := Some w'\<rparr>) (snap_ops (eng_store e)) []"
    using snapshot_ok [OF e(1,4)] by blast
  have "run_inv cfg Q R n A (e\<lparr>eng_blobs := Some b', eng_wal := Some w'\<rparr>)"
    by (rule run_invI [OF _ _ _ s(2)])
      (use e kept dumped [OF engine_wfD(1) [OF e(1)]] journal_length [OF e(1,4) engine_wfD(1) [OF e(1)] refl] in \<open>simp_all add: engine_wf_def\<close>)
  with s(1) show ?thesis
    by simp
qed

lemma perform_compact:
  assumes "run_inv cfg Q R n A e" and "hnsw_config_ok cfg"
  shows "\<exists>e'. perform Compact e = (e', Inr ()) \<and> run_inv cfg Q R n A e'"
proof (rule run_inv_cases [OF assms(1)])
  fix sops wops
  assume e: "engine_wf e" "eng_cfg e = cfg" "store_abs (eng_store e) = A" "journal e sops wops" "length (sops @ wops) \<le> n"
    and kept: "R (eng_store e, eng_index e)" "\<forall>p \<in> set (sops @ wops). Q p"
  obtain e' where e': "engine_compact e = (e', Inr ())" "engine_wf e'" "journal e' (snap_ops (eng_store e')) []" "eng_cfg e' = eng_cfg e"
    "store_abs (eng_store e') = store_abs (eng_store e)"
    "run_ops (snap_ops (eng_store e)) (vs_empty (cfg_dim (eng_cfg e)), make_index (eng_cfg e)) = Inr (eng_store e', eng_index e')"
    using compact_ok [OF e(1) _ e(4)] e(2) assms(2) by blast
  have R': "R (eng_store e', eng_index e')"
    using run_ops_kept [OF e'(6)] fresh dumped [OF engine_wfD(1) [OF e(1)] kept(1)] e(2) by simp
  have "run_inv cfg Q R n A e'"
    by (rule run_invI [OF e'(2) _ _ e'(3)]) (use e e' R' dumped [OF engine_wfD(1) [OF e'(2)] R'] journal_length [OF e(1,4) engine_wfD(1) [OF e'(2)] e'(5)] in simp_all)
  with e'(1) show ?thesis
    by simp
qed

lemma reopen:
  assumes "run_inv cfg Q R n A e" and "hnsw_config_ok cfg" and "cfg_persistence cfg = Some pc" and "n \<le> 2 ^ 32 - 1" and "healthy env"
  obtains w b e' where "eng_wal e = Some w" "eng_blobs e = Some b" "engine_new cfg True b (ls_file w) env = Inr e'" "run_inv cfg Q R n A e'"
proof (rule run_inv_cases [OF assms(1)])
  fix sops wops w b
  assume e: "engine_wf e" "eng_cfg e = cfg" "store_abs (eng_store e) = A" "journal e sops wops" "length (sops @ wops) \<le> n"
    "eng_wal e = Some w" "eng_blobs e = Some b"
    and kept: "R (eng_store e, eng_index e)" "\<forall>p \<in> set (sops @ wops). Q p"
  note h = journal_history [OF e(4,6,7)]
  have "cfg_dim cfg \<noteq> 0" "length (sops @ wops) \<le> 2 ^ 32 - 1"
    using store_wfD(1) [OF engine_wfD(1) [OF e(1)]] engine_wfD(4) [OF e(1)] e(2,5) assms(4) by auto
  then obtain e' where e': "engine_new cfg True b (ls_file w) env = Inr e'" "engine_wf e'" "eng_cfg e' = cfg"
    "store_abs (eng_store e') = fold spec_apply (sops @ wops) Map.empty" "journal e' sops wops"
    "run_ops (sops @ wops) (vs_empty (cfg_dim cfg), make_index cfg) = Inr (eng_store e', eng_index e')"
    using engine_new_ok [of cfg pc b sops env wops "length (frames (map encode_op wops))"] assms(2,3,5) h e(2)
      whole_frames_all [of "map encode_op wops"]
    by auto
  have "run_inv cfg Q R n A e'"
    by (rule run_invI [OF e'(2,3) _ e'(5) e(5)]) (use e e' kept(2) run_ops_kept [OF e'(6) fresh kept(2)] in \<open>simp_all add: journal_def\<close>)
  with e' e(6,7) show thesis
    using that by blast
qed

lemma perform_restart:
  assumes "run_inv cfg Q R n A e" and "hnsw_config_ok cfg" and "cfg_persistence cfg = Some pc" and "n \<le> 2 ^ 32 - 1" and "admissible e (Restart env)"
  shows "\<exists>e'. perform (Restart env) e = (e', Inr ()) \<and> run_inv cfg Q R n A e'"
proof -
  have cfg: "eng_cfg e = cfg"
    using assms(1) by (simp add: run_inv_def)
  show ?thesis
    by (rule reopen [OF assms(1-4), of env]) (use assms(5) cfg in \<open>auto simp: restart_def\<close>)
qed

lemma perform_ok:
  assumes "run_inv cfg Q R n A e" and "hnsw_config_ok cfg" and "cfg_persistence cfg = Some pc" and "n \<le> 2 ^ 32 - 1" and "admissible e q" and "request_keeps Q q"
  shows "\<exists>e'. perform q e = (e', Inr ()) \<and> run_inv cfg Q R (Suc n) (spec_perform q A) e'"
proof (cases q)
  case (Put k v m)
  then show ?thesis
    using perform_put [OF assms(1)] assms(5,6) by (simp add: request_keeps_def)
next
  case (Change k v m)
  then show ?thesis
    using perform_change [OF assms(1)] assms(5,6) by (auto simp: request_keeps_def)
next
  case (Drop k)
  then show ?thesis
    using perform_drop [OF assms(1)] assms(5,6) by (simp add: request_keeps_def)
next
  case Flush
  then show ?thesis
    using perform_flush [OF assms(1)] run_inv_Suc by fastforce
next
  case Snapshot
  then show ?thesis
    using perform_snapshot [OF assms(1)] run_inv_Suc by fastforce
next
  case Compact
  then show ?thesis
    using perform_compact [OF assms(1,2)] run_inv_Suc by fastforce
next
  case (Restart env)
  then show ?thesis
    using perform_restart [OF assms(1-4)] assms(5) run_inv_Suc by fastforce
qed

lemma reachable_inv:
  assumes "reachable cfg qs e" and "hnsw_config_ok cfg" and "cfg_persistence cfg = Some pc" and "length qs \<le> 2 ^ 32 - 1"
    and "\<forall>q \<in> set qs. request_keeps Q q"
  shows "run_inv cfg Q R (length qs) (fold spec_perform qs Map.empty) e"
  using assms
proof (induction rule: reachable.induct)
  case (start b env e)
  then have "cfg_dim cfg \<noteq> 0"
    by (auto simp: engine_new_def vs_new_def res_simps split: if_splits)
  then have "engine_wf e \<and> eng_cfg e = cfg \<and> store_abs (eng_store e) = Map.empty \<and> journal e [] []
      \<and> run_ops [] (vs_empty (cfg_dim cfg), make_index cfg) = Inr (eng_store e, eng_index e)"
    using engine_new_ok [of cfg pc b "[]" env "[]" 0] start by (auto simp: holds_snapshot_def history_ok_def)
  then show ?case
    using run_ops_kept [of "[]"] fresh by (intro run_invI [of _ _ _ "[]" "[]"]) auto
next
  case (step qs e q e')
  then have "run_inv cfg Q R (length qs) (fold spec_perform qs Map.empty) e"
    by simp
  from perform_ok [OF this, of pc q] step show ?case
    by auto
qed

end

text \<open>The invariant alone. An instance about the vectors follows in theory \<open>Engine_Answers\<close>.\<close>

interpretation any_run: kept_memory cfg "\<lambda>_. True" "\<lambda>_. True" for cfg
  by unfold_locales simp_all

section \<open>Properties\<close>

text \<open>C1: Durability of every run. After any sequence of insertions, updates, deletions, flushes, snapshots,
  compactions and restarts, the database is the one the sequence describes, and an engine newly opened on the
  directory (as after a crash between two requests) has the same database.\<close>

theorem durable_run:
  assumes "reachable cfg qs e" and "cfg_persistence cfg = Some pc" and "hnsw_config_ok cfg" and "length qs \<le> 2 ^ 32 - 1"
    and "healthy env"
  shows "engine_wf e \<and> store_abs (eng_store e) = fold spec_perform qs Map.empty
    \<and> (\<exists>w b e'. eng_wal e = Some w \<and> eng_blobs e = Some b \<and> engine_new cfg True b (ls_file w) env = Inr e'
         \<and> engine_wf e' \<and> store_abs (eng_store e') = fold spec_perform qs Map.empty)"
proof -
  have inv: "run_inv cfg (\<lambda>_. True) (\<lambda>_. True) (length qs) (fold spec_perform qs Map.empty) e"
    by (rule any_run.reachable_inv [OF assms(1,3,2,4)]) (simp add: request_keeps_def)
  show ?thesis
    by (rule any_run.reopen [OF inv assms(3,2,4,5)]) (use inv in \<open>auto simp: run_inv_def\<close>)
qed

text \<open>C15: No request gets stuck: in every run, the next request whose data fits succeeds and extends the run.\<close>

theorem durable_run_progress:
  assumes "reachable cfg qs e" and "cfg_persistence cfg = Some pc" and "hnsw_config_ok cfg" and "length qs \<le> 2 ^ 32 - 1"
    and "admissible e q"
  shows "\<exists>e'. perform q e = (e', Inr ()) \<and> reachable cfg (qs @ [q]) e'"
  using any_run.perform_ok [OF any_run.reachable_inv [OF assms(1,3,2,4)] assms(3,2,4,5)] reachable.step [OF assms(1,5)]
  by (auto simp: request_keeps_def)

lemma demo_start_any:
  assumes "cfg_dim cfg = 1" and "cfg_persistence cfg = Some pc"
  shows "\<exists>e. reachable cfg [] e \<and> eng_store e = vs_empty 1"
proof -
  have b: "blob_good no_blobs" "blob_look no_blobs kSnapshotKey = None"
    by (simp_all add: blob_good_def no_blobs_def blob_look_def)
  have "\<exists>e. engine_new cfg True no_blobs [] healthy_env = Inr e \<and> eng_store e = vs_empty 1"
    using assms
    by (simp add: engine_new_def vs_new_def open_blobs_def open_log_def healthy_env_def recover_def blob_exists_def no_blobs_def
        log_replay_def replay_loop.simps read_exact_def)
  with reachable.start [OF _ healthy_demo b] show ?thesis
    by blast
qed

lemma demo_start: "\<exists>e. reachable durable_config [] e \<and> eng_store e = vs_empty 1"
  by (rule demo_start_any) simp_all

theorem durable_run_progress_witness:
  "\<exists>e e'. reachable durable_config [] e \<and> perform Snapshot e = (e', Inr ()) \<and> reachable durable_config [Snapshot] e'"
proof -
  obtain e where "reachable durable_config [] e"
    using demo_start by blast
  with durable_run_progress [OF this, of _ Snapshot] show ?thesis
    by auto
qed

lemma demo_run_any:
  assumes dim: "cfg_dim cfg = 1" and cfg: "cfg_persistence cfg = Some pc" "hnsw_config_ok cfg"
  shows "\<exists>e. reachable cfg [Put ''a'' [f32_one] [], Snapshot] e"
proof -
  obtain e where e: "reachable cfg [] e" "eng_store e = vs_empty 1"
    using demo_start_any [OF assms(1,2)] by blast
  have inv: "run_inv cfg (\<lambda>_. True) (\<lambda>_. True) 0 Map.empty e"
    using any_run.reachable_inv [OF e(1) cfg(2,1)] by simp
  have adm: "admissible e (Put ''a'' [f32_one] [])"
    using demo_entry inv e(2) dim by (simp add: run_inv_def op_room_def has_room_def)
  with any_run.perform_ok [OF inv cfg(2,1), of "Put ''a'' [f32_one] []"] obtain e1
    where e1: "perform (Put ''a'' [f32_one] []) e = (e1, Inr ())" "run_inv cfg (\<lambda>_. True) (\<lambda>_. True) 1 [''a'' \<mapsto> ([f32_one], [])] e1"
    by (auto simp: request_keeps_def)
  moreover obtain e2 where "perform Snapshot e1 = (e2, Inr ())"
    using any_run.perform_ok [OF e1(2) cfg(2,1), of Snapshot] by (auto simp: request_keeps_def)
  ultimately show ?thesis
    using reachable.step [OF reachable.step [OF e(1) adm e1(1)], of Snapshot e2] by auto
qed

lemma demo_run: "\<exists>e. reachable durable_config [Put ''a'' [f32_one] [], Snapshot] e"
  by (rule demo_run_any) simp_all

theorem durable_run_witness:
  "\<exists>e w b e'. reachable durable_config [Put ''a'' [f32_one] [], Snapshot] e \<and> eng_wal e = Some w \<and> eng_blobs e = Some b
    \<and> engine_new durable_config True b (ls_file w) healthy_env = Inr e' \<and> store_abs (eng_store e') ''a'' = Some ([f32_one], [])"
proof -
  obtain e where e: "reachable durable_config [Put ''a'' [f32_one] [], Snapshot] e"
    using demo_run by blast
  obtain w b e' where "eng_wal e = Some w" "eng_blobs e = Some b" "engine_new durable_config True b (ls_file w) healthy_env = Inr e'"
    "store_abs (eng_store e') = fold spec_perform [Put ''a'' [f32_one] [], Snapshot] Map.empty"
    using durable_run [OF e, of _ healthy_env] by auto
  with e show ?thesis
    by (intro exI [of _ e] exI [of _ w] exI [of _ b] exI [of _ e']) simp
qed

end
