(* ===== verification/Float_Bounds.thy ===== *)
theory Float_Bounds
  imports Distance
begin

text \<open>
  When arithmetic cannot produce NaN. A rounded result stays below every representable bound of the exact one, and
  a running sum of terms below a power of two stops growing at \<open>2 ^ prec\<close> times that power: one more term is half
  a unit in the last place there and is rounded away. So the three distance kernels give a number, for vectors of
  any length, as long as the components are at most \<open>2 ^ 50\<close> in magnitude.
\<close>

section \<open>Bounds in units\<close>

definition representable :: "fmt \<Rightarrow> nat \<Rightarrow> bool" where
  "representable F c \<longleftrightarrow> round_units F c 1 < inf_bits F \<and> mag F (round_units F c 1) = c"

definition bounded :: "fmt \<Rightarrow> nat \<Rightarrow> fp \<Rightarrow> bool" where
  "bounded F c x \<longleftrightarrow> snd x < inf_bits F \<and> mag F (snd x) \<le> c"

lemma mag_mono: "a \<le> b \<Longrightarrow> b < inf_bits F \<Longrightarrow> 0 < prec F \<Longrightarrow> mag F a \<le> mag F b"
  using mag_strict_mono [of a b F] by (cases "a = b") auto

lemma round_units_cancel: "0 < d \<Longrightarrow> round_units F (c * d) d = round_units F c 1"
  using rne_cancel [of d c "2 ^ (nbits c - prec F)"] by (simp add: round_units_def Let_def mult.commute [of d])

lemma bounded_finite: "bounded F c x \<Longrightarrow> \<not> fp_is_nan F x \<and> \<not> fp_is_inf F x"
  by (simp add: bounded_def fp_is_nan_def fp_is_inf_def)

lemma bounded_mono: "bounded F c x \<Longrightarrow> c \<le> c' \<Longrightarrow> bounded F c' x"
  by (simp add: bounded_def)

lemma bounded_bits: "b \<le> round_units F c 1 \<Longrightarrow> representable F c \<Longrightarrow> 0 < prec F \<Longrightarrow> bounded F c (s, b)"
  using mag_mono [of b "round_units F c 1" F] by (simp add: bounded_def representable_def)

text \<open>Rounding to nearest respects representable bounds, from above and from below.\<close>

lemma bounded_round:
  assumes "representable F c" and "n \<le> c * d" and "0 < d" and "0 < prec F"
  shows "bounded F c (s, round_units F n d)"
proof (rule bounded_bits)
  show "round_units F n d \<le> round_units F c 1"
    using round_units_mono [OF assms(3,4,2)] round_units_cancel [OF assms(3)] by simp
qed (use assms in simp_all)

lemma round_at_least:
  assumes "representable F c" and "c * d \<le> n" and "0 < d" and "0 < prec F" and "round_units F n d < inf_bits F"
  shows "c \<le> mag F (round_units F n d)"
proof -
  have "round_units F c 1 \<le> round_units F n d"
    using round_units_mono [OF assms(3,4,2)] round_units_cancel [OF assms(3)] by simp
  then show ?thesis
    using mag_mono [of "round_units F c 1" "round_units F n d" F] assms(1,4,5) by (simp add: representable_def)
qed

lemma representable_scaled:
  assumes "n < 2 ^ prec F" and "0 < prec F" and "round_units F (n * 2 ^ k) 1 < inf_bits F"
  shows "representable F (n * 2 ^ k)"
  using mag_round_units_exact [OF assms] assms(3) by (simp add: representable_def)

lemma representable_bits: "b < inf_bits F \<Longrightarrow> 0 < prec F \<Longrightarrow> mag F b = c \<Longrightarrow> representable F c"
  using round_units_mag [of b F] by (simp add: representable_def)

lemma representable_below:
  assumes "n < 2 ^ prec F" and "0 < prec F" and "n * 2 ^ k \<le> c" and "representable F c"
  shows "representable F (n * 2 ^ k)"
proof (rule representable_scaled [OF assms(1,2)])
  have "round_units F (n * 2 ^ k) 1 \<le> round_units F c 1"
    using assms(2,3) by (intro round_units_mono) simp_all
  with assms(4) show "round_units F (n * 2 ^ k) 1 < inf_bits F"
    by (simp add: representable_def)
qed

section \<open>Saturation\<close>

text \<open>One more term of size \<open>2 ^ j\<close> is lost beside \<open>2 ^ prec\<close> of them.\<close>

lemma round_saturates:
  assumes "2 \<le> prec F"
  shows "round_units F (2 ^ prec F * 2 ^ j + 2 ^ j) 1 = round_units F (2 ^ prec F * 2 ^ j) 1"
proof -
  let ?p = "prec F"
  have "1 < (2 :: nat) ^ ?p"
    using assms by (intro one_less_power) simp_all
  then have n1: "nbits (2 ^ ?p * 2 ^ j + 2 ^ j) = Suc (?p + j)"
    by (intro nbits_eqI) (simp_all add: power_add)
  have n2: "nbits (2 ^ ?p * 2 ^ j) = Suc (?p + j)"
    by (rule nbits_eqI) (simp_all add: power_add)
  have e: "Suc (?p + j) - ?p = Suc j"
    by simp
  have half: "(2 :: nat) ^ ?p = 2 * 2 ^ (?p - 1)"
    using assms by (simp flip: power_Suc)
  have q: "(2 ^ ?p * 2 ^ j + 2 ^ j) div 2 ^ Suc j = (2 :: nat) ^ (?p - 1)" "(2 ^ ?p * 2 ^ j + 2 ^ j) mod 2 ^ Suc j = (2 :: nat) ^ j"
    unfolding half by (simp_all add: div_add1_eq mod_add_eq [symmetric] mult.assoc mult.left_commute [of 2])
  have "even ((2 :: nat) ^ (?p - 1))"
    using assms by simp
  then have r1: "rne (2 ^ ?p * 2 ^ j + 2 ^ j) (1 * 2 ^ Suc j) = 2 ^ (?p - 1)"
    unfolding rne_def Let_def mult_1 q by simp
  have "(2 :: nat) ^ ?p * 2 ^ j = 2 ^ (?p - 1) * 2 ^ Suc j"
    unfolding half by simp
  then have r2: "rne (2 ^ ?p * 2 ^ j) (1 * 2 ^ Suc j) = 2 ^ (?p - 1)"
    by (simp only: mult_1) (rule rne_exact, simp)
  show ?thesis
    unfolding round_units_def Let_def div_by_1 n1 n2 e r1 r2 ..
qed

section \<open>Operations\<close>

lemma bounded_neg [simp]: "bounded F c (fp_neg x) = bounded F c x"
  by (simp add: bounded_def fp_neg_def)

text \<open>The exact sum of two finite numbers is rounded once.\<close>

lemma fp_add_finite:
  assumes "bounded F a x" and "bounded F b y"
  shows "\<exists>s n. n \<le> a + b \<and> (fp_add F x y = (s, round_units F n 1) \<or> fp_add F x y = (s, 0))"
proof -
  let ?v = "sval F x + sval F y"
  have "nat \<bar>?v\<bar> \<le> a + b"
    using assms by (auto simp: sval_def bounded_def)
  moreover have "fp_add F x y = (if ?v = 0 then (fst x \<and> fst y, 0) else (?v < 0, round_units F (nat \<bar>?v\<bar>) 1))"
    using bounded_finite [OF assms(1)] bounded_finite [OF assms(2)] by (simp add: fp_add_def Let_def)
  ultimately show ?thesis
    by (cases "?v = 0") auto
qed

text \<open>The arithmetic of finite non-negative numbers, in units.\<close>

lemma fp_add_pos:
  assumes "\<not> fst x" "\<not> fst y" "snd x < inf_bits F" "snd y < inf_bits F" and "mag F (snd x) + mag F (snd y) = v" "0 < v"
  shows "fp_add F x y = (False, round_units F v 1)"
proof -
  have "sval F x + sval F y = int v"
    using assms by (auto simp: sval_def)
  then show ?thesis
    using assms(1-4,6) by (simp add: fp_add_def fp_is_nan_def fp_is_inf_def)
qed

lemma fp_add_zeros:
  assumes "\<not> fst x" "\<not> fst y" "snd x < inf_bits F" "snd y < inf_bits F" and "mag F (snd x) + mag F (snd y) = 0"
  shows "fp_add F x y = (False, 0)"
  using assms by (simp add: fp_add_def fp_is_nan_def fp_is_inf_def sval_def)

lemma fp_div_pos:
  assumes "\<not> fst x" "\<not> fst y" "snd x < inf_bits F" "snd y < inf_bits F" and "0 < mag F (snd y)"
  shows "fp_div F x y = (False, round_units F (mag F (snd x) * 2 ^ unit_exp F) (mag F (snd y)))"
proof -
  have "snd y \<noteq> 0"
    using assms(5) by (intro notI) (simp add: mag_def)
  then show ?thesis
    using assms(1-4) by (simp add: fp_div_def fp_is_nan_def fp_is_inf_def)
qed

lemma fp_mul_pos:
  assumes "\<not> fst x" "\<not> fst y" "snd x < inf_bits F" "snd y < inf_bits F"
  shows "fp_mul F x y = (False, round_units F (mag F (snd x) * mag F (snd y)) (2 ^ unit_exp F))"
  using assms by (simp add: fp_mul_def fp_is_nan_def fp_is_inf_def)

lemma bounded_zero [simp]: "0 < inf_bits F \<Longrightarrow> bounded F c (s, 0)"
  by (simp add: bounded_def mag_def)

lemma bounded_add_bits:
  assumes "bounded F a x" and "bounded F b y" and "round_units F (a + b) 1 = round_units F c 1" and "representable F c" and "0 < prec F"
  shows "bounded F c (fp_add F x y)"
proof -
  obtain s n where n: "n \<le> a + b" "fp_add F x y = (s, round_units F n 1) \<or> fp_add F x y = (s, 0)"
    using fp_add_finite [OF assms(1,2)] by blast
  have "round_units F n 1 \<le> round_units F c 1"
    using round_units_mono [of 1 F n "a + b"] n(1) assms(3,5) by simp
  then show ?thesis
    using n(2) bounded_bits [OF _ assms(4,5)] by (metis zero_le)
qed

lemma bounded_add:
  assumes "bounded F a x" and "bounded F b y" and "representable F (a + b)" and "0 < prec F"
  shows "bounded F (a + b) (fp_add F x y)"
  using bounded_add_bits [OF assms(1,2) refl assms(3,4)] .

lemma bounded_add_saturated:
  assumes "bounded F (2 ^ prec F * 2 ^ j) x" and "bounded F (2 ^ j) y" and "representable F (2 ^ prec F * 2 ^ j)" and "2 \<le> prec F"
  shows "bounded F (2 ^ prec F * 2 ^ j) (fp_add F x y)"
  using bounded_add_bits [OF assms(1,2) round_saturates [OF assms(4)] assms(3)] assms(4) by simp

lemma bounded_mul:
  assumes "bounded F a x" and "bounded F b y" and "representable F c" and "a * b \<le> c * 2 ^ unit_exp F" and "0 < prec F"
  shows "bounded F c (fp_mul F x y)"
proof -
  have "fp_mul F x y = (fst x \<noteq> fst y, round_units F (mag F (snd x) * mag F (snd y)) (2 ^ unit_exp F))"
    using bounded_finite [OF assms(1)] bounded_finite [OF assms(2)] by (simp add: fp_mul_def)
  moreover have "mag F (snd x) * mag F (snd y) \<le> c * 2 ^ unit_exp F"
    using assms(1,2,4) by (meson bounded_def le_trans mult_le_mono)
  ultimately show ?thesis
    using bounded_round [OF assms(3)] assms(5) by simp
qed

section \<open>Square roots\<close>

lemma isqrt_bounds: "isqrt n * isqrt n \<le> n \<and> n < Suc (isqrt n) * Suc (isqrt n)"
proof (induction n rule: isqrt.induct)
  case (1 n)
  show ?case
  proof (cases "n = 0")
    case False
    let ?r = "isqrt (n div 4)"
    have IH: "?r * ?r \<le> n div 4" "n div 4 < Suc ?r * Suc ?r"
      using 1 [OF False] by simp_all
    then have "4 * (?r * ?r) \<le> n" "n < 4 * (Suc ?r * Suc ?r)"
      by linarith+
    then show ?thesis
      by (subst (1 2 3 4) isqrt.simps) (auto simp: False Let_def algebra_simps)
  qed (simp add: isqrt.simps)
qed

lemma isqrt_le: "n < m * m \<Longrightarrow> isqrt n < m"
  using isqrt_bounds [of n] by (meson le_less_trans mult_le_mono not_le)

lemma le_isqrt: "m * m \<le> n \<Longrightarrow> m \<le> isqrt n"
  using isqrt_bounds [of n] by (metis Suc_leI le_less_trans mult_le_mono not_le)

lemma isqrt_mono: "m \<le> n \<Longrightarrow> isqrt m \<le> isqrt n"
  using isqrt_bounds [of m] by (intro le_isqrt) simp

text \<open>The significand of a rounded square root.\<close>

definition sqrt_digits :: "nat \<Rightarrow> nat \<Rightarrow> nat" where
  "sqrt_digits n e =
     (let q = isqrt (n div 4 ^ e); h = (2 * q + 1) * (2 * q + 1) * 4 ^ e
      in if 4 * n < h \<or> (4 * n = h \<and> even q) then q else Suc q)"

lemma round_sqrt_digits:
  "round_sqrt F n = (let e = nbits (isqrt n) - prec F in min (inf_bits F) (sqrt_digits n e + e * frac_size F))"
  by (simp add: round_sqrt_def sqrt_digits_def Let_def)

lemma sqrt_digits_bounds: "isqrt (n div 4 ^ e) \<le> sqrt_digits n e" "sqrt_digits n e \<le> Suc (isqrt (n div 4 ^ e))"
  by (simp_all add: sqrt_digits_def Let_def)

lemma sqrt_digits_mono:
  assumes "m \<le> n"
  shows "sqrt_digits m e \<le> sqrt_digits n e"
proof (cases "isqrt (m div 4 ^ e) = isqrt (n div 4 ^ e)")
  case True
  then show ?thesis
    using assms by (auto simp: sqrt_digits_def Let_def)
next
  case False
  then have "Suc (isqrt (m div 4 ^ e)) \<le> isqrt (n div 4 ^ e)"
    using isqrt_mono [OF div_le_mono [OF assms, of "4 ^ e"]] by linarith
  then show ?thesis
    using sqrt_digits_bounds [of m e] sqrt_digits_bounds [of n e] by linarith
qed

lemma sqrt_digits_range:
  fixes F n
  assumes "0 < prec F"
  defines "e \<equiv> nbits (isqrt n) - prec F"
  shows "sqrt_digits n e \<le> 2 * frac_size F" and "0 < e \<Longrightarrow> frac_size F \<le> sqrt_digits n e"
proof -
  have two: "2 * frac_size F = 2 ^ prec F"
    using assms(1) by (simp add: frac_size_def flip: power_Suc)
  have four: "(4 :: nat) ^ k = 2 ^ k * 2 ^ k" for k
    by (simp flip: power_mult_distrib)
  have "isqrt n < 2 ^ (e + prec F)"
    using less_two_power_nbits [of "isqrt n"] by (simp add: e_def flip: nbits_le_iff)
  then have "n < 2 ^ (e + prec F) * 2 ^ (e + prec F)"
    using isqrt_bounds [of n] by (meson Suc_leI less_le_trans mult_le_mono)
  then have "n < 2 ^ prec F * 2 ^ prec F * 4 ^ e"
    by (simp add: four power_add ac_simps)
  then have "n div 4 ^ e < 2 ^ prec F * 2 ^ prec F"
    by (simp add: div_less_iff_less_mult)
  then have "isqrt (n div 4 ^ e) < 2 ^ prec F"
    by (rule isqrt_le)
  then show "sqrt_digits n e \<le> 2 * frac_size F"
    using sqrt_digits_bounds(2) [of n e] unfolding two by linarith
  assume e: "0 < e"
  then have pos: "0 < isqrt n"
    by (cases "isqrt n = 0") (simp_all add: e_def)
  have "2 ^ (nbits (isqrt n) - 1) \<le> isqrt n"
    using two_power_nbits_le [OF pos] .
  moreover have "nbits (isqrt n) - 1 = e + (prec F - 1)"
    using e assms(1) by (simp add: e_def)
  ultimately have "2 ^ e * frac_size F \<le> isqrt n"
    by (simp add: frac_size_def power_add)
  then have "(2 ^ e * frac_size F) * (2 ^ e * frac_size F) \<le> n"
    using isqrt_bounds [of n] by (meson le_trans mult_le_mono)
  then have "frac_size F * frac_size F * 4 ^ e \<le> n"
    by (simp add: four ac_simps)
  then have "frac_size F * frac_size F \<le> n div 4 ^ e"
    by (simp add: less_eq_div_iff_mult_less_eq)
  then show "frac_size F \<le> sqrt_digits n e"
    using sqrt_digits_bounds(1) [of n e] le_isqrt le_trans by blast
qed

lemma round_sqrt_mono:
  assumes "m \<le> n" and "0 < prec F"
  shows "round_sqrt F m \<le> round_sqrt F n"
proof -
  define e e' where "e = nbits (isqrt m) - prec F" and "e' = nbits (isqrt n) - prec F"
  have le: "e \<le> e'"
    unfolding e_def e'_def using assms(1) by (intro diff_le_mono nbits_mono isqrt_mono)
  have "sqrt_digits m e + e * frac_size F \<le> sqrt_digits n e' + e' * frac_size F"
  proof (cases "e = e'")
    case True
    with assms(1) show ?thesis
      by (simp add: sqrt_digits_mono)
  next
    case False
    with le have lt: "Suc e \<le> e'" and pos: "0 < e'"
      by linarith+
    have "sqrt_digits m e + e * frac_size F \<le> Suc e * frac_size F + frac_size F"
      using sqrt_digits_range(1) [OF assms(2), of m] by (simp add: e_def)
    also have "\<dots> \<le> e' * frac_size F + frac_size F"
      using lt by (simp only: add_le_cancel_right mult_le_mono1)
    also have "\<dots> \<le> sqrt_digits n e' + e' * frac_size F"
      using sqrt_digits_range(2) [OF assms(2), of n] pos by (simp add: e'_def)
    finally show ?thesis .
  qed
  then show ?thesis
    by (simp add: round_sqrt_digits Let_def e_def e'_def min_le_iff_disj)
qed

lemma isqrt_square [simp]: "isqrt (c * c) = c"
proof (rule antisym)
  show "isqrt (c * c) \<le> c"
    using isqrt_le [of "c * c" "Suc c"] by simp
qed (simp add: le_isqrt)

text \<open>The root of an even power of two is exact.\<close>

lemma round_sqrt_power: "0 < prec F \<Longrightarrow> round_sqrt F (2 ^ k * 2 ^ k) = round_units F (2 ^ k) 1"
proof -
  assume p: "0 < prec F"
  let ?e = "nbits (2 ^ k) - prec F"
  have nb: "nbits (2 ^ k) = Suc k"
    by (rule nbits_eqI) simp_all
  then have ek: "?e \<le> k"
    using p by simp
  have div: "(2 :: nat) ^ k * 2 ^ k div 4 ^ ?e = 2 ^ (k - ?e) * 2 ^ (k - ?e)"
  proof -
    have "(2 :: nat) ^ k * 2 ^ k = 2 ^ (k - ?e) * 2 ^ (k - ?e) * 4 ^ ?e"
      using ek power_add [of "4 :: nat" "k - ?e" ?e] by (simp add: ac_simps flip: power_mult_distrib)
    then show ?thesis
      by simp
  qed
  have "sqrt_digits (2 ^ k * 2 ^ k) ?e = 2 ^ (k - ?e)"
  proof -
    have "4 * ((2 :: nat) ^ k * 2 ^ k) = (2 * 2 ^ (k - ?e)) * (2 * 2 ^ (k - ?e)) * 4 ^ ?e"
      using ek power_add [of "4 :: nat" "k - ?e" ?e] by (simp add: ac_simps flip: power_mult_distrib)
    also have "\<dots> < (2 * 2 ^ (k - ?e) + 1) * (2 * 2 ^ (k - ?e) + 1) * 4 ^ ?e"
      by (intro mult_strict_right_mono mult_strict_mono) simp_all
    finally show ?thesis
      by (simp add: sqrt_digits_def Let_def div)
  qed
  moreover have "rne (2 ^ k) (1 * 2 ^ ?e) = 2 ^ (k - ?e)"
    using rne_exact [of "2 ^ ?e" "2 ^ (k - ?e)"] ek by (simp flip: power_add)
  ultimately show ?thesis
    by (simp add: round_sqrt_digits round_units_def Let_def)
qed

lemma bounded_sqrt:
  assumes "bounded F c x" and "\<not> fst x" and "c * 2 ^ unit_exp F \<le> 2 ^ k * 2 ^ k" and "representable F (2 ^ k)" and "0 < prec F" "0 < inf_bits F"
  shows "bounded F (2 ^ k) (fp_sqrt F x)"
proof -
  have "mag F (snd x) * 2 ^ unit_exp F \<le> 2 ^ k * 2 ^ k"
    using assms(1,3) by (meson bounded_def le_trans mult_le_mono1)
  then have "round_sqrt F (mag F (snd x) * 2 ^ unit_exp F) \<le> round_units F (2 ^ k) 1"
    using round_sqrt_mono [OF _ assms(5)] round_sqrt_power [OF assms(5)] by metis
  then have "bounded F (2 ^ k) (False, round_sqrt F (mag F (snd x) * 2 ^ unit_exp F))"
    by (rule bounded_bits [OF _ assms(4,5)])
  moreover have "snd x = 0 \<Longrightarrow> bounded F (2 ^ k) x"
    using assms(6) by (simp add: bounded_def mag_def)
  ultimately show ?thesis
    using bounded_finite [OF assms(1)] assms(2) by (simp add: fp_sqrt_def)
qed

section \<open>Powers of two\<close>

lemma representable_power:
  assumes "representable F (2 ^ k)" and "j \<le> k" and "0 < prec F"
  shows "representable F (2 ^ j)"
proof -
  have "1 * 2 ^ j \<le> (2 :: nat) ^ k"
    unfolding mult_1 using assms(2) by (rule power_increasing) simp
  moreover have "1 < (2 :: nat) ^ prec F"
    using assms(3) by (intro one_less_power) simp_all
  ultimately have "representable F (1 * 2 ^ j)"
    using assms(1,3) by (intro representable_below)
  then show ?thesis
    by simp
qed

lemma representable_top: "representable binary32 (2 ^ 276)" "representable binary64 (2 ^ 2097)"
  by (rule representable_bits [of "0x7F000000"]; simp add: mag_def)
    (rule representable_bits [of "0x7FE0000000000000"]; simp add: mag_def)

lemma representable32: "j \<le> 276 \<Longrightarrow> representable binary32 (2 ^ j)"
  by (erule representable_power [OF representable_top(1)]) simp

lemma representable64: "j \<le> 2097 \<Longrightarrow> representable binary64 (2 ^ j)"
  by (erule representable_power [OF representable_top(2)]) simp

section \<open>Single precision\<close>

text \<open>\<open>within j a\<close>: the float \<open>a\<close> is a number of magnitude at most \<open>2 ^ (j - 149)\<close>.\<close>

definition within :: "nat \<Rightarrow> f32 \<Rightarrow> bool" where
  "within j a \<longleftrightarrow> bounded binary32 (2 ^ j) (unpack32 a)"

lemma within_not_nan: "within j a \<Longrightarrow> \<not> f32_is_nan a"
  using bounded_finite [of binary32 "2 ^ j" "unpack32 a"] by (simp add: within_def f32_is_nan_def)

lemma within_zero [simp]: "within j f32_zero"
  by (simp add: within_def f32_zero_def unpack32_def)

lemma within_mono: "within j a \<Longrightarrow> j \<le> k \<Longrightarrow> within k a"
  unfolding within_def by (erule bounded_mono) (rule power_increasing, simp_all)

lemma within_neg [simp]: "within j (f32_neg a) = within j a"
  by (simp add: within_def unpack_f32_op)

lemma within_sub: "within j a \<Longrightarrow> within j b \<Longrightarrow> j < 276 \<Longrightarrow> within (Suc j) (f32_sub a b)"
  using bounded_add [of binary32 "2 ^ j" "unpack32 a" "2 ^ j" "fp_neg (unpack32 b)"] representable32 [of "Suc j"]
  by (simp add: within_def unpack_f32_op fp_sub_def flip: mult_2)

lemma within_plus: "within j a \<Longrightarrow> within j b \<Longrightarrow> j < 276 \<Longrightarrow> within (Suc j) (f32_add a b)"
  using bounded_add [of binary32 "2 ^ j" "unpack32 a" "2 ^ j" "unpack32 b"] representable32 [of "Suc j"]
  by (simp add: within_def unpack_f32_op flip: mult_2)

lemma within_add:
  assumes "within (24 + j) a" and "within j b" and "24 + j \<le> 276"
  shows "within (24 + j) (f32_add a b)"
proof -
  have "(2 :: nat) ^ prec binary32 * 2 ^ j = 2 ^ (24 + j)"
    by (simp only: binary32_simps power_add)
  then show ?thesis
    using bounded_add_saturated [of binary32 j "unpack32 a" "unpack32 b"] representable32 [OF assms(3)] assms(1,2)
    by (simp add: within_def unpack_f32_op)
qed

lemma within_mul:
  assumes "within j a" and "within k b" and "j + k \<le> n + 149" and "n \<le> 276"
  shows "within n (f32_mul a b)"
proof -
  have "(2 :: nat) ^ j * 2 ^ k \<le> 2 ^ n * 2 ^ unit_exp binary32"
    unfolding power_add [symmetric] using assms(3) by (intro power_increasing) simp_all
  with representable32 [OF assms(4)] show ?thesis
    using bounded_mul [of binary32 "2 ^ j" "unpack32 a" "2 ^ k" "unpack32 b" "2 ^ n"] assms(1,2)
    by (simp add: within_def unpack_f32_op)
qed

section \<open>The distance kernels\<close>

lemma within_fold:
  assumes "\<And>p. p \<in> set ps \<Longrightarrow> within j (g p)" and "24 + j \<le> 276" and "within (24 + j) acc"
  shows "within (24 + j) (fold (\<lambda>p acc. f32_add acc (g p)) ps acc)"
  using assms(1,3)
proof (induction ps arbitrary: acc)
  case (Cons p ps)
  then show ?case
    using within_add [OF Cons.prems(2) _ assms(2), of "g p"] by simp
qed simp

lemma l2_within:
  assumes "\<forall>x \<in> set a. within 199 x" and "\<forall>x \<in> set b. within 199 x"
  shows "within 275 (l2_value a b)"
proof -
  have "within 251 (case p of (x, y) \<Rightarrow> f32_mul (f32_sub x y) (f32_sub x y))" if "p \<in> set (zip a b)" for p
  proof -
    obtain x y where p: "p = (x, y)" by (cases p)
    then have "within 200 (f32_sub x y)"
      using that assms within_sub [of 199 x y] by (auto dest: set_zip_leftD set_zip_rightD)
    then show ?thesis
      using within_mul [of 200 "f32_sub x y" 200 "f32_sub x y" 251] by (simp add: p)
  qed
  then show ?thesis
    using within_fold [of "zip a b" 251 "\<lambda>(x, y). f32_mul (f32_sub x y) (f32_sub x y)" f32_zero]
    by (simp add: l2_value_def case_prod_unfold)
qed

lemma dot_within:
  assumes "\<forall>x \<in> set a. within 199 x" and "\<forall>x \<in> set b. within 199 x"
  shows "within 273 (fold (\<lambda>(x, y) dot. f32_add dot (f32_mul x y)) (zip a b) f32_zero)"
proof -
  have "within 249 (case p of (x, y) \<Rightarrow> f32_mul x y)" if "p \<in> set (zip a b)" for p
  proof -
    obtain x y where p: "p = (x, y)" by (cases p)
    then have "within 199 x" "within 199 y"
      using that assms by (auto dest: set_zip_leftD set_zip_rightD)
    then show ?thesis
      using within_mul [of 199 x 199 y 249] by (simp add: p)
  qed
  then show ?thesis
    using within_fold [of "zip a b" 249 "\<lambda>(x, y). f32_mul x y" f32_zero] by (simp add: case_prod_unfold)
qed

text \<open>The three running sums of the cosine kernel are three dot products.\<close>

lemma cosine_sums:
  assumes "length a = length b"
  shows "fold (\<lambda>(x, y) (dot, na, nb). (f32_add dot (f32_mul x y), f32_add na (f32_mul x x), f32_add nb (f32_mul y y)))
      (zip a b) (d, n, m)
    = (fold (\<lambda>(x, y) dot. f32_add dot (f32_mul x y)) (zip a b) d,
       fold (\<lambda>(x, y) dot. f32_add dot (f32_mul x y)) (zip a a) n,
       fold (\<lambda>(x, y) dot. f32_add dot (f32_mul x y)) (zip b b) m)"
  using assms by (induction a b arbitrary: d n m rule: list_induct2) simp_all

lemma squares_nonneg:
  "f32_nonneg acc \<Longrightarrow> f32_nonneg (fold (\<lambda>(x, y) dot. f32_add dot (f32_mul x y)) (zip a a) acc)"
  by (induction a arbitrary: acc)
    (simp_all add: f32_nonneg_def unpack_f32_op fp_add_nonneg fp_mul_self_nonneg)

lemma within_sqrt:
  assumes "within 273 a" and "f32_nonneg a"
  shows "within 211 (f32_sqrt a)"
proof -
  have "\<not> fst (unpack32 a)"
    using assms bounded_finite [of binary32 "2 ^ 273" "unpack32 a"] by (auto simp: within_def f32_nonneg_def fp_nonneg_def)
  moreover have "(2 :: nat) ^ 273 * 2 ^ unit_exp binary32 \<le> 2 ^ 211 * 2 ^ 211"
    unfolding power_add [symmetric] by (rule power_increasing) simp_all
  ultimately show ?thesis
    using bounded_sqrt [of binary32 "2 ^ 273" "unpack32 a" 211] assms(1) representable32 [of 211]
    by (simp add: within_def unpack_f32_op)
qed

lemma fp_div_not_nan:
  assumes "bounded F a x" and "bounded F b y" and "snd y \<noteq> 0" and "0 < prec F"
  shows "\<not> fp_is_nan F (fp_div F x y)"
proof -
  have "fp_div F x y = (fst x \<noteq> fst y, round_units F (mag F (snd x) * 2 ^ unit_exp F) (mag F (snd y)))"
    using bounded_finite [OF assms(1)] bounded_finite [OF assms(2)] assms(3) by (simp add: fp_div_def)
  then show ?thesis
    using round_units_le_inf [of F "mag F (snd x) * 2 ^ unit_exp F" "mag F (snd y)"] by (simp add: fp_is_nan_def)
qed

lemma one_minus_not_nan:
  assumes "\<not> f32_is_nan s" and "\<bar>f32_key s\<bar> \<le> f32_key f32_one"
  shows "\<not> f32_is_nan (f32_sub f32_one s)"
proof -
  have one: "unpack32 f32_one = (False, 0x3F800000)"
    by (simp add: f32_one_def unpack32_def)
  have "snd (unpack32 s) \<le> 0x3F800000"
    using assms(2) by (auto simp: f32_key_def one fp_key_def split: if_splits)
  moreover have "bounded binary32 (2 ^ 149) (False, 0x3F800000)"
    by (simp add: bounded_def mag_def)
  ultimately have "within 149 s" "within 149 f32_one"
    using mag_mono [of "snd (unpack32 s)" "0x3F800000" binary32] by (auto simp: within_def bounded_def one)
  then show ?thesis
    using within_sub [of 149 f32_one s] within_not_nan by simp
qed

lemma cosine_finish_not_nan:
  assumes "within 273 dot" and "within 273 na" "f32_nonneg na" and "within 273 nb" "f32_nonneg nb"
  shows "\<not> f32_is_nan (cosine_finish (dot, na, nb))"
proof -
  let ?denom = "f32_mul (f32_sqrt na) (f32_sqrt nb)"
  define sim where "sim = f32_div dot ?denom"
  have den: "within 273 ?denom"
    using within_mul [OF within_sqrt [OF assms(2,3)] within_sqrt [OF assms(4,5)], of 273] by simp
  have keys: "f32_key f32_one = 1065353216" "f32_key f32_minus_one = - 1065353216"
    "\<not> f32_is_nan f32_one" "\<not> f32_is_nan f32_minus_one"
    by (simp_all add: fp_eval)
  have sim: "\<not> f32_is_nan sim" if "\<not> f32_eq ?denom f32_zero"
  proof -
    have "unpack32 f32_zero = (False, 0)"
      by (simp add: f32_zero_def unpack32_def)
    then have "snd (unpack32 ?denom) \<noteq> 0"
      using that within_not_nan [OF den] by (auto simp: f32_eq_def fp_eq_def f32_is_nan_def fp_key_def fp_is_nan_def split: if_splits)
    then show ?thesis
      using fp_div_not_nan [of binary32 "2 ^ 273" "unpack32 dot" "2 ^ 273" "unpack32 ?denom"] assms(1) den
      by (simp add: sim_def within_def f32_is_nan_def unpack_f32_op)
  qed
  define s1 where "s1 = (if f32_lt f32_one sim then f32_one else sim)"
  define s2 where "s2 = (if f32_lt s1 f32_minus_one then f32_minus_one else s1)"
  have "\<not> f32_is_nan (f32_sub f32_one s2)" if "\<not> f32_eq ?denom f32_zero"
  proof (rule one_minus_not_nan)
    show "\<not> f32_is_nan s2"
      using sim [OF that] keys by (simp add: s2_def s1_def)
    then show "\<bar>f32_key s2\<bar> \<le> f32_key f32_one"
      using sim [OF that] keys by (auto simp: s2_def s1_def f32_lt_iff split: if_splits)
  qed
  moreover have "cosine_finish (dot, na, nb) = (if f32_eq ?denom f32_zero then f32_one else f32_sub f32_one s2)"
    by (simp only: cosine_finish_def Let_def prod.case sim_def s1_def s2_def)
  ultimately show ?thesis
    using keys(3) by simp
qed

section \<open>Vectors of moderate size\<close>

text \<open>Components of magnitude at most \<open>2 ^ 50\<close>; the bound excludes the infinities and NaN.\<close>

definition moderate :: "fvec \<Rightarrow> bool" where
  "moderate v \<longleftrightarrow> list_all (\<lambda>x. snd (unpack32 x) \<le> 0x58800000) v"

lemma moderate_within: "moderate v \<longleftrightarrow> (\<forall>x \<in> set v. within 199 x)"
proof -
  have m: "mag binary32 0x58800000 = 2 ^ 199"
    by (simp add: mag_def)
  have "snd (unpack32 x) \<le> 0x58800000 \<longleftrightarrow> within 199 x" for x
  proof
    assume "snd (unpack32 x) \<le> 0x58800000"
    then show "within 199 x"
      using mag_mono [of "snd (unpack32 x)" "0x58800000" binary32] m by (simp add: within_def bounded_def)
  next
    assume w: "within 199 x"
    show "snd (unpack32 x) \<le> 0x58800000"
    proof (rule ccontr)
      assume "\<not> ?thesis"
      then have "mag binary32 0x58800000 < mag binary32 (snd (unpack32 x))"
        using w by (intro mag_strict_mono) (simp_all add: within_def bounded_def)
      with w m show False
        by (simp add: within_def bounded_def)
    qed
  qed
  then show ?thesis
    by (simp add: moderate_def list_all_iff)
qed

lemma metric_not_nan:
  assumes "moderate a" and "moderate b" and "length a = length b"
  shows "\<not> f32_is_nan (metric_value mk a b)"
proof -
  have a: "\<forall>x \<in> set a. within 199 x" and b: "\<forall>x \<in> set b. within 199 x"
    using assms(1,2) by (simp_all add: moderate_within)
  have z: "f32_nonneg f32_zero"
    by (simp add: f32_nonneg_def fp_nonneg_def f32_zero_def unpack32_def)
  have "\<not> f32_is_nan (l2_value a b)"
    by (rule within_not_nan [OF l2_within [OF a b]])
  moreover have "\<not> f32_is_nan (dot_value a b)"
    using within_not_nan [of 273] dot_within [OF a b] by (simp add: dot_value_def)
  moreover have "\<not> f32_is_nan (cosine_value a b)"
    unfolding cosine_value_def cosine_sums [OF assms(3)]
    by (intro cosine_finish_not_nan dot_within a b squares_nonneg z)
  ultimately show ?thesis
    by (cases mk) simp_all
qed

text \<open>C26: No distance is ever NaN between vectors whose components are at most \<open>2 ^ 50\<close> in magnitude, for each of
  the three metrics and every dimension: sums cannot overflow, since a sum of \<open>2 ^ 24\<close> terms absorbs the next
  one, and a zero denominator is caught before the division.\<close>

theorem distance_not_nan:
  assumes "moderate a" and "moderate b" and "length a = unat d" and "length b = unat d"
  shows "\<exists>s. metric_distance mk a b d = Inr s \<and> \<not> f32_is_nan s"
  using metric_distance_value [of d a b mk] metric_not_nan [OF assms(1,2)] assms(3,4) by simp

theorem distance_not_nan_witness:
  "\<exists>s. metric_distance Cosine [0x58800000, f32_one] [f32_minus_one, f32_zero] 2 = Inr s \<and> \<not> f32_is_nan s"
  using distance_not_nan [of "[0x58800000, f32_one]" "[f32_minus_one, f32_zero]" 2 Cosine]
  by (simp add: moderate_def f32_one_def f32_minus_one_def f32_zero_def unpack32_def)

section \<open>Finite vectors\<close>

text \<open>The squared distance of finite vectors may overflow to infinity, but it is never NaN: differences of finite
  numbers are no NaN, a square is not negative, and sums of such numbers only grow.\<close>

lemma round_units_inf: "round_units F n d \<le> inf_bits F"
  by (simp add: round_units_def Let_def)

definition plain_nonneg :: "f32 \<Rightarrow> bool" where
  "plain_nonneg a \<longleftrightarrow> \<not> f32_is_nan a \<and> \<not> fst (unpack32 a)"

lemma finite_sub_not_nan:
  assumes "f32_finite a" and "f32_finite b"
  shows "\<not> f32_is_nan (f32_sub a b)"
  using assms round_units_inf [of binary32 _ 1]
  by (auto simp: f32_is_nan_def unpack_f32_op f32_finite_def fp_sub_def fp_add_def fp_neg_def fp_is_nan_def fp_is_inf_def Let_def not_less)

lemma square_plain:
  assumes "\<not> f32_is_nan a"
  shows "plain_nonneg (f32_mul a a)"
  using assms round_units_inf [of binary32]
  by (auto simp: plain_nonneg_def f32_is_nan_def unpack_f32_op fp_mul_def fp_is_nan_def fp_is_inf_def fp_inf_def not_less)

lemma add_plain:
  assumes "plain_nonneg a" and "plain_nonneg b"
  shows "plain_nonneg (f32_add a b)"
  using assms round_units_inf [of binary32 _ 1]
  by (auto simp: plain_nonneg_def f32_is_nan_def unpack_f32_op fp_add_def fp_is_nan_def fp_is_inf_def sval_def Let_def not_less)

lemma l2_finite_not_nan:
  assumes "\<forall>x \<in> set a. f32_finite x" and "\<forall>x \<in> set b. f32_finite x"
  shows "\<not> f32_is_nan (metric_value L2 a b)"
proof -
  have "plain_nonneg (fold (\<lambda>(x, y) acc. f32_add acc (f32_mul (f32_sub x y) (f32_sub x y))) ps acc)"
    if "plain_nonneg acc" "\<forall>(x, y) \<in> set ps. f32_finite x \<and> f32_finite y" for ps acc
    using that
  proof (induction ps arbitrary: acc)
    case (Cons p ps)
    then show ?case
      by (auto simp: add_plain square_plain finite_sub_not_nan)
  qed simp
  moreover have "plain_nonneg f32_zero"
    by (simp add: plain_nonneg_def fp_eval f32_zero_def unpack32_def)
  moreover have "\<forall>(x, y) \<in> set (zip a b). f32_finite x \<and> f32_finite y"
    using assms by (auto dest: set_zip_leftD set_zip_rightD)
  ultimately show ?thesis
    by (simp add: l2_value_def plain_nonneg_def)
qed

text \<open>Adding at most one to a finite number cannot overflow: the largest number absorbs it.\<close>

lemma finite_bounded: "f32_finite a \<longleftrightarrow> bounded binary32 ((2 ^ 24 - 1) * 2 ^ 253) (unpack32 a)"
proof -
  have m: "mag binary32 0x7F7FFFFF = (2 ^ 24 - 1) * 2 ^ 253"
    by (simp add: mag_def)
  have "mag binary32 (snd (unpack32 a)) \<le> mag binary32 0x7F7FFFFF" if "snd (unpack32 a) < inf_bits binary32"
    using that by (intro mag_mono) simp_all
  then show ?thesis
    unfolding f32_finite_def bounded_def m by blast
qed

lemma round_top: "round_units binary32 ((2 ^ 24 - 1) * 2 ^ 253 + 2 ^ 149) 1 = round_units binary32 ((2 ^ 24 - 1) * 2 ^ 253) 1"
proof -
  have nb: "nbits ((2 ^ 24 - 1) * 2 ^ 253 + 2 ^ 149) = Suc 276" "nbits ((2 ^ 24 - 1) * 2 ^ 253) = Suc 276"
    by (rule nbits_eqI; simp)+
  have "rne ((2 ^ 24 - 1) * 2 ^ 253 + 2 ^ 149) (2 ^ 253) = 2 ^ 24 - 1" "rne ((2 ^ 24 - 1) * 2 ^ 253) (2 ^ 253) = 2 ^ 24 - 1"
    by (simp_all add: rne_def Let_def)
  then show ?thesis
    unfolding round_units_def Let_def by (simp only: div_by_1 nb mult_1) simp
qed

lemma finite_add_unit:
  assumes "within 149 a" and "f32_finite b"
  shows "f32_finite (f32_add a b)"
proof -
  have "representable binary32 ((2 ^ 24 - 1) * 2 ^ 253)"
    by (rule representable_bits [of "0x7F7FFFFF"]) (simp_all add: mag_def)
  then show ?thesis
    using bounded_add_bits [of binary32 "2 ^ 149" "unpack32 a" _ "unpack32 b", OF _ _ round_top [unfolded add.commute [of _ "2 ^ 149"]]] assms
    by (simp add: finite_bounded within_def unpack_f32_op)
qed

text \<open>An infinite component makes the distance of a vector to itself NaN.\<close>

lemma l2_infinite_nan: "f32_is_nan (metric_value L2 [0x7F800000] [0x7F800000])"
proof -
  have inf: "unpack32 0x7F800000 = (False, inf_bits binary32)"
    by (simp add: unpack32_def)
  have sub: "f32_is_nan (f32_sub 0x7F800000 0x7F800000)"
    unfolding f32_is_nan_def unpack_f32_op inf by (simp add: fp_sub_def fp_add_def fp_neg_def fp_is_inf_def fp_is_nan_def fp_nan_def)
  then have mul: "f32_is_nan (f32_mul (f32_sub 0x7F800000 0x7F800000) (f32_sub 0x7F800000 0x7F800000))"
    unfolding f32_is_nan_def unpack_f32_op(3) by (simp add: fp_mul_def)
  have "f32_is_nan (f32_add a b)" if "f32_is_nan b" for a b
    using that unfolding f32_is_nan_def unpack_f32_op(1) by (simp add: fp_add_def)
  with mul show ?thesis
    by (simp add: l2_value_def)
qed

end
