(* ===== verification/Moderate_Store.thy ===== *)
theory Moderate_Store
  imports Engine_Durability Float_Bounds
begin

text \<open>
  Stores of moderate vectors. If every vector given to a store is of moderate size, the arena holds only such
  components, in live and in deleted slots, and no distance to a moderate query is NaN. This discharges the
  condition \<open>nan_free\<close> of the search theorems from a condition on the inputs.
\<close>

definition moderate_store :: "vector_store \<Rightarrow> bool" where
  "moderate_store s \<longleftrightarrow> moderate (arena s)"

lemma moderate_simps [simp]: "moderate []" "moderate (a @ b) \<longleftrightarrow> moderate a \<and> moderate b"
  by (simp_all add: moderate_def)

lemma moderate_subset: "moderate a \<Longrightarrow> set b \<subseteq> set a \<Longrightarrow> moderate b"
  by (auto simp: moderate_within)

lemma moderate_empty [simp]: "moderate_store (vs_empty d)"
  by (simp add: moderate_store_def vs_empty_def)

lemma moderate_slot: "moderate_store s \<Longrightarrow> moderate (slot_vec s i)"
  unfolding moderate_store_def
  by (erule moderate_subset) (auto simp: slot_vec_def row_def dest!: in_set_takeD in_set_dropD)

lemma moderate_nan_free:
  assumes "store_wf s" and "moderate_store s" and "moderate q" and "length q = unat (vs_dim s)"
  shows "nan_free s mk q"
  using metric_not_nan [OF assms(3) moderate_slot [OF assms(2)]] assms(1,4) length_slot_vec
  by (auto simp: nan_free_def)

lemma moderate_copy: "copy_into a off v = Inr b \<Longrightarrow> moderate a \<Longrightarrow> moderate v \<Longrightarrow> moderate b"
  by (auto simp: copy_into_def split: if_splits intro: moderate_subset dest!: in_set_takeD in_set_dropD)

lemma vs_apply_moderate:
  assumes "vs_apply p s = Inr (r, s')" and "moderate_store s" and "op_type p = Delete \<or> moderate (op_vec p)"
  shows "moderate_store s'"
  using assms moderate_copy
  by (cases "op_type p")
    (auto simp: vs_apply_def do_insert_def do_update_def do_erase_def moderate_store_def res_simps Let_def
      split: option.splits if_splits)

lemma apply_mem_moderate:
  assumes "apply_mem p (s, x) = Inr (i, s', x')" and "moderate_store s" and "op_type p = Delete \<or> moderate (op_vec p)"
  shows "moderate_store s'"
  using assms vs_apply_moderate
  by (cases "op_type p") (fastforce simp: apply_mem_def res_simps split: option.splits if_splits)+

lemma apply_op_moderate:
  assumes "apply_op p lg e = (e', r)" and "moderate_store (eng_store e)" and "op_type p = Delete \<or> moderate (op_vec p)"
  shows "moderate_store (eng_store e')"
  using apply_op_shape [OF assms(1)] assms(2,3) apply_mem_moderate by auto

lemma insert_moderate:
  "engine_insert k v m e = (e', r) \<Longrightarrow> moderate_store (eng_store e) \<Longrightarrow> moderate v \<Longrightarrow> moderate_store (eng_store e')"
  unfolding engine_insert_def by (erule apply_op_moderate) simp_all

lemma erase_moderate:
  "engine_erase k e = (e', r) \<Longrightarrow> moderate_store (eng_store e) \<Longrightarrow> moderate_store (eng_store e')"
  by (auto simp: engine_erase_def split: sum.splits option.splits prod.splits dest: apply_op_moderate)

end
