(* ===== verification/Index_Kind.thy ===== *)
theory Index_Kind
  imports Engine_Durability
begin

text \<open>
  The index of an engine stays the kind it was built as: no operation turns a flat index into an HNSW index or
  back. What is proved of searches with the flat index therefore holds during the whole life of such an engine.
\<close>

definition is_flat :: "index \<Rightarrow> bool" where
  "is_flat x \<longleftrightarrow> (case x of Flat _ \<Rightarrow> True | Hnsw _ \<Rightarrow> False)"

lemma index_flat:
  "index_add s i x = Inr x' \<Longrightarrow> is_flat x' = is_flat x" "is_flat (index_remove i x) = is_flat x"
  by (cases x; auto simp: is_flat_def res_simps)+

lemma apply_mem_flat: "apply_mem p (s, x) = Inr (i, s', x') \<Longrightarrow> is_flat x' = is_flat x"
  by (cases "op_type p") (auto simp: apply_mem_def res_simps index_flat(2) split: option.splits if_splits dest: index_flat(1))

lemma apply_op_flat: "apply_op p lg e = (e', r) \<Longrightarrow> is_flat (eng_index e') = is_flat (eng_index e)"
  using apply_op_shape [of p lg e e' r] apply_mem_flat by metis

lemma insert_flat: "engine_insert k v m e = (e', r) \<Longrightarrow> is_flat (eng_index e') = is_flat (eng_index e)"
  unfolding engine_insert_def by (rule apply_op_flat)

lemma erase_flat: "engine_erase k e = (e', r) \<Longrightarrow> is_flat (eng_index e') = is_flat (eng_index e)"
  by (auto simp: engine_erase_def split: sum.splits option.splits prod.splits dest: apply_op_flat)

lemma make_index_flat: "is_flat (make_index cfg) \<longleftrightarrow> cfg_index cfg = Flat_kind"
  by (simp add: make_index_def is_flat_def split: index_kind.split)

lemma is_flatE: "is_flat x \<Longrightarrow> (\<And>y. x = Flat y \<Longrightarrow> thesis) \<Longrightarrow> thesis"
  by (cases x) (simp_all add: is_flat_def)

end
