(* ===== verification/Engine_Answers.thy ===== *)
theory Engine_Answers
  imports Engine_Runs Moderate_Store Index_Kind
begin

text \<open>
  Searches during the life of a durable engine. If every vector that was ever given to it is of moderate size, the
  store holds only such vectors in every state of a run, through snapshots, compactions and restarts, and the
  index is the one that was configured. So a search of such an engine always answers, with the entries that the
  requests put and did not delete, and exactly with the flat index.
\<close>

section \<open>What a run keeps\<close>

definition moderate_op :: "op \<Rightarrow> bool" where
  "moderate_op p \<longleftrightarrow> op_type p = Delete \<or> moderate (op_vec p)"

definition moderate_memory :: "engine_config \<Rightarrow> vector_store \<times> index \<Rightarrow> bool" where
  "moderate_memory cfg = (\<lambda>(s, x). moderate_store s \<and> (is_flat x \<longleftrightarrow> cfg_index cfg = Flat_kind))"

interpretation moderate_run: kept_memory cfg moderate_op "moderate_memory cfg" for cfg
proof
  show "moderate_memory cfg (vs_empty (cfg_dim cfg), make_index cfg)"
    by (simp add: moderate_memory_def make_index_flat)
next
  fix m p i m'
  assume "moderate_memory cfg m" "moderate_op p" "apply_mem p m = Inr (i, m')"
  then show "moderate_memory cfg m'"
    using apply_mem_moderate apply_mem_flat by (cases m; cases m') (auto simp: moderate_memory_def moderate_op_def)
next
  fix s x p
  assume "store_wf s" "moderate_memory cfg (s, x)" "p \<in> set (snap_ops s)"
  then show "moderate_op p"
    using moderate_slot [of s] by (auto simp: moderate_memory_def moderate_op_def snap_ops_def entry_op_def)
qed

text \<open>A request that brings only vectors of moderate size.\<close>

fun moderate_request :: "request \<Rightarrow> bool" where
  "moderate_request (Put k v m) \<longleftrightarrow> moderate v"
| "moderate_request (Change k v m) \<longleftrightarrow> moderate v"
| "moderate_request _ \<longleftrightarrow> True"

lemma moderate_request_keeps: "moderate_request q \<Longrightarrow> request_keeps moderate_op q"
  by (cases q) (simp_all add: request_keeps_def moderate_op_def entry_op_def change_op_def)

lemma run_memory:
  assumes "reachable cfg qs e" and "cfg_persistence cfg = Some pc" and "hnsw_config_ok cfg" and "length qs \<le> 2 ^ 32 - 1"
    and "\<forall>r \<in> set qs. moderate_request r"
  shows "engine_wf e" "eng_cfg e = cfg" "store_abs (eng_store e) = fold spec_perform qs Map.empty"
    "moderate_store (eng_store e)" "is_flat (eng_index e) \<longleftrightarrow> cfg_index cfg = Flat_kind"
proof -
  have "run_inv cfg moderate_op (moderate_memory cfg) (length qs) (fold spec_perform qs Map.empty) e"
    using moderate_run.reachable_inv [OF assms(1,3,2,4)] assms(5) moderate_request_keeps by blast
  then show "engine_wf e" "eng_cfg e = cfg" "store_abs (eng_store e) = fold spec_perform qs Map.empty"
    "moderate_store (eng_store e)" "is_flat (eng_index e) \<longleftrightarrow> cfg_index cfg = Flat_kind"
    by (simp_all add: run_inv_def moderate_memory_def)
qed

section \<open>Properties\<close>

text \<open>C12: Searches in every run. After any sequence of insertions, updates, deletions, flushes, snapshots, compactions and
  restarts, a search of the configured dimension answers, without a condition on the state: with at most \<open>k\<close> hits, in
  order of their distances, none of them NaN, each an entry of the database the sequence describes that satisfies the
  filter. With the flat index the answer is exact.\<close>

theorem durable_run_search:
  assumes "reachable cfg qs e" and "cfg_persistence cfg = Some pc" and "hnsw_config_ok cfg" and "length qs \<le> 2 ^ 32 - 1"
    and "\<forall>r \<in> set qs. moderate_request r" and "moderate q" and "length q = unat (cfg_dim cfg)"
  defines "A \<equiv> fold spec_perform qs Map.empty"
  shows "\<exists>out. engine_search q k f ef e = Inr out \<and> length out \<le> k \<and> sorted_wrt (\<lambda>g h. f32_key (sr_score g) \<le> f32_key (sr_score h)) out
    \<and> (\<forall>h \<in> set out. \<exists>key v m. external_id (eng_store e) (sr_id h) = Inr key \<and> A key = Some (v, m) \<and> filter_ok f m
         \<and> sr_score h = metric_value (cfg_metric cfg) q v \<and> \<not> f32_is_nan (sr_score h))
    \<and> (cfg_index cfg = Flat_kind \<longrightarrow> length out = min k (card {key. \<exists>v m. A key = Some (v, m) \<and> filter_ok f m})
         \<and> (\<forall>key v m. A key = Some (v, m) \<longrightarrow> filter_ok f m \<longrightarrow> (\<exists>h \<in> set out. external_id (eng_store e) (sr_id h) = Inr key)
              \<or> (\<forall>h \<in> set out. f32_key (sr_score h) \<le> f32_key (metric_value (cfg_metric cfg) q v))))"
proof -
  let ?s = "eng_store e" and ?mk = "cfg_metric cfg"
  note W = run_memory [OF assms(1-5), folded A_def]
  note D = engine_wfD [OF W(1)]
  have nan: "nan_free ?s ?mk q"
    by (rule moderate_nan_free [OF D(1) W(4) assms(6)]) (use D(4) W(2) assms(7) in simp)
  obtain out where out: "engine_search q k f ef e = Inr out" "length out \<le> k" "sorted_wrt (\<lambda>g h. hit_key g \<le> hit_key h) out"
    "\<forall>h \<in> set out. describes ?s ?mk q f h"
    using engine_search_ok [OF W(1), of q k f ef] nan W(2) assms(7) by auto
  have "\<exists>key v m. external_id ?s (sr_id h) = Inr key \<and> A key = Some (v, m) \<and> filter_ok f m
      \<and> sr_score h = metric_value ?mk q v \<and> \<not> f32_is_nan (sr_score h)" if h: "h \<in> set out" for h
  proof -
    obtain key v m where key: "external_id ?s (sr_id h) = Inr key" "store_abs ?s key = Some (v, m)" "filter_ok f m"
      "sr_score h = metric_value ?mk q v"
      using out(4) h unfolding describes_def by blast
    obtain i where i: "is_live ?s i" "v = slot_vec ?s i"
      using abs_live [OF D(1) key(2)] by blast
    then have "\<not> f32_is_nan (metric_value ?mk q v)"
      using nan is_live_slot [of ?s i] D(1) by (simp add: nan_free_def)
    with key W(3) show ?thesis
      by auto
  qed
  moreover have "length out = min k (card {key. \<exists>v m. A key = Some (v, m) \<and> filter_ok f m})
      \<and> (\<forall>key v m. A key = Some (v, m) \<longrightarrow> filter_ok f m \<longrightarrow> (\<exists>h \<in> set out. external_id ?s (sr_id h) = Inr key)
           \<or> (\<forall>h \<in> set out. hit_key h \<le> f32_key (metric_value ?mk q v)))" if "cfg_index cfg = Flat_kind"
  proof -
    have "is_flat (eng_index e)"
      using W(5) that by simp
    then obtain x where "eng_index e = Flat x"
      by (rule is_flatE)
    from flat_engine_exact [OF W(1) this, of q k f ef] nan W(2,3) assms(7) out(1) show ?thesis
      by (simp add: matching_def)
  qed
  ultimately show ?thesis
    using out(1-3) by (auto simp: hit_key_def)
qed

theorem durable_run_search_witness:
  "\<exists>e out. reachable durable_config [Put ''a'' [f32_one] [], Snapshot] e
     \<and> engine_search [f32_zero] 3 None 0 e = Inr out \<and> length out = 1"
proof -
  obtain e where e: "reachable durable_config [Put ''a'' [f32_one] [], Snapshot] e"
    using demo_run by blast
  have cfg: "cfg_persistence durable_config = Some \<lparr>pc_dir = ''data'', pc_sync = Always\<rparr>" "hnsw_config_ok durable_config"
    by simp_all
  have fields: "cfg_dim durable_config = 1" "cfg_index durable_config = Flat_kind"
    by (simp_all add: durable_config_def)
  have "moderate [f32_one]" "moderate [f32_zero]"
    by (simp_all add: moderate_def f32_one_def f32_zero_def unpack32_def)
  then obtain out where "engine_search [f32_zero] 3 None 0 e = Inr out"
    "length out = min 3 (card {key. \<exists>v m. [''a'' \<mapsto> ([f32_one], [])] key = Some (v, m) \<and> filter_ok None m})"
    using durable_run_search [OF e cfg, of "[f32_zero]" 3 None 0] by (auto simp: fields)
  moreover have "{key. \<exists>v m. [''a'' \<mapsto> ([f32_one], [])] key = Some (v, m) \<and> filter_ok None m} = {''a''}"
    by (auto simp: filter_ok_def split: if_splits)
  ultimately show ?thesis
    using e by auto
qed

end
