(* ===== verification/Hnsw_Loops.thy ===== *)
theory Hnsw_Loops
  imports Hnsw_Index
begin

text \<open>
  How long the two loops of an HNSW search run. The greedy descent and the beam search of \<^verbatim>\<open>hnsw_index.hpp\<close> are
  step relations here, one step per iteration of the \<^verbatim>\<open>while\<close> loop; the functions reach a state in which the
  loop stops, and no run of either loop is longer than the graph has nodes.
\<close>

section \<open>The greedy descent\<close>

text \<open>
  An iteration of \<^verbatim>\<open>while (changed)\<close>, on the variables \<^verbatim>\<open>best\<close> and \<^verbatim>\<open>changed\<close>: it scans the links of the best
  node, or breaks with \<^verbatim>\<open>changed\<close> reset if that node is not on the layer. The last iteration, which moves
  nowhere, is one too.
\<close>

inductive greedy_iter :: "vector_store \<Rightarrow> metric_kind \<Rightarrow> node list \<Rightarrow> fvec \<Rightarrow> nat \<Rightarrow> cand \<times> bool \<Rightarrow> cand \<times> bool \<Rightarrow> bool"
  for s m nodes q l where
  scan: "\<lbrakk>vget nodes (unat (c_id b)) = Inr n; l < length (nd_links n);
      rfold (greedy_step s m q) (nd_links n ! l) (b, False) = Inr st\<rbrakk> \<Longrightarrow> greedy_iter s m nodes q l (b, True) st"
| leave: "\<lbrakk>vget nodes (unat (c_id b)) = Inr n; length (nd_links n) \<le> l\<rbrakk> \<Longrightarrow> greedy_iter s m nodes q l (b, True) (b, False)"

text \<open>The iterations that move on.\<close>

inductive greedy_move :: "vector_store \<Rightarrow> metric_kind \<Rightarrow> node list \<Rightarrow> fvec \<Rightarrow> nat \<Rightarrow> cand \<Rightarrow> cand \<Rightarrow> bool"
  for s m nodes q l where
  move: "\<lbrakk>vget nodes (unat (c_id b)) = Inr n; l < length (nd_links n);
      rfold (greedy_step s m q) (nd_links n ! l) (b, False) = Inr (b', True)\<rbrakk> \<Longrightarrow> greedy_move s m nodes q l b b'"

lemma greedy_move_ok:
  assumes "readable s q nodes" and "graph_ok nodes" and "cand_at s m q nodes l b" and "greedy_move s m nodes q l b b'"
  shows "cand_at s m q nodes l b' \<and> f32_key (c_dist b') < f32_key (c_dist b)"
  using assms(4)
proof cases
  case (move n)
  then have n: "n = nodes ! unat (c_id b)" "has_layer nodes (c_id b) l"
    by (auto simp: has_layer_def vget_eq_Inr)
  then have "\<forall>e \<in> set (nd_links n ! l). has_layer nodes e l"
    using assms(2) by (simp add: graph_ok_def links_at_def)
  from greedy_scan_ok [OF assms(1) this le_refl assms(3), where ch = False] move(3) greedy_scan_decreases [OF move(3)] show ?thesis
    by auto
qed

text \<open>Along a run of the loop the distances decrease, so no node is entered twice.\<close>

lemma greedy_chain_bound:
  assumes r: "readable s q nodes" and g: "graph_ok nodes" and b: "cand_at s m q nodes l b" and chain: "(greedy_move s m nodes q l ^^ n) b c"
  shows "n < length nodes"
proof -
  from chain obtain f where f: "f 0 = b" "f n = c" "\<forall>i < n. greedy_move s m nodes q l (f i) (f (Suc i))"
    unfolding relpowp_fun_conv by blast
  have at: "cand_at s m q nodes l (f i)" if "i \<le> n" for i
    using that
  proof (induction i)
    case (Suc i)
    then show ?case
      using greedy_move_ok [OF r g, of m l "f i" "f (Suc i)"] f(3) by simp
  qed (simp add: f(1) b)
  have less: "f32_key (c_dist (f j)) < f32_key (c_dist (f i))" if "i < j" "j \<le> n" for i j
    using that
  proof (induction j)
    case (Suc j)
    have "f32_key (c_dist (f (Suc j))) < f32_key (c_dist (f j))"
      using greedy_move_ok [OF r g at] f(3) Suc.prems by simp
    with Suc show ?case
      by (cases "i = j") auto
  qed simp
  have "inj_on (\<lambda>i. unat (c_id (f i))) {0..n}"
  proof (rule linorder_inj_onI)
    fix i j assume "i < j" "i \<in> {0..n}" "j \<in> {0..n}"
    then show "unat (c_id (f i)) \<noteq> unat (c_id (f j))"
      using less [of i j] at [of i] at [of j] by (auto simp: cand_at_def)
  qed auto
  moreover have "(\<lambda>i. unat (c_id (f i))) ` {0..n} \<subseteq> {..<length nodes}"
    using at by (auto simp: cand_at_def has_layer_def)
  ultimately have "card {0..n} \<le> card {..<length nodes}"
    by (rule card_inj_on_le) simp
  then show ?thesis
    by simp
qed

inductive_cases greedy_iterE: "greedy_iter s m nodes q l (b, ch) (b', ch')"

lemma greedy_iter_changed: "greedy_iter s m nodes q l (b, ch) st \<Longrightarrow> ch"
  by (auto elim: greedy_iter.cases)

lemma greedy_iter_move: "greedy_iter s m nodes q l (b, ch) (b', True) \<Longrightarrow> greedy_move s m nodes q l b b'"
  by (auto elim!: greedy_iterE intro: greedy_move.move)

lemma greedy_move_iter: "greedy_move s m nodes q l b b' \<Longrightarrow> greedy_iter s m nodes q l (b, True) (b', True)"
  by (auto elim!: greedy_move.cases intro: greedy_iter.scan)

lemma greedy_iters_moves: "(greedy_iter s m nodes q l ^^ n) (b, True) (c, True) \<Longrightarrow> (greedy_move s m nodes q l ^^ n) b c"
proof (induction n arbitrary: c)
  case (Suc n)
  then obtain c1 ch where "(greedy_iter s m nodes q l ^^ n) (b, True) (c1, ch)" "greedy_iter s m nodes q l (c1, ch) (c, True)"
    by auto
  with Suc.IH [of c1] show ?case
    using greedy_iter_changed greedy_iter_move by fastforce
qed simp

lemma greedy_iters_bound:
  assumes "readable s q nodes" and "graph_ok nodes" and "cand_at s m q nodes l b" and "(greedy_iter s m nodes q l ^^ n) (b, True) st"
  shows "n \<le> length nodes"
proof (cases n)
  case (Suc k)
  with assms(4) obtain c ch where c: "(greedy_iter s m nodes q l ^^ k) (b, True) (c, ch)" "greedy_iter s m nodes q l (c, ch) st"
    by auto
  have "(greedy_move s m nodes q l ^^ k) b c"
    using c(1) greedy_iter_changed [OF c(2)] by (intro greedy_iters_moves) simp
  from greedy_chain_bound [OF assms(1-3) this] show ?thesis
    using Suc by simp
qed simp

lemma greedy_scan_stays:
  "rfold (greedy_step s m q) es (b, ch) = Inr (b', False)
     \<Longrightarrow> \<not> ch \<and> b' = b \<and> (\<forall>e \<in> set es. \<forall>d. dist_to s m q e = Inr d \<longrightarrow> \<not> f32_lt d (c_dist b))"
proof (induction es arbitrary: b ch)
  case (Cons e es)
  then obtain b1 ch1 where "greedy_step s m q e (b, ch) = Inr (b1, ch1)" "rfold (greedy_step s m q) es (b1, ch1) = Inr (b', False)"
    by (auto simp: res_simps)
  moreover from this(1) have "ch1 \<or> b1 = b \<and> \<not> ch \<and> (\<forall>d. dist_to s m q e = Inr d \<longrightarrow> \<not> f32_lt d (c_dist b))"
    by (auto simp: greedy_step_def res_simps split: if_splits)
  ultimately show ?case
    using Cons.IH [of b1 ch1] by auto
qed simp

lemma greedy_upper_reaches:
  assumes "readable s q nodes" and "graph_ok nodes" and "cand_at s m q nodes l b"
  shows "\<exists>b'. greedy_upper s m nodes q b l = Inr b' \<and> (greedy_iter s m nodes q l)\<^sup>*\<^sup>* (b, True) (b', False) \<and> cand_at s m q nodes l b'
    \<and> (\<forall>e \<in> set (links_at nodes (c_id b') l). \<not> f32_lt (metric_value m q (slot_vec s e)) (c_dist b'))"
  using assms(3)
proof (induction "nat (f32_key (c_dist b) + 2 ^ 31)" arbitrary: b rule: less_induct)
  case less
  let ?n = "nodes ! unat (c_id b)"
  have h: "unat (c_id b) < length nodes" "l < length (nd_links ?n)" "has_layer nodes (c_id b) l"
    using less.prems by (simp_all add: cand_at_def has_layer_def)
  have es: "\<forall>e \<in> set (nd_links ?n ! l). has_layer nodes e l"
    using assms(2) h(3) by (simp add: graph_ok_def links_at_def)
  obtain b1 ch where scan: "rfold (greedy_step s m q) (nd_links ?n ! l) (b, False) = Inr (b1, ch)"
    using greedy_scan_ok [OF assms(1) es le_refl less.prems] by blast
  have unfold: "greedy_upper s m nodes q b l = (if ch then greedy_upper s m nodes q b1 l else Inr b1)"
    using h scan by (subst greedy_upper.simps) (simp add: vec_simps)
  show ?case
  proof (cases ch)
    case True
    have step: "greedy_move s m nodes q l b b1"
      using h scan True by (intro greedy_move.move [of _ _ ?n]) (simp_all add: vec_simps)
    note b1 = greedy_move_ok [OF assms(1,2) less.prems step]
    then have "nat (f32_key (c_dist b1) + 2 ^ 31) < nat (f32_key (c_dist b) + 2 ^ 31)"
      using f32_key_bounds(1) [of "c_dist b1"] by simp
    from less.hyps [OF this conjunct1 [OF b1]] greedy_move_iter [OF step] show ?thesis
      unfolding unfold by (auto simp: True intro: converse_rtranclp_into_rtranclp)
  next
    case False
    with scan have "b1 = b" "\<forall>e \<in> set (nd_links ?n ! l). \<forall>d. dist_to s m q e = Inr d \<longrightarrow> \<not> f32_lt d (c_dist b)"
      using greedy_scan_stays [of s m q "nd_links ?n ! l" b False b1] by simp_all
    moreover have "dist_to s m q e = Inr (metric_value m q (slot_vec s e))" if "e \<in> set (nd_links ?n ! l)" for e
      using dist_to_value [OF assms(1)] es that by (auto simp: has_layer_def)
    moreover have "greedy_iter s m nodes q l (b, True) (b, False)"
      using h scan False calculation(1) by (intro greedy_iter.scan [of _ _ ?n]) (simp_all add: vec_simps)
    ultimately show ?thesis
      using less.prems by (auto simp: unfold False links_at_def)
  qed
qed

section \<open>The beam search\<close>

text \<open>An iteration of \<^verbatim>\<open>while (!cand.empty())\<close> that does not break.\<close>

inductive beam_step ::
  "vector_store \<Rightarrow> metric_kind \<Rightarrow> node list \<Rightarrow> fvec \<Rightarrow> nat \<Rightarrow> nat \<Rightarrow> bitset option \<Rightarrow> beam \<Rightarrow> beam \<Rightarrow> bool"
  for s m nodes q ef l allowed where
  skip: "\<lbrakk>\<not> (ef \<le> length res \<and> f32_lt (worst_dist res) (c_dist c)); vget nodes (unat (c_id c)) = Inr n; length (nd_links n) \<le> l\<rbrakk>
     \<Longrightarrow> beam_step s m nodes q ef l allowed (vis, c # cnd, res) (vis, cnd, res)"
| expand: "\<lbrakk>\<not> (ef \<le> length res \<and> f32_lt (worst_dist res) (c_dist c)); vget nodes (unat (c_id c)) = Inr n; l < length (nd_links n);
      rfold (layer_step s m q ef allowed) (nd_links n ! l) (vis, cnd, res) = Inr st\<rbrakk>
     \<Longrightarrow> beam_step s m nodes q ef l allowed (vis, c # cnd, res) st"

text \<open>The loop stops when the frontier is empty or cannot improve the results any more.\<close>

definition beam_final :: "nat \<Rightarrow> beam \<Rightarrow> bool" where
  "beam_final ef = (\<lambda>(vis, cnd, res). case cnd of [] \<Rightarrow> True | c # _ \<Rightarrow> ef \<le> length res \<and> f32_lt (worst_dist res) (c_dist c))"

fun beam_measure :: "beam \<Rightarrow> nat" where
  "beam_measure (vis, cnd, res) = unmarked vis + length cnd"

lemma beam_step_decreases: "beam_step s m nodes q ef l allowed a b \<Longrightarrow> beam_measure b < beam_measure a"
proof (induction rule: beam_step.induct)
  case (expand res c n vis cnd st)
  then show ?case
    by (cases st) (auto dest: layer_scan_measure)
qed simp

lemma beam_chain_bound: "(beam_step s m nodes q ef l allowed ^^ n) a b \<Longrightarrow> n + beam_measure b \<le> beam_measure a"
proof (induction n arbitrary: b)
  case (Suc n)
  then obtain c where "(beam_step s m nodes q ef l allowed ^^ n) a c" "beam_step s m nodes q ef l allowed c b"
    by auto
  with Suc.IH [of c] beam_step_decreases [of s m nodes q ef l allowed c b] show ?case
    by simp
qed simp

lemma layer_loop_reaches:
  "layer_loop s m nodes q ef l allowed vis cnd res = Inr (vis', res')
     \<Longrightarrow> \<exists>cnd'. (beam_step s m nodes q ef l allowed)\<^sup>*\<^sup>* (vis, cnd, res) (vis', cnd', res') \<and> beam_final ef (vis', cnd', res')"
proof (induction s m nodes q ef l allowed vis cnd res rule: layer_loop.induct)
  case (1 s m nodes q ef l allowed vis res)
  then show ?case
    by (intro exI [of _ "[]"]) (simp add: beam_final_def)
next
  case (2 s m nodes q ef l allowed vis c cnd res)
  show ?case
  proof (cases "ef \<le> length res \<and> f32_lt (worst_dist res) (c_dist c)")
    case True
    then show ?thesis
      using 2(3) by (intro exI [of _ "c # cnd"]) (simp add: beam_final_def layer_loop.simps(2))
  next
    case False
    with 2(3) obtain n where n: "vget nodes (unat (c_id c)) = Inr n"
      by (auto simp: layer_loop.simps(2) res_simps)
    show ?thesis
    proof (cases "length (nd_links n) \<le> l")
      case True
      have "beam_step s m nodes q ef l allowed (vis, c # cnd, res) (vis, cnd, res)"
        using False n True by (rule beam_step.skip)
      moreover have "layer_loop s m nodes q ef l allowed vis cnd res = Inr (vis', res')"
        using 2(3) False n True by (simp add: layer_loop.simps(2))
      ultimately show ?thesis
        using 2(1) [OF False n True] by (meson converse_rtranclp_into_rtranclp)
    next
      case long: False
      with 2(3) False n obtain v1 c1 r1 where st: "rfold (layer_step s m q ef allowed) (nd_links n ! l) (vis, cnd, res) = Inr (v1, c1, r1)"
        "layer_loop s m nodes q ef l allowed v1 c1 r1 = Inr (vis', res')"
        by (auto simp: layer_loop.simps(2) res_simps)
      have "beam_step s m nodes q ef l allowed (vis, c # cnd, res) (v1, c1, r1)"
        using False n long st(1) by (intro beam_step.expand) simp_all
      then show ?thesis
        using 2(2) [OF False n long st(1) refl refl st(2)] by (meson converse_rtranclp_into_rtranclp)
    qed
  qed
qed

lemma seed_measure:
  assumes "rfold (seed_step s a) entries (vis, cnd, res) = Inr st" and "vis_ok n vis" and "\<forall>c \<in> set entries. unat (c_id c) < n"
    and "distinct (map c_id entries)" and "c_id ` set entries \<inter> marked vis = {}"
  shows "beam_measure st = unmarked vis + length cnd"
  using assms
proof (induction entries arbitrary: vis cnd res)
  case (Cons c entries)
  obtain vis' where t: "test_set (c_id c) vis = Inr (False, vis')" "vis_ok n vis'" "marked vis' = insert (c_id c) (marked vis)"
    using test_set_ok [OF Cons.prems(2), of "c_id c"] Cons.prems(3,5) by auto
  then have "Suc (unmarked vis') = unmarked vis"
    using test_set_unmarked [OF t(1)] by simp
  moreover obtain st1 where st1: "seed_step s a c (vis, cnd, res) = Inr st1" "rfold (seed_step s a) entries st1 = Inr st"
    using Cons.prems(1) by (auto simp: res_simps)
  moreover obtain res' where "st1 = (vis', pq_push near_on_top c cnd, res')"
    using st1(1) t(1) by (auto simp: seed_step_def res_simps)
  ultimately show ?case
    using Cons.IH [OF _ t(2)] Cons.prems(3-5) t(3) by (auto simp: length_pq_push)
qed auto

section \<open>Properties\<close>

text \<open>C24: The greedy descent of a layer ends, after at most as many iterations as the graph has nodes, the last one, in
  which nothing is found, included: the distances along every run of its loop decrease strictly, so no node is
  entered twice. It returns the node with which the loop ends, and none of the links of this node leads closer
  to the query.\<close>

theorem greedy_descent_ends:
  assumes "store_wf s" and "hnsw_wf s x" and "length q = unat (vs_dim s)" and "cand_at s m q (hn_nodes x) l b"
  shows "(\<exists>b'. greedy_upper s m (hn_nodes x) q b l = Inr b' \<and> (greedy_iter s m (hn_nodes x) q l)\<^sup>*\<^sup>* (b, True) (b', False)
      \<and> (\<forall>e \<in> set (links_at (hn_nodes x) (c_id b') l). \<not> f32_lt (metric_value m q (slot_vec s e)) (c_dist b')))
    \<and> (\<forall>n st. (greedy_iter s m (hn_nodes x) q l ^^ n) (b, True) st \<longrightarrow> n \<le> node_count x)"
proof -
  have r: "readable s q (hn_nodes x)" and g: "graph_ok (hn_nodes x)"
    using assms by (simp_all add: readable_def hnsw_wf_def)
  show ?thesis
    using greedy_upper_reaches [OF r g assms(4)] greedy_iters_bound [OF r g assms(4)] unfolding node_count_def by blast
qed

lemma demo_cand: "cand_at demo_one L2 [f32_zero] (hn_nodes demo_index) 0 \<lparr>c_dist = metric_value L2 [f32_zero] (slot_vec demo_one 0), c_id = 0\<rparr>"
  by (simp add: cand_at_def demo_index_def demo_layer)

theorem greedy_descent_ends_witness:
  "\<exists>b' n. greedy_upper demo_one L2 (hn_nodes demo_index) [f32_zero] \<lparr>c_dist = metric_value L2 [f32_zero] (slot_vec demo_one 0), c_id = 0\<rparr> 0 = Inr b'
     \<and> (greedy_iter demo_one L2 (hn_nodes demo_index) [f32_zero] 0 ^^ n)
         (\<lparr>c_dist = metric_value L2 [f32_zero] (slot_vec demo_one 0), c_id = 0\<rparr>, True) (b', False) \<and> n = 1"
proof -
  have d: "vs_dim demo_one = 1" "1 \<le> slot_count demo_one" "node_count demo_index = 1"
    by (simp_all add: demo_one_def slot_count_def node_count_def demo_index_def)
  let ?c = "\<lparr>c_dist = metric_value L2 [f32_zero] (slot_vec demo_one 0), c_id = 0\<rparr>"
  note ends = greedy_descent_ends [OF demo_one_wf demo_index_wf [OF d(2)] _ demo_cand]
  obtain b' where b': "greedy_upper demo_one L2 (hn_nodes demo_index) [f32_zero] ?c 0 = Inr b'"
    "(greedy_iter demo_one L2 (hn_nodes demo_index) [f32_zero] 0)\<^sup>*\<^sup>* (?c, True) (b', False)"
    using ends d(1) by auto
  then obtain n where n: "(greedy_iter demo_one L2 (hn_nodes demo_index) [f32_zero] 0 ^^ n) (?c, True) (b', False)"
    using rtranclp_imp_relpowp by metis
  moreover have "n \<le> 1"
    using ends n d by (auto simp del: One_nat_def)
  moreover have "n \<noteq> 0"
    using n by (cases n) auto
  ultimately show ?thesis
    using b'(1) by (metis le_neq_implies_less less_one)
qed

text \<open>C25: The beam search of a layer ends, after at most as many iterations as the graph has nodes, whatever the
  breadth, the filter and the entry points: a node enters the frontier only when it is first marked as visited.
  The search returns what the loop has found when the frontier is empty or cannot improve the results.\<close>

theorem beam_search_ends:
  assumes "store_wf s" and "hnsw_wf s x" and "length q = unat (vs_dim s)" and "allowed_wf a" and "vis_ok (node_count x) vis"
    and "\<forall>c \<in> set entries. cand_at s m q (hn_nodes x) l c" and "distinct (map c_id entries)"
  shows "\<exists>st vis' cnd' res'. rfold (seed_step s a) entries (vis_bump vis, [], []) = Inr st
    \<and> search_layer s m (hn_nodes x) q entries ef l a vis = Inr (vis', res')
    \<and> (beam_step s m (hn_nodes x) q ef l a)\<^sup>*\<^sup>* st (vis', cnd', res') \<and> beam_final ef (vis', cnd', res')
    \<and> (\<forall>n st'. (beam_step s m (hn_nodes x) q ef l a ^^ n) st st' \<longrightarrow> n \<le> node_count x)"
proof -
  let ?nodes = "hn_nodes x"
  have r: "readable s q ?nodes" and g: "graph_ok ?nodes"
    using assms by (simp_all add: readable_def hnsw_wf_def)
  obtain vis' res' where found: "search_layer s m ?nodes q entries ef l a vis = Inr (vis', res')"
    using search_layer_ok [OF r g assms(4) _ assms(6,7)] assms(5) unfolding node_count_def by blast
  then obtain v c rs where st: "rfold (seed_step s a) entries (vis_bump vis, [], []) = Inr (v, c, rs)"
    "layer_loop s m ?nodes q ef l a v c rs = Inr (vis', res')"
    by (auto simp: search_layer_def res_simps)
  from layer_loop_reaches [OF st(2)] obtain cnd' where run: "(beam_step s m ?nodes q ef l a)\<^sup>*\<^sup>* (v, c, rs) (vis', cnd', res')"
    "beam_final ef (vis', cnd', res')"
    by blast
  note bump = vis_bump_ok [OF assms(5)]
  have "\<forall>c \<in> set entries. unat (c_id c) < node_count x"
    using assms(6) by (auto simp: cand_at_def has_layer_def node_count_def)
  from seed_measure [OF st(1) _ this assms(7)] bump have "beam_measure (v, c, rs) = unmarked (vis_bump vis)"
    by simp
  also have "\<dots> \<le> node_count x"
    using bump by (auto simp: unmarked_def vis_ok_def intro: le_trans [OF length_filter_le])
  finally have "\<forall>n st'. (beam_step s m ?nodes q ef l a ^^ n) (v, c, rs) st' \<longrightarrow> n \<le> node_count x"
    using beam_chain_bound [of _ s m ?nodes q ef l a "(v, c, rs)"] by (meson add_leE le_trans)
  with st(1) found run show ?thesis
    by blast
qed

theorem beam_search_ends_witness:
  "\<exists>vis' res'. search_layer demo_one L2 (hn_nodes demo_index) [f32_zero]
     [\<lparr>c_dist = metric_value L2 [f32_zero] (slot_vec demo_one 0), c_id = 0\<rparr>] 5 0 None (vis_ensure 1 vis_empty) = Inr (vis', res')"
proof -
  have "vs_dim demo_one = 1" "1 \<le> slot_count demo_one" "node_count demo_index = 1"
    by (simp_all add: demo_one_def slot_count_def node_count_def demo_index_def)
  then show ?thesis
    using beam_search_ends [OF demo_one_wf demo_index_wf, of "[f32_zero]" None "vis_ensure 1 vis_empty"
        "[\<lparr>c_dist = metric_value L2 [f32_zero] (slot_vec demo_one 0), c_id = 0\<rparr>]" L2 0 5] demo_cand vis_ensure_ok [of 1]
    by (auto simp: allowed_wf_def)
qed

end
