(* ===== verification/Hnsw_Exact.thy ===== *)
theory Hnsw_Exact
  imports Hnsw_Loops Index
begin

text \<open>
  When the search of an HNSW index is exact. A beam at least as broad as the graph never drops a candidate, so the
  search of the base layer explores everything that can be reached over links from the node the descent ends
  in, and returns the nearest of these entries. If the base layer is connected, the answer is that of the flat index.
\<close>

section \<open>Reachability over links\<close>

definition link_step :: "node list \<Rightarrow> nat \<Rightarrow> internal_id \<Rightarrow> internal_id \<Rightarrow> bool" where
  "link_step nodes l i j \<longleftrightarrow> j \<in> set (links_at nodes i l)"

abbreviation reaches :: "node list \<Rightarrow> nat \<Rightarrow> internal_id \<Rightarrow> internal_id \<Rightarrow> bool" where
  "reaches nodes l \<equiv> (link_step nodes l)\<^sup>*\<^sup>*"

lemma reaches_link: "reaches nodes l i j \<Longrightarrow> e \<in> set (links_at nodes j l) \<Longrightarrow> reaches nodes l i e"
  by (rule rtranclp.rtrancl_into_rtrancl) (simp_all add: link_step_def)

text \<open>A set of nodes that the links of its nodes do not leave.\<close>

definition links_closed :: "node list \<Rightarrow> nat \<Rightarrow> internal_id set \<Rightarrow> bool" where
  "links_closed nodes l P \<longleftrightarrow> (\<forall>i \<in> P. has_layer nodes i l \<longrightarrow> set (links_at nodes i l) \<subseteq> P)"

lemma reaches_layer: "reaches nodes l i j \<Longrightarrow> graph_ok nodes \<Longrightarrow> has_layer nodes i l \<Longrightarrow> has_layer nodes j l"
  by (induction rule: rtranclp_induct) (auto simp: link_step_def dest: graph_okD)

lemma reaches_closed:
  "reaches nodes l i j \<Longrightarrow> graph_ok nodes \<Longrightarrow> has_layer nodes i l \<Longrightarrow> links_closed nodes l P \<Longrightarrow> i \<in> P \<Longrightarrow> j \<in> P"
proof (induction rule: rtranclp_induct)
  case (step y z)
  then have "has_layer nodes y l" "y \<in> P"
    using reaches_layer by blast+
  with step show ?case
    by (auto simp: link_step_def links_closed_def)
qed simp

text \<open>Both loops stay in a set the links do not leave.\<close>

lemma greedy_scan_inside:
  "rfold (greedy_step s m q) es (b, ch) = Inr (b', ch') \<Longrightarrow> c_id b \<in> P \<Longrightarrow> set es \<subseteq> P \<Longrightarrow> c_id b' \<in> P"
proof (induction es arbitrary: b ch)
  case (Cons e es)
  then obtain b1 ch1 where "greedy_step s m q e (b, ch) = Inr (b1, ch1)" "rfold (greedy_step s m q) es (b1, ch1) = Inr (b', ch')"
    by (auto simp: res_simps)
  moreover from this(1) have "c_id b1 \<in> P"
    using Cons.prems(2,3) by (auto simp: greedy_step_def res_simps split: if_splits)
  ultimately show ?case
    using Cons by auto
qed simp

lemma greedy_upper_inside:
  "greedy_upper s m nodes q b l = Inr b' \<Longrightarrow> links_closed nodes l P \<Longrightarrow> c_id b \<in> P \<Longrightarrow> c_id b' \<in> P"
proof (induction s m nodes q b l rule: greedy_upper.induct)
  case (1 s m nodes q best l)
  let ?n = "nodes ! unat (c_id best)"
  have n: "vget nodes (unat (c_id best)) = Inr ?n" "unat (c_id best) < length nodes"
    using 1(2) by (subst (asm) greedy_upper.simps, auto simp: res_simps)+
  show ?case
  proof (cases "length (nd_links ?n) \<le> l")
    case True
    then show ?thesis
      using 1(2,4) n by (subst (asm) greedy_upper.simps) auto
  next
    case False
    then obtain b1 ch where scan: "rfold (greedy_step s m q) (nd_links ?n ! l) (best, False) = Inr (b1, ch)"
      and rest: "(if ch then greedy_upper s m nodes q b1 l else Inr b1) = Inr b'"
      using 1(2) n by (subst (asm) greedy_upper.simps) (auto simp: res_simps)
    have "set (nd_links ?n ! l) \<subseteq> P"
      using 1(3,4) n False by (auto simp: links_closed_def has_layer_def links_at_def)
    then have "c_id b1 \<in> P"
      using greedy_scan_inside [OF scan 1(4)] by simp
    with 1(1) [OF n(1) False scan refl] 1(3) rest show ?thesis
      by (cases ch) auto
  qed
qed

lemma zoom_in_inside:
  "zoom_in s m nodes q layers b = Inr b' \<Longrightarrow> \<forall>l \<in> set layers. links_closed nodes l P \<Longrightarrow> c_id b \<in> P \<Longrightarrow> c_id b' \<in> P"
  unfolding zoom_in_def
proof (induction layers arbitrary: b)
  case (Cons l layers)
  then show ?case
    using greedy_upper_inside [of s m nodes q b l] by (auto simp: res_simps)
qed simp

section \<open>An exhaustive beam\<close>

text \<open>
  The state of a beam search that drops nothing, while the nodes \<open>D\<close> are being expanded: what is marked is inside \<open>P\<close>, the
  marked nodes that are not waiting have all their neighbours marked, and all eligible marked nodes are results.
\<close>

definition swept ::
  "vector_store \<Rightarrow> node list \<Rightarrow> nat \<Rightarrow> bitset option \<Rightarrow> internal_id set \<Rightarrow> internal_id set \<Rightarrow> beam \<Rightarrow> bool" where
  "swept s nodes l a P D = (\<lambda>(vis, cnd, res).
     c_id ` set cnd \<subseteq> marked vis \<and> marked vis \<subseteq> P
   \<and> (\<forall>i \<in> marked vis. i \<in> D \<or> i \<in> c_id ` set cnd \<or> set (links_at nodes i l) \<subseteq> marked vis)
   \<and> (\<forall>i \<in> marked vis. eligible s a i \<longrightarrow> i \<in> c_id ` set res))"

lemma marked_finite: "vis_ok n vis \<Longrightarrow> finite (marked vis) \<and> card (marked vis) \<le> n"
proof -
  assume "vis_ok n vis"
  then have "unat ` marked vis \<subseteq> {..<n}"
    by (auto simp: marked_def vis_ok_def)
  moreover have "inj_on unat (marked vis)"
    by (auto intro: inj_onI)
  ultimately show ?thesis
    using card_inj_on_le [of unat "marked vis" "{..<n}"] inj_on_finite [of unat "marked vis" "{..<n}"] by simp
qed

lemma marked_all:
  assumes "vis_ok (length nodes) vis" and "card (marked vis) = length nodes" and "has_layer nodes i l"
  shows "i \<in> marked vis"
proof -
  have "unat ` marked vis \<subseteq> {..<length nodes}" "card (unat ` marked vis) = card (marked vis)"
    using assms(1) by (auto simp: marked_def vis_ok_def intro!: card_image inj_onI)
  then have "unat ` marked vis = {..<length nodes}"
    using assms(2) by (intro card_subset_eq) auto
  then have "unat i \<in> unat ` marked vis"
    using assms(3) by (simp add: has_layer_def)
  then show ?thesis
    by auto
qed

lemma results_bound: "beam_ok s m q nodes l a (vis, cnd, res) \<Longrightarrow> length res \<le> card (marked vis)"
proof -
  assume ok: "beam_ok s m q nodes l a (vis, cnd, res)"
  then have "card (c_id ` set res) = length res" "c_id ` set res \<subseteq> marked vis" "finite (marked vis)"
    using distinct_card [of "map c_id res"] marked_finite by (auto simp: beam_ok_def)
  then show ?thesis
    using card_mono by metis
qed

lemma layer_step_sweeps:
  assumes r: "readable s q nodes" and a: "allowed_wf a" and e: "has_layer nodes e l" "e \<in> P"
    and inv: "beam_ok s m q nodes l a (vis, cnd, res)" "swept s nodes l a P D (vis, cnd, res)" and ef: "length nodes \<le> ef"
  shows "\<exists>vis' cnd' res'. layer_step s m q ef a e (vis, cnd, res) = Inr (vis', cnd', res')
    \<and> beam_ok s m q nodes l a (vis', cnd', res') \<and> swept s nodes l a P D (vis', cnd', res') \<and> marked vis' = insert e (marked vis)"
proof -
  have v: "vis_ok (length nodes) vis" and len: "unat e < length nodes"
    using inv(1) e(1) by (auto simp: beam_ok_def has_layer_def)
  obtain vis' where t: "test_set e vis = Inr (e \<in> marked vis, vis')" "vis_ok (length nodes) vis'" "marked vis' = insert e (marked vis)"
    using test_set_ok [OF v len] by blast
  show ?thesis
  proof (cases "e \<in> marked vis")
    case True
    then show ?thesis
      using t inv by (auto simp: layer_step_def beam_ok_def swept_def insert_absorb)
  next
    case False
    let ?c = "\<lparr>c_dist = metric_value m q (slot_vec s e), c_id = e\<rparr>"
    let ?res = "if eligible s a e then pq_push far_on_top ?c res else res"
    have "Suc (card (marked vis)) \<le> length nodes"
      using marked_finite [OF t(2)] marked_finite [OF v] False by (simp add: t(3))
    then have room: "length res < ef" "\<not> ef < length (pq_push far_on_top ?c res)"
      using results_bound [OF inv(1)] ef by (auto simp: length_pq_push)
    then have step: "layer_step s m q ef a e (vis, cnd, res) = Inr (vis', pq_push near_on_top ?c cnd, ?res)"
      using t(1) False by (simp add: layer_step_def dist_to_value [OF r len] admit_eligible [OF a] Let_def)
    moreover have "beam_ok s m q nodes l a (vis', pq_push near_on_top ?c cnd, ?res)"
      using layer_step_ok [OF r a e(1) inv(1), of ef] step by simp
    moreover have "swept s nodes l a P D (vis', pq_push near_on_top ?c cnd, ?res)"
      using inv(2) e(2) t(3) by (auto simp: swept_def set_pq_push)
    ultimately show ?thesis
      using t(3) by blast
  qed
qed

lemma layer_scan_sweeps:
  assumes "readable s q nodes" and "allowed_wf a" and "\<forall>e \<in> set es. has_layer nodes e l" and "set es \<subseteq> P"
    and "beam_ok s m q nodes l a (vis, cnd, res)" and "swept s nodes l a P D (vis, cnd, res)" and "length nodes \<le> ef"
  shows "\<exists>vis' cnd' res'. rfold (layer_step s m q ef a) es (vis, cnd, res) = Inr (vis', cnd', res')
    \<and> beam_ok s m q nodes l a (vis', cnd', res') \<and> swept s nodes l a P D (vis', cnd', res') \<and> marked vis' = set es \<union> marked vis"
  using assms(3-6)
proof (induction es arbitrary: vis cnd res)
  case (Cons e es)
  then obtain v1 c1 r1 where st: "layer_step s m q ef a e (vis, cnd, res) = Inr (v1, c1, r1)"
    "beam_ok s m q nodes l a (v1, c1, r1)" "swept s nodes l a P D (v1, c1, r1)" "marked v1 = insert e (marked vis)"
    using layer_step_sweeps [OF assms(1,2), of e l P m vis cnd res D ef] assms(7) by auto
  with Cons.IH [of v1 c1 r1] Cons.prems(1,2) show ?case
    by auto
qed simp

lemma beam_step_sweeps:
  assumes "beam_step s m nodes q ef l a st st'" and r: "readable s q nodes" and g: "graph_ok nodes" and a: "allowed_wf a"
    and P: "links_closed nodes l P" and ef: "length nodes \<le> ef"
    and inv: "beam_ok s m q nodes l a st" "swept s nodes l a P {} st"
  shows "beam_ok s m q nodes l a st' \<and> swept s nodes l a P {} st' \<and> marked (fst st) \<subseteq> marked (fst st')"
  using assms(1)
proof cases
  case (skip res c n vis cnd)
  then have "has_layer nodes (c_id c) l" "n = nodes ! unat (c_id c)"
    using inv(1) by (auto simp: beam_ok_def cand_at_def vget_eq_Inr)
  with skip show ?thesis
    by (simp add: has_layer_def)
next
  case (expand res c n vis cnd)
  have c: "has_layer nodes (c_id c) l" and n: "n = nodes ! unat (c_id c)" "nd_links n ! l = links_at nodes (c_id c) l"
    using inv(1) expand by (auto simp: beam_ok_def cand_at_def vget_eq_Inr links_at_def)
  have es: "\<forall>e \<in> set (nd_links n ! l). has_layer nodes e l" "set (nd_links n ! l) \<subseteq> P"
    using c n(2) graph_okD [OF g] P inv(2) expand(1) by (auto simp: links_closed_def swept_def)
  have tail: "beam_ok s m q nodes l a (vis, cnd, res)" "swept s nodes l a P {c_id c} (vis, cnd, res)"
    using inv expand(1) by (auto simp: beam_ok_def swept_def)
  obtain v1 c1 r1 where st: "st' = (v1, c1, r1)" "beam_ok s m q nodes l a (v1, c1, r1)"
    "swept s nodes l a P {c_id c} (v1, c1, r1)" "marked v1 = set (nd_links n ! l) \<union> marked vis"
    using layer_scan_sweeps [OF r a es tail ef] expand(5) by auto
  moreover have "swept s nodes l a P {} (v1, c1, r1)"
    using st(3,4) n(2) by (auto simp: swept_def)
  ultimately show ?thesis
    using expand(1) by auto
qed

lemma beam_run_sweeps:
  assumes "(beam_step s m nodes q ef l a)\<^sup>*\<^sup>* st st'" and "readable s q nodes" and "graph_ok nodes" and "allowed_wf a"
    and "links_closed nodes l P" and "length nodes \<le> ef"
    and "beam_ok s m q nodes l a st" "swept s nodes l a P {} st"
  shows "beam_ok s m q nodes l a st' \<and> swept s nodes l a P {} st' \<and> marked (fst st) \<subseteq> marked (fst st')"
  using assms(1,7,8)
proof (induction rule: rtranclp_induct)
  case (step y z)
  then show ?case
    using beam_step_sweeps [OF step.hyps(2) assms(2-6)] by auto
qed simp

lemma seed_sweeps:
  assumes a: "allowed_wf a" and "\<forall>c \<in> set entries. cand_at s m q nodes l c" and "vis_ok (length nodes) vis"
    and "c_id ` set entries \<subseteq> P" and "swept s nodes l a P {} (vis, cnd, res)"
    and "rfold (seed_step s a) entries (vis, cnd, res) = Inr (vis', cnd', res')"
  shows "swept s nodes l a P {} (vis', cnd', res') \<and> marked vis' = c_id ` set entries \<union> marked vis"
  using assms(2-)
proof (induction entries arbitrary: vis cnd res)
  case (Cons c entries)
  have len: "unat (c_id c) < length nodes"
    using Cons.prems(1) by (simp add: cand_at_def has_layer_def)
  obtain v1 where t: "test_set (c_id c) vis = Inr (c_id c \<in> marked vis, v1)" "vis_ok (length nodes) v1" "marked v1 = insert (c_id c) (marked vis)"
    using test_set_ok [OF Cons.prems(2) len] by blast
  let ?cnd = "pq_push near_on_top c cnd" and ?res = "if eligible s a (c_id c) then pq_push far_on_top c res else res"
  have "seed_step s a c (vis, cnd, res) = Inr (v1, ?cnd, ?res)"
    using t(1) by (simp add: seed_step_def admit_eligible [OF a])
  then have "rfold (seed_step s a) entries (v1, ?cnd, ?res) = Inr (vis', cnd', res')"
    using Cons.prems(5) by simp
  moreover have "swept s nodes l a P {} (v1, ?cnd, ?res)"
    using Cons.prems(3,4) t(3) by (auto simp: swept_def set_pq_push)
  ultimately show ?case
    using Cons.IH [of v1 ?cnd ?res] Cons.prems(1,3) t(2,3) by auto
qed simp

text \<open>
  The search of a layer with a beam as broad as the graph returns exactly the eligible nodes that can be reached from
  its entry points.
\<close>

lemma search_layer_exhaustive:
  assumes r: "readable s q nodes" and g: "graph_ok nodes" and a: "allowed_wf a" and v: "vis_ok (length nodes) vis"
    and ent: "\<forall>c \<in> set entries. cand_at s m q nodes l c" "distinct (map c_id entries)" and ef: "length nodes \<le> ef"
  shows "\<exists>vis' w. search_layer s m nodes q entries ef l a vis = Inr (vis', w)
    \<and> (\<forall>c \<in> set w. cand_at s m q nodes l c) \<and> distinct (map c_id w)
    \<and> c_id ` set w = {i. eligible s a i \<and> (\<exists>c \<in> set entries. reaches nodes l (c_id c) i)}"
proof -
  let ?P = "{i. \<exists>c \<in> set entries. reaches nodes l (c_id c) i}"
  have P: "links_closed nodes l ?P"
    by (auto simp: links_closed_def intro: reaches_link)
  note bump = vis_bump_ok [OF v]
  have start: "beam_ok s m q nodes l a (vis_bump vis, [], [])" "swept s nodes l a ?P {} (vis_bump vis, [], [])"
    using bump by (auto simp: beam_ok_def swept_def)
  obtain v1 c1 r1 where seed: "rfold (seed_step s a) entries (vis_bump vis, [], []) = Inr (v1, c1, r1)" "beam_ok s m q nodes l a (v1, c1, r1)"
    using seed_ok [OF a ent start(1)] by auto
  have sw: "swept s nodes l a ?P {} (v1, c1, r1)" "marked v1 = c_id ` set entries"
    using seed_sweeps [OF a ent(1) _ _ start(2) seed(1)] bump by auto
  obtain vis' w where loop: "layer_loop s m nodes q ef l a v1 c1 r1 = Inr (vis', w)"
    using layer_loop_ok [OF r g a seed(2)] by blast
  then obtain cnd' where run: "(beam_step s m nodes q ef l a)\<^sup>*\<^sup>* (v1, c1, r1) (vis', cnd', w)" "beam_final ef (vis', cnd', w)"
    using layer_loop_reaches by blast
  have ok: "beam_ok s m q nodes l a (vis', cnd', w)" "swept s nodes l a ?P {} (vis', cnd', w)" "c_id ` set entries \<subseteq> marked vis'"
    using beam_run_sweeps [OF run(1) r g a P ef seed(2) sw(1)] sw(2) by auto
  have vis': "vis_ok (length nodes) vis'"
    using ok(1) by (simp add: beam_ok_def)
  have "?P \<subseteq> marked vis'"
  proof (cases cnd')
    case Nil
    then have "links_closed nodes l (marked vis')"
      using ok(2) by (auto simp: links_closed_def swept_def)
    then show ?thesis
      using reaches_closed [OF _ g] ok(3) ent(1) by (auto simp: cand_at_def)
  next
    case Cons
    then have "card (marked vis') = length nodes"
      using run(2) results_bound [OF ok(1)] ef marked_finite [OF vis'] by (simp add: beam_final_def)
    then have "\<And>i. has_layer nodes i l \<Longrightarrow> i \<in> marked vis'"
      using marked_all [OF vis'] by blast
    then show ?thesis
      using reaches_layer [OF _ g, of l] ent(1) by (auto simp: cand_at_def)
  qed
  then have "c_id ` set w = {i. eligible s a i \<and> i \<in> ?P}"
    using ok(1,2) by (auto simp: beam_ok_def swept_def)
  moreover have "search_layer s m nodes q entries ef l a vis = Inr (vis', w)"
    using seed(1) loop by (simp add: search_layer_def)
  ultimately show ?thesis
    using ok(1) by (auto simp: beam_ok_def)
qed

section \<open>Exact searches\<close>

lemma sorted_take_smallest:
  assumes "sorted_wrt (\<lambda>a b. key a \<le> key b) xs"
  shows "k_smallest key k (mset (take k xs)) (mset xs)"
proof -
  have split: "mset xs = mset (take k xs) + mset (drop k xs)"
    by (metis append_take_drop_id mset_append)
  have "\<forall>a \<in> set (take k xs). \<forall>b \<in> set (drop k xs). key a \<le> key b"
    using assms by (metis append_take_drop_id sorted_wrt_append)
  then show ?thesis
    by (auto simp: k_smallest_def split min_def)
qed

text \<open>The hits of a layer search, cut to the \<open>k\<close> nearest.\<close>

lemma nearest_hits:
  fixes k :: nat
  assumes w: "\<forall>c \<in> set w. cand_at s m q nodes l c" "distinct (map c_id w)" and nan: "\<forall>c \<in> set w. \<not> f32_is_nan (c_dist c)"
  defines "out \<equiv> map (\<lambda>c. \<lparr>sr_id = c_id c, sr_score = c_dist c\<rparr>) (take k (sort_by cand_less w))"
  shows "sorted_wrt (\<lambda>g h. hit_key g \<le> hit_key h) out" "k_smallest hit_key k (mset out) (mset (map (hit s m q) (map c_id w)))"
proof -
  let ?f = "\<lambda>c. \<lparr>sr_id = c_id c, sr_score = c_dist c\<rparr>" and ?w = "sort_by cand_less w"
  have sorted: "sorted_wrt (\<lambda>g h. hit_key g \<le> hit_key h) (map ?f ?w)"
    using cand_order.sort_by_sorted [OF nan] by (simp add: sorted_wrt_map hit_key_def)
  then show "sorted_wrt (\<lambda>g h. hit_key g \<le> hit_key h) out"
    unfolding out_def take_map [symmetric] by (rule sorted_wrt_take)
  have eq: "map (hit s m q) (map c_id w) = map ?f w"
    using w(1) by (auto simp: hit_def cand_at_def)
  have "mset (map (hit s m q) (map c_id w)) = mset (map ?f ?w)"
    unfolding eq mset_map mset_sort_by ..
  with sorted_take_smallest [OF sorted, of k] show "k_smallest hit_key k (mset out) (mset (map (hit s m q) (map c_id w)))"
    by (simp add: out_def take_map)
qed

lemma hnsw_search_reach:
  assumes wf: "store_wf s" and x: "hnsw_wf s x" and q: "length q = unat (vs_dim s)"
    and a: "allowed_wf (sp_allowed params)" and nan: "nan_free s (hn_metric x) q"
    and ne: "hn_entry x \<noteq> kInvalidId" and k: "0 < k" and ef: "node_count x \<le> max (sp_ef params) k"
  shows "\<exists>ep out ids. has_layer (hn_nodes x) ep 0 \<and> hnsw_search s x q k params = Inr out
    \<and> distinct ids \<and> set ids = {i. is_live s i \<and> admits (sp_allowed params) i \<and> reaches (hn_nodes x) 0 ep i}
    \<and> sorted_wrt (\<lambda>g h. hit_key g \<le> hit_key h) out
    \<and> k_smallest hit_key k (mset out) (mset (map (hit s (hn_metric x) q) ids))"
proof -
  let ?m = "hn_metric x" and ?nodes = "hn_nodes x" and ?ep = "hn_entry x"
  have r: "readable s q ?nodes" and g: "graph_ok ?nodes" and ep: "has_layer ?nodes ?ep (nat (hn_max_level x))"
    using wf x q ne by (auto simp: readable_def hnsw_wf_def)
  let ?d = "metric_value ?m q (slot_vec s ?ep)"
  have d: "dist_to s ?m q ?ep = Inr ?d"
    using dist_to_value [OF r, of ?ep ?m] ep by (simp add: has_layer_def)
  have "cand_at s ?m q ?nodes 0 \<lparr>c_dist = ?d, c_id = ?ep\<rparr>"
    using has_layer_mono [OF ep, of 0] by (simp add: cand_at_def)
  then obtain c where c: "zoom_in s ?m ?nodes q (rev [1 ..< nat (hn_max_level x + 1)]) \<lparr>c_dist = ?d, c_id = ?ep\<rparr> = Inr c"
    "cand_at s ?m q ?nodes 0 c"
    using zoom_in_ok [OF r g, of "rev [1 ..< nat (hn_max_level x + 1)]" 0 ?m] by auto
  obtain vis w where w: "search_layer s ?m ?nodes q [c] (max (sp_ef params) k) 0 (sp_allowed params) (vis_ensure (length ?nodes) vis_empty) = Inr (vis, w)"
    "\<forall>c \<in> set w. cand_at s ?m q ?nodes 0 c" "distinct (map c_id w)"
    "c_id ` set w = {i. eligible s (sp_allowed params) i \<and> (\<exists>c' \<in> set [c]. reaches ?nodes 0 (c_id c') i)}"
    using search_layer_exhaustive [OF r g a vis_ensure_ok, of "[c]" ?m 0 "max (sp_ef params) k"] c(2) ef
    unfolding node_count_def by auto
  let ?out = "map (\<lambda>c. \<lparr>sr_id = c_id c, sr_score = c_dist c\<rparr>) (take k (sort_by cand_less w))"
  have "\<forall>c \<in> set w. \<not> f32_is_nan (c_dist c)"
    using w(2) nan r by (auto simp: cand_at_def has_layer_def nan_free_def readable_def)
  note near = nearest_hits [OF w(2,3) this, of k]
  have "hnsw_search s x q k params = Inr ?out"
    using ne k d c(1) w(1) by (simp add: hnsw_search_def)
  with near w(3,4) c(2) show ?thesis
    by (intro exI [of _ "c_id c"] exI [of _ ?out] exI [of _ "map c_id w"]) (auto simp: eligible_def cand_at_def)
qed

text \<open>Two ascending selections of the \<open>k\<close> smallest have the same keys.\<close>

lemma smallest_keys:
  assumes "k_smallest key k (mset xs) S" and "sorted_wrt (\<lambda>a b. key a \<le> key b) xs"
  shows "map key xs = take k (sorted_list_of_multiset (image_mset key S))"
proof -
  obtain ys where ys: "mset ys = S - mset xs"
    using ex_mset by blast
  have sub: "mset xs \<subseteq># S" and sz: "length xs = min k (size S)" and le: "\<forall>a \<in> set xs. \<forall>b \<in> set ys. key a \<le> key b"
    using assms(1) ys unfolding k_smallest_def by (auto simp flip: set_mset_mset)
  have S: "S = mset xs + mset ys"
    using sub ys by simp
  let ?l = "map key xs @ sort (map key ys)"
  have "sorted ?l"
    using assms(2) le by (auto simp: sorted_append sorted_wrt_map)
  moreover have "mset ?l = image_mset key S"
    by (simp add: S)
  ultimately have "sorted_list_of_multiset (image_mset key S) = ?l"
    by (metis sorted_list_of_multiset_mset sorted_sort_id)
  moreover have "take k ?l = map key xs"
    using sz S by (cases "ys = []") (auto simp: min_def split: if_splits)
  ultimately show ?thesis
    by simp
qed

end
