(* ===== verification/Hnsw_Connected.thy ===== *)
theory Hnsw_Connected
  imports Hnsw_Exact
begin

text \<open>
  When insertion keeps the base layer of an HNSW index connected. A new node is linked in both directions to the
  nearest entries its search finds, and links are lost only when a list is pruned. As long as the graph has at most
  one node more than a base list may hold, nothing is pruned there; if the search during construction is broad
  enough to find a live entry, the new node is connected to the others.
\<close>

section \<open>Links after connecting and pruning\<close>

lemma connect_links:
  assumes "has_layer nodes a l" and "has_layer nodes b l" and "a \<noteq> b" and "connect a b l nodes = Inr nodes'"
  shows "shape nodes' = shape nodes"
    and "has_layer nodes c k \<Longrightarrow> links_at nodes' c k
      = links_at nodes c k @ (if k = l then if c = a then [b] else if c = b then [a] else [] else [])"
proof -
  obtain n1 where n1: "put_links a l (links_at nodes a l @ [b]) nodes = Inr n1" "relinked nodes n1 a l (links_at nodes a l @ [b])"
    using put_links_ok [OF assms(1)] by blast
  note l1 = relinked_layers [OF n1(2)]
  have b1: "has_layer n1 b l"
    using assms(2) by (simp add: l1)
  obtain n2 where n2: "put_links b l (links_at n1 b l @ [a]) n1 = Inr n2" "relinked n1 n2 b l (links_at n1 b l @ [a])"
    using put_links_ok [OF b1] by blast
  have "connect a b l nodes = Inr n2"
    using n1(1) n2(1) by (simp add: connect_def get_links_ok assms(1) b1)
  then have eq: "nodes' = n2"
    using assms(4) by simp
  show "shape nodes' = shape nodes"
    using n1(2) n2(2) by (simp add: relinked_def eq)
  show "links_at nodes' c k = links_at nodes c k @ (if k = l then if c = a then [b] else if c = b then [a] else [] else [])"
    if "has_layer nodes c k"
    using that assms(2,3) relinked_links [OF n2(2), of c k] relinked_links [OF n1(2), of c k] by (auto simp: l1 eq)
qed

lemma connect_all_links:
  assumes "has_layer nodes i l" and "\<forall>nb \<in> set nbs. has_layer nodes (c_id nb) l" and "distinct (map c_id nbs)" and "i \<notin> c_id ` set nbs"
    and "rfold (\<lambda>nb nodes. connect i (c_id nb) l nodes) nbs nodes = Inr nodes'"
  shows "shape nodes' = shape nodes \<and> (\<forall>c k. has_layer nodes c k \<longrightarrow> links_at nodes' c k
      = links_at nodes c k @ (if k = l then if c = i then map c_id nbs else if c \<in> c_id ` set nbs then [i] else [] else []))"
  using assms
proof (induction nbs arbitrary: nodes)
  case (Cons nb nbs)
  then obtain n1 where n1: "connect i (c_id nb) l nodes = Inr n1" "rfold (\<lambda>nb nodes. connect i (c_id nb) l nodes) nbs n1 = Inr nodes'"
    by (auto simp: res_simps)
  have "has_layer nodes (c_id nb) l" "i \<noteq> c_id nb"
    using Cons.prems(2,4) by auto
  note c = connect_links [OF Cons.prems(1) this n1(1)]
  note ly = shape_has_layer [OF c(1)]
  have "shape nodes' = shape n1 \<and> (\<forall>c k. has_layer nodes c k \<longrightarrow> links_at nodes' c k
      = links_at n1 c k @ (if k = l then if c = i then map c_id nbs else if c \<in> c_id ` set nbs then [i] else [] else []))"
    using Cons.IH [of n1] Cons.prems n1(2) by (simp add: ly)
  with c Cons.prems(3,4) show ?case
    by auto
qed simp

lemma prune_all_id:
  assumes "\<forall>nb \<in> set nbs. has_layer nodes (c_id nb) l \<and> length (links_at nodes (c_id nb) l) \<le> cap"
  shows "rfold (\<lambda>nb nodes. prune s m (c_id nb) l cap nodes) nbs nodes = Inr nodes"
  using assms by (induction nbs) (simp_all add: prune_eq get_links_ok)

section \<open>The neighbours of a new node\<close>

lemma select_loop_sub: "select_loop s m n cs result = Inr out \<Longrightarrow> mset out \<subseteq># mset cs + mset result"
proof (induction cs arbitrary: result)
  case (Cons c cs)
  then have "out = result \<or> (\<exists>keep. select_loop s m n cs (if keep then result @ [c] else result) = Inr out)"
    by (auto simp: res_simps split: if_splits)
  then consider "out = result" | "select_loop s m n cs (result @ [c]) = Inr out" | "select_loop s m n cs result = Inr out"
    by (auto split: if_splits)
  then show ?case
  proof cases
    case 3
    then have "mset out \<subseteq># mset cs + mset result"
      by (rule Cons.IH)
    then show ?thesis
      by (auto intro: subset_mset.order_trans)
  qed (use Cons.IH in fastforce)+
qed simp

lemma select_loop_grows: "select_loop s m n cs result = Inr out \<Longrightarrow> length result \<le> length out"
proof (induction cs arbitrary: result)
  case (Cons c cs)
  then show ?case
    by (auto simp: res_simps split: if_splits dest: Cons.IH)
qed simp

lemma select_neighbors_links:
  assumes "select_neighbors s m w n = Inr nbs"
  shows "set nbs \<subseteq> set w" "distinct (map c_id w) \<Longrightarrow> distinct (map c_id nbs)" "length nbs \<le> length w"
    "0 < n \<Longrightarrow> w \<noteq> [] \<Longrightarrow> nbs \<noteq> []"
proof -
  have sub: "mset nbs \<subseteq># mset w"
    using select_loop_sub [of s m n "sort_by cand_less w" "[]" nbs] assms by (simp add: select_neighbors_eq)
  then show "set nbs \<subseteq> set w" "length nbs \<le> length w"
    by (metis set_mset_mono set_mset_mset) (metis size_mset size_mset_mono sub)
  show "distinct (map c_id nbs)" if "distinct (map c_id w)"
    using distinct_submset [OF _ that, of "map c_id nbs"] image_mset_subseteq_mono [OF sub, of c_id] by simp
  show "nbs \<noteq> []" if ne: "0 < n" "w \<noteq> []"
  proof -
    obtain c cs where "sort_by cand_less w = c # cs"
      using ne(2) by (metis length_sort_by length_0_conv neq_Nil_conv)
    then have "select_loop s m n cs [c] = Inr nbs"
      using assms ne(1) by (auto simp: select_neighbors_eq res_simps)
    then show ?thesis
      using select_loop_grows by fastforce
  qed
qed

text \<open>The search of a layer stays in a set the links do not leave.\<close>

definition beam_inside :: "internal_id set \<Rightarrow> beam \<Rightarrow> bool" where
  "beam_inside P = (\<lambda>(vis, cnd, res). \<forall>c \<in> set cnd \<union> set res. c_id c \<in> P)"

lemma beam_inside_simps:
  "beam_inside P (vis, pq_push lt c cnd, res) \<longleftrightarrow> c_id c \<in> P \<and> beam_inside P (vis, cnd, res)"
  "beam_inside P (vis, cnd, pq_push lt c res) \<longleftrightarrow> c_id c \<in> P \<and> beam_inside P (vis, cnd, res)"
  "beam_inside P (vis', cnd, res) \<longleftrightarrow> beam_inside P (vis, cnd, res)"
  by (auto simp: beam_inside_def set_pq_push)

lemma beam_inside_pop: "beam_inside P (vis, cnd, res) \<Longrightarrow> beam_inside P (vis, cnd, pq_pop res)"
  by (cases res) (auto simp: beam_inside_def pq_pop_def)

lemma layer_step_inside:
  assumes "layer_step s m q ef a e (vis, cnd, res) = Inr st'" and "e \<in> P" and "beam_inside P (vis, cnd, res)"
  shows "beam_inside P st'"
proof -
  obtain seen v where t: "test_set e vis = Inr (seen, v)"
    using assms(1) by (auto simp: layer_step_def res_simps)
  have v: "beam_inside P (v, cnd, res)"
    using assms(3) beam_inside_simps(3) by blast
  let ?c = "\<lambda>d. \<lparr>c_dist = d, c_id = e\<rparr>"
  have push: "beam_inside P (v, pq_push near_on_top (?c d) cnd, pq_push far_on_top (?c d) res)"
    "beam_inside P (v, pq_push near_on_top (?c d) cnd, res)" for d
    using v assms(2) by (simp_all add: beam_inside_simps(1,2))
  show ?thesis
    using assms(1) t v push beam_inside_pop [OF push(1)] by (auto simp: layer_step_def res_simps Let_def split: if_splits)
qed

lemma layer_scan_inside:
  "rfold (layer_step s m q ef a) es st = Inr st' \<Longrightarrow> set es \<subseteq> P \<Longrightarrow> beam_inside P st \<Longrightarrow> beam_inside P st'"
proof (induction es arbitrary: st)
  case (Cons e es)
  then obtain st1 where "layer_step s m q ef a e st = Inr st1" "rfold (layer_step s m q ef a) es st1 = Inr st'"
    by (auto simp: res_simps)
  with Cons layer_step_inside [of s m q ef a e "fst st" "fst (snd st)" "snd (snd st)" st1 P] show ?case
    by auto
qed simp

lemma beam_step_inside:
  assumes "beam_step s m nodes q ef l a st st'" and "links_closed nodes l P" and "beam_inside P st"
  shows "beam_inside P st'"
  using assms(1)
proof cases
  case (expand res c n vis cnd)
  have "set (nd_links n ! l) \<subseteq> P" "beam_inside P (vis, cnd, res)"
    using assms(2,3) expand by (auto simp: links_closed_def has_layer_def links_at_def beam_inside_def vget_eq_Inr)
  then show ?thesis
    using layer_scan_inside [OF expand(5)] by blast
qed (use assms(3) in \<open>auto simp: beam_inside_def\<close>)

lemma beam_run_inside:
  "(beam_step s m nodes q ef l a)\<^sup>*\<^sup>* st st' \<Longrightarrow> links_closed nodes l P \<Longrightarrow> beam_inside P st \<Longrightarrow> beam_inside P st'"
  by (induction rule: rtranclp_induct) (auto dest: beam_step_inside)

lemma search_layer_inside:
  assumes "search_layer s m nodes q entries ef l a vis = Inr (vis', w)" and P: "links_closed nodes l P" and "c_id ` set entries \<subseteq> P"
  shows "c_id ` set w \<subseteq> P"
proof -
  obtain v c r where st: "rfold (seed_step s a) entries (vis_bump vis, [], []) = Inr (v, c, r)" "layer_loop s m nodes q ef l a v c r = Inr (vis', w)"
    using assms(1) by (auto simp: search_layer_def res_simps)
  have "rfold (seed_step s a) es st0 = Inr st1 \<Longrightarrow> c_id ` set es \<subseteq> P \<Longrightarrow> beam_inside P st0 \<Longrightarrow> beam_inside P st1" for es st0 st1
  proof (induction es arbitrary: st0)
    case (Cons e es)
    then obtain st where "seed_step s a e st0 = Inr st" "rfold (seed_step s a) es st = Inr st1"
      by (auto simp: res_simps)
    moreover from this(1) have "beam_inside P st"
      using Cons.prems(2,3) by (cases st0) (auto simp: seed_step_def res_simps beam_inside_def set_pq_push split: if_splits)
    ultimately show ?case
      using Cons by simp
  qed simp
  from this [OF st(1) assms(3)] have "beam_inside P (v, c, r)"
    by (simp add: beam_inside_def)
  moreover obtain cnd' where "(beam_step s m nodes q ef l a)\<^sup>*\<^sup>* (v, c, r) (vis', cnd', w)"
    using layer_loop_reaches [OF st(2)] by blast
  ultimately have "beam_inside P (vis', cnd', w)"
    using beam_run_inside [OF _ P] by blast
  then show ?thesis
    by (auto simp: beam_inside_def)
qed

section \<open>Linking a new node\<close>

text \<open>
  The state of the loop over the layers with the layers below \<open>n\<close> still untouched: the entry points of the next search
  are other nodes.
\<close>

definition untouched :: "internal_id \<Rightarrow> node list \<Rightarrow> nat \<Rightarrow> cand list \<times> visited \<times> node list \<Rightarrow> bool" where
  "untouched i nodes0 n = (\<lambda>(entries, vis, nodes).
     entries \<noteq> [] \<and> i \<notin> c_id ` set entries
   \<and> (\<forall>j k. k < n \<longrightarrow> has_layer nodes0 j k \<longrightarrow> links_at nodes j k = links_at nodes0 j k))"

definition unlinked :: "internal_id \<Rightarrow> node list \<Rightarrow> bool" where
  "unlinked i nodes \<longleftrightarrow> (\<forall>j k. has_layer nodes j k \<longrightarrow> i \<notin> set (links_at nodes j k))"

lemma unlinked_closed: "unlinked i nodes \<Longrightarrow> links_closed nodes l (- {i})"
  by (auto simp: unlinked_def links_closed_def)

lemma untouched_closed:
  assumes "untouched i nodes0 n (entries, vis, nodes)" and "shape nodes = shape nodes0" and "unlinked i nodes0" and "l < n"
  shows "links_closed nodes l (- {i})"
  using assms shape_has_layer [OF assms(2)] by (auto simp: untouched_def unlinked_def links_closed_def)

text \<open>What one pass of the loop does.\<close>

lemma link_layer_parts:
  assumes "link_layer s m p q i lc (entries, vis, nodes) = Inr (entries', vis', nodes')"
  obtains w nbs n1 where "search_layer s m nodes q entries (to_size (hp_efConstruction p)) lc None vis = Inr (vis', w)"
    "select_neighbors s m w (to_size (hp_M p)) = Inr nbs"
    "rfold (\<lambda>nb nodes. connect i (c_id nb) lc nodes) nbs nodes = Inr n1"
    "rfold (\<lambda>nb nodes. prune s m (c_id nb) lc (max_links p lc) nodes) nbs n1 = Inr nodes'"
    "entries' = (if w \<noteq> [] then w else entries)"
  using assms by (auto simp: link_layer_eq res_simps)

lemma link_layer_untouched:
  assumes r: "readable s q nodes0" and i: "\<forall>k \<le> lc. has_layer nodes0 i k" and un: "unlinked i nodes0"
    and inv: "link_inv s m p q i nodes0 (Suc lc) (entries, vis, nodes)" "untouched i nodes0 (Suc lc) (entries, vis, nodes)"
    and step: "link_layer s m p q i lc (entries, vis, nodes) = Inr (entries', vis', nodes')"
  shows "untouched i nodes0 lc (entries', vis', nodes')"
proof (rule link_layer_parts [OF step])
  fix w nbs n1
  assume w: "search_layer s m nodes q entries (to_size (hp_efConstruction p)) lc None vis = Inr (vis', w)"
    and nbs: "select_neighbors s m w (to_size (hp_M p)) = Inr nbs"
    and n1: "rfold (\<lambda>nb nodes. connect i (c_id nb) lc nodes) nbs nodes = Inr n1"
    and n2: "rfold (\<lambda>nb nodes. prune s m (c_id nb) lc (max_links p lc) nodes) nbs n1 = Inr nodes'"
    and e': "entries' = (if w \<noteq> [] then w else entries)"
  have sh: "shape nodes = shape nodes0" and g: "graph_ok nodes" and v: "vis_ok (length nodes) vis"
    and ent: "distinct (map c_id entries)" "\<forall>c \<in> set entries. cand_at s m q nodes lc c"
    using inv(1) shape_length [of nodes nodes0] cand_at_shape [of nodes nodes0 s m q] by (auto simp: link_inv_def)
  note ly = shape_has_layer [OF sh]
  have rn: "readable s q nodes"
    using readable_length [OF r] shape_length [OF sh] by simp
  have "c_id ` set entries \<subseteq> - {i}"
    using inv(2) by (auto simp: untouched_def)
  from search_layer_inside [OF w untouched_closed [OF inv(2) sh un] this] have wi: "i \<notin> c_id ` set w"
    by auto
  have "\<forall>c \<in> set w. cand_at s m q nodes lc c"
    using search_layer_ok [OF rn g _ v, of None entries m lc "to_size (hp_efConstruction p)"] ent w by (auto simp: allowed_wf_def)
  then have nb: "\<forall>nb \<in> set nbs. has_layer nodes (c_id nb) lc"
    using select_neighbors_links(1) [OF nbs] by (auto simp: cand_at_def)
  obtain n1' where c: "rfold (\<lambda>nb nodes. connect i (c_id nb) lc nodes) nbs nodes = Inr n1'" "graph_ok n1'" "shape n1' = shape nodes"
    "\<forall>c k. has_layer nodes c k \<longrightarrow> \<not> (k = lc \<and> (c = i \<or> c \<in> c_id ` set nbs)) \<longrightarrow> links_at n1' c k = links_at nodes c k"
    using connect_all_ok [OF g _ nb, of i] i by (auto simp: ly)
  have eq: "n1' = n1"
    using c(1) n1 by simp
  note ly1 = shape_has_layer [OF c(3), unfolded eq]
  have "readable s q n1"
    using readable_length [OF rn] shape_length [OF c(3)] eq by simp
  from prune_all_ok [OF this, of nbs lc m "max_links p lc"] c(2) eq nb n2
  have "\<forall>c k. has_layer nodes c k \<longrightarrow> k \<noteq> lc \<longrightarrow> links_at nodes' c k = links_at n1 c k"
    by (auto simp: ly1)
  then have "\<forall>j k. k < lc \<longrightarrow> has_layer nodes0 j k \<longrightarrow> links_at nodes' j k = links_at nodes j k"
    using c(4) by (auto simp: eq ly)
  with inv(2) wi e' show ?thesis
    by (auto simp: untouched_def)
qed

section \<open>The base layer\<close>

definition base_nodes :: "node list \<Rightarrow> internal_id set" where
  "base_nodes nodes = {i. has_layer nodes i 0}"

text \<open>Every node of the base layer can be reached from every other, and no list has come near the cap.\<close>

definition base_linked :: "node list \<Rightarrow> bool" where
  "base_linked nodes \<longleftrightarrow> (\<forall>i \<in> base_nodes nodes. length (links_at nodes i 0) < card (base_nodes nodes)
     \<and> (\<forall>j \<in> base_nodes nodes. reaches nodes 0 i j))"

lemma base_nodes_finite: "finite (base_nodes nodes)" "card (base_nodes nodes) \<le> length nodes"
proof -
  have "unat ` base_nodes nodes \<subseteq> {..<length nodes}" "inj_on unat (base_nodes nodes)"
    by (auto simp: base_nodes_def has_layer_def intro: inj_onI)
  then show "finite (base_nodes nodes)" "card (base_nodes nodes) \<le> length nodes"
    using card_inj_on_le [of unat "base_nodes nodes" "{..<length nodes}"] inj_on_finite [of unat _ "{..<length nodes}"] by simp_all
qed

lemma reaches_mono:
  assumes "reaches nodes l i j" and "graph_ok nodes" and "has_layer nodes i l"
    and "\<And>c. has_layer nodes c l \<Longrightarrow> set (links_at nodes c l) \<subseteq> set (links_at nodes' c l)"
  shows "reaches nodes' l i j"
  using assms(1)
proof (induction rule: rtranclp_induct)
  case (step y z)
  have "z \<in> set (links_at nodes' y l)"
    using step.hyps(2) assms(4) [OF reaches_layer [OF step.hyps(1) assms(2,3)]] by (auto simp: link_step_def)
  with step.IH show ?case
    by (rule reaches_link)
qed simp

text \<open>A graph \<open>nodes\<close> that has a new node \<open>i\<close> beside the nodes of \<open>old\<close>, without links on the base layer.\<close>

definition extends :: "node list \<Rightarrow> internal_id \<Rightarrow> node list \<Rightarrow> bool" where
  "extends old i nodes \<longleftrightarrow> graph_ok old \<and> \<not> has_layer old i 0 \<and> (\<forall>j. has_layer nodes j 0 \<longleftrightarrow> j = i \<or> has_layer old j 0)
     \<and> links_at nodes i 0 = [] \<and> (\<forall>j. has_layer old j 0 \<longrightarrow> links_at nodes j 0 = links_at old j 0)"

lemma extends_base:
  assumes "extends old i nodes"
  shows "base_nodes nodes = insert i (base_nodes old)" "card (base_nodes nodes) = Suc (card (base_nodes old))" "links_closed nodes 0 (- {i})"
proof -
  show "base_nodes nodes = insert i (base_nodes old)"
    using assms by (auto simp: extends_def base_nodes_def)
  moreover have "i \<notin> base_nodes old"
    using assms by (simp add: extends_def base_nodes_def)
  ultimately show "card (base_nodes nodes) = Suc (card (base_nodes old))"
    using base_nodes_finite(1) [of old] by simp
  show "links_closed nodes 0 (- {i})"
    using assms graph_okD [of old _ 0] by (auto simp: links_closed_def extends_def)
qed

text \<open>The new node is joined to the old graph by links in both directions.\<close>

lemma joined_linked:
  assumes old: "base_linked old" "extends old i nodes" and ids: "ids \<noteq> []" "set ids \<subseteq> base_nodes old" "length ids \<le> card (base_nodes old)"
    and new: "shape n1 = shape nodes"
      "\<forall>c k. has_layer nodes c k \<longrightarrow> links_at n1 c k = links_at nodes c k @ (if k = 0 then if c = i then ids else if c \<in> set ids then [i] else [] else [])"
  shows "base_linked n1" "\<forall>c \<in> base_nodes old. length (links_at n1 c 0) \<le> card (base_nodes old)"
proof -
  note ly = shape_has_layer [OF new(1)]
  have g: "graph_ok old" and ni: "i \<notin> base_nodes old"
    using old(2) by (auto simp: extends_def base_nodes_def)
  have b1: "base_nodes n1 = insert i (base_nodes old)" "card (base_nodes n1) = Suc (card (base_nodes old))"
    using extends_base [OF old(2)] by (simp_all add: base_nodes_def ly)
  have li: "links_at n1 i 0 = ids"
    using new(2) old(2) by (simp add: extends_def)
  have lc: "links_at n1 c 0 = links_at old c 0 @ (if c \<in> set ids then [i] else [])" if "c \<in> base_nodes old" for c
    using that new(2) old(2) ni by (auto simp: extends_def base_nodes_def)
  show short: "\<forall>c \<in> base_nodes old. length (links_at n1 c 0) \<le> card (base_nodes old)"
    using old(1) by (auto simp: lc base_linked_def)
  obtain nb where nb: "nb \<in> set ids" "nb \<in> base_nodes old"
    using ids(1,2) by (metis list.set_intros(1) neq_Nil_conv subsetD)
  have old_reach: "reaches n1 0 a b" if "a \<in> base_nodes old" "b \<in> base_nodes old" for a b
  proof (rule reaches_mono [OF _ g])
    show "reaches old 0 a b"
      using old(1) that by (simp add: base_linked_def)
  qed (use that(1) lc in \<open>auto simp: base_nodes_def\<close>)
  have out: "reaches n1 0 i b" if "b \<in> base_nodes old" for b
    using reaches_link [of n1 0 i i nb] li nb(1) old_reach [OF nb(2) that] by (metis rtranclp.rtrancl_refl rtranclp_trans)
  have home: "reaches n1 0 a i" if "a \<in> base_nodes old" for a
    using reaches_link [OF old_reach [OF that nb(2)], of i] lc [OF nb(2)] nb(1) by simp
  have "length (links_at n1 a 0) < card (base_nodes n1)" if "a \<in> base_nodes n1" for a
    using that short li ids(3) b1 by (auto simp: less_Suc_eq_le)
  moreover have "reaches n1 0 a b" if "a \<in> base_nodes n1" "b \<in> base_nodes n1" for a b
    using that old_reach out home unfolding b1 by auto
  ultimately show "base_linked n1"
    by (simp add: base_linked_def)
qed

lemma link_base:
  assumes r: "readable s q nodes" and g: "graph_ok nodes" and v: "vis_ok (length nodes) vis"
    and ent: "\<forall>c \<in> set entries. cand_at s m q nodes 0 c" "distinct (map c_id entries)" "entries \<noteq> []" "i \<notin> c_id ` set entries"
    and old: "base_linked old" "extends old i nodes" and live: "j \<in> base_nodes old" "is_live s j"
    and p: "0 < to_size (hp_M p)" "length nodes \<le> to_size (hp_efConstruction p)" "length nodes \<le> Suc (max_links p 0)"
    and step: "link_layer s m p q i 0 (entries, vis, nodes) = Inr (entries', vis', nodes')"
  shows "base_linked nodes'"
proof (rule link_layer_parts [OF step])
  fix w nbs n1
  assume w: "search_layer s m nodes q entries (to_size (hp_efConstruction p)) 0 None vis = Inr (vis', w)"
    and nbs: "select_neighbors s m w (to_size (hp_M p)) = Inr nbs"
    and n1: "rfold (\<lambda>nb nodes. connect i (c_id nb) 0 nodes) nbs nodes = Inr n1"
    and n2: "rfold (\<lambda>nb nodes. prune s m (c_id nb) 0 (max_links p 0) nodes) nbs n1 = Inr nodes'"
  note ext = extends_base [OF old(2)]
  have found: "\<forall>c \<in> set w. cand_at s m q nodes 0 c" "distinct (map c_id w)"
    "c_id ` set w = {i. eligible s None i \<and> (\<exists>c \<in> set entries. reaches nodes 0 (c_id c) i)}"
    using search_layer_exhaustive [OF r g _ v ent(1,2) p(2), of None] w by (auto simp: allowed_wf_def)
  have "c_id ` set entries \<subseteq> - {i}"
    using ent(4) by auto
  then have wi: "i \<notin> c_id ` set w"
    using search_layer_inside [OF w ext(3)] by auto
  have "c_id ` set w \<subseteq> base_nodes nodes"
    using found(1) by (auto simp: base_nodes_def cand_at_def)
  with wi have ids: "c_id ` set w \<subseteq> base_nodes old"
    unfolding ext(1) by auto
  obtain c where c: "c \<in> set entries" "c_id c \<in> base_nodes old"
    using ent(1,3,4) old(2) by (cases entries) (auto simp: cand_at_def extends_def base_nodes_def)
  have "reaches nodes 0 (c_id c) j"
    by (rule reaches_mono [of old]) (use old live(1) c(2) in \<open>auto simp: base_linked_def extends_def base_nodes_def\<close>)
  then have "w \<noteq> []"
    using found(3) c(1) live(2) by (auto simp: eligible_def admits_def)
  note sel = select_neighbors_links [OF nbs]
  have nb: "nbs \<noteq> []" "distinct (map c_id nbs)" "c_id ` set nbs \<subseteq> base_nodes old"
    using sel(4) [OF p(1) \<open>w \<noteq> []\<close>] sel(2) [OF found(2)] sel(1) ids by auto
  then have len: "length nbs \<le> card (base_nodes old)"
    using distinct_card [OF nb(2)] card_mono [OF base_nodes_finite(1) nb(3)] by simp
  have il: "has_layer nodes i 0" "\<forall>nb \<in> set nbs. has_layer nodes (c_id nb) 0" "i \<notin> c_id ` set nbs"
    using old(2) nb(3) by (auto simp: extends_def base_nodes_def)
  note c1 = connect_all_links [OF il(1,2) nb(2) il(3) n1]
  have n1': "base_linked n1" "\<forall>c \<in> base_nodes old. length (links_at n1 c 0) \<le> card (base_nodes old)"
    using joined_linked [OF old, of "map c_id nbs" n1] nb(1,3) len c1 by auto
  have "card (base_nodes old) \<le> max_links p 0"
    using base_nodes_finite(2) [of nodes] ext(2) p(3) by simp
  then have "\<forall>nb \<in> set nbs. has_layer n1 (c_id nb) 0 \<and> length (links_at n1 (c_id nb) 0) \<le> max_links p 0"
    using n1'(2) nb(3) il(2) shape_has_layer [of n1 nodes] c1 by fastforce
  from prune_all_id [OF this] n2 have "nodes' = n1"
    by simp
  with n1'(1) show ?thesis
    by simp
qed

lemma link_layers_base:
  assumes r: "readable s q nodes1" and p: "params_ok p" and un: "unlinked i nodes1" and old: "base_linked old" "extends old i nodes1"
    and live: "j \<in> base_nodes old" "is_live s j"
    and ps: "0 < to_size (hp_M p)" "length nodes1 \<le> to_size (hp_efConstruction p)" "length nodes1 \<le> Suc (max_links p 0)"
    and "\<forall>k \<le> n. has_layer nodes1 i k" and "link_inv s m p q i nodes1 (Suc n) st" and "untouched i nodes1 (Suc n) st"
    and "rfold (link_layer s m p q i) (rev [0..<Suc n]) st = Inr (es, vis, nodes2)"
  shows "base_linked nodes2"
  using assms(11-)
proof (induction n arbitrary: st)
  case 0
  obtain entries v nodes where st: "st = (entries, v, nodes)" by (cases st)
  have inv: "shape nodes = shape nodes1" "graph_ok nodes" "vis_ok (length nodes) v" "distinct (map c_id entries)"
    "\<forall>c \<in> set entries. cand_at s m q nodes 0 c" "links_at nodes i 0 = []"
    using 0(2) shape_length [of nodes nodes1] cand_at_shape [of nodes nodes1 s m q] by (auto simp: st link_inv_def)
  have len: "length nodes = length nodes1" and ly: "has_layer nodes = has_layer nodes1"
    using shape_length [OF inv(1)] shape_has_layer [OF inv(1)] by simp_all
  have un: "entries \<noteq> []" "i \<notin> c_id ` set entries" "\<forall>j. has_layer nodes1 j 0 \<longrightarrow> links_at nodes j 0 = links_at nodes1 j 0"
    using 0(3) by (simp_all add: st untouched_def)
  have "extends old i nodes"
    using old(2) un(3) inv(6) by (simp add: extends_def ly)
  moreover have "link_layer s m p q i 0 (entries, v, nodes) = Inr (es, vis, nodes2)"
    using 0(4) by (auto simp: st res_simps)
  ultimately show ?case
    using link_base [OF readable_length [OF r len] inv(2,3,5,4) un(1,2) old(1) _ live ps(1)] ps(2,3) by (simp add: len)
next
  case (Suc n)
  obtain st1 where st1: "link_layer s m p q i (Suc n) st = Inr st1" "rfold (link_layer s m p q i) (rev [0..<Suc n]) st1 = Inr (es, vis, nodes2)"
    using Suc.prems(4) by (auto simp: res_simps)
  have "link_inv s m p q i nodes1 (Suc n) st1"
    using link_layer_ok [OF r p Suc.prems(1,2)] st1(1) by auto
  moreover have "untouched i nodes1 (Suc n) st1"
    using link_layer_untouched [OF r Suc.prems(1) un] Suc.prems(2,3) st1(1) by (metis prod_cases3)
  ultimately show ?case
    using Suc.IH [of st1] Suc.prems(1) st1(2) by simp
qed

section \<open>Insertion\<close>

lemma grow_base: "base_nodes (hn_nodes (hnsw_grow n x)) = base_nodes (hn_nodes x)"
  by (simp add: hnsw_grow_def base_nodes_def has_layer_pad)

lemma grow_linked:
  assumes "base_linked (hn_nodes x)" and "graph_ok (hn_nodes x)"
  shows "base_linked (hn_nodes (hnsw_grow n x))"
proof -
  have links: "links_at (hn_nodes (hnsw_grow n x)) i 0 = links_at (hn_nodes x) i 0" if "i \<in> base_nodes (hn_nodes x)" for i
    using that by (simp add: hnsw_grow_def links_at_pad base_nodes_def)
  have "reaches (hn_nodes (hnsw_grow n x)) 0 i j" if "i \<in> base_nodes (hn_nodes x)" "j \<in> base_nodes (hn_nodes x)" for i j
    by (rule reaches_mono [OF _ assms(2)]) (use assms(1) that links in \<open>auto simp: base_linked_def base_nodes_def\<close>)
  with assms(1) links show ?thesis
    by (simp add: base_linked_def grow_base)
qed

lemma fresh_extends:
  fixes lv :: nat and i :: internal_id
  assumes "unat i < length nodes" and "nd_links (nodes ! unat i) = []" and "graph_ok nodes"
  defines "nodes1 \<equiv> nodes[unat i := \<lparr>nd_level = lv, nd_links = replicate (lv + 1) []\<rparr>]"
  shows "extends nodes i nodes1" "unlinked i nodes1"
proof -
  note f = fresh_node [OF assms(1,2), of lv, folded nodes1_def]
  have i: "\<not> has_layer nodes i l" for l
    using assms(2) by (simp add: has_layer_def)
  show "extends nodes i nodes1"
    using assms(3) i f by (auto simp: extends_def)
  show "unlinked i nodes1"
    using graph_okD [OF assms(3)] i f by (auto simp: unlinked_def split: if_splits)
qed

text \<open>The conditions under which an insertion keeps the base layer connected: room in the lists and a broad construction search.\<close>

definition roomy :: "hnsw_params \<Rightarrow> nat \<Rightarrow> bool" where
  "roomy p n \<longleftrightarrow> 0 < hp_M p \<and> n \<le> Suc (max_links p 0) \<and> n \<le> to_size (hp_efConstruction p)"

lemma link_new_linked:
  fixes lv :: nat
  assumes wf: "store_wf s" and slots: "length nodes \<le> slot_count s" and p: "params_ok p" and g: "graph_ok nodes" and cap: "capped p nodes"
    and i: "unat i < length nodes" "nd_links (nodes ! unat i) = []" and ml: "0 \<le> ml" and ep: "has_layer nodes ep (nat ml)"
    and bl: "base_linked nodes" and live: "j \<in> base_nodes nodes" "is_live s j" and room: "roomy p (slot_count s)"
  defines "nodes1 \<equiv> nodes[unat i := \<lparr>nd_level = lv, nd_links = replicate (lv + 1) []\<rparr>]" and "q \<equiv> slot_vec s i"
  shows "\<exists>d c es vis nodes2. dist_to s m q ep = Inr d
    \<and> zoom_in s m nodes1 q (rev [lv + 1 ..< nat (ml + 1)]) \<lparr>c_dist = d, c_id = ep\<rparr> = Inr c
    \<and> rfold (link_layer s m p q i) (rev [0 ..< nat (min (int lv) ml + 1)]) ([c], vis_ensure (length nodes1) vis_empty, nodes1)
      = Inr (es, vis, nodes2) \<and> base_linked nodes2"
proof -
  let ?n = "nat (min (int lv) ml)"
  have n: "nat (min (int lv) ml + 1) = Suc ?n"
    using ml by auto
  note ext = fresh_extends [OF i g, of lv, folded nodes1_def]
  obtain d c es vis nodes2 where l: "dist_to s m q ep = Inr d"
    "zoom_in s m nodes1 q (rev [lv + 1 ..< nat (ml + 1)]) \<lparr>c_dist = d, c_id = ep\<rparr> = Inr c"
    "link_inv s m p q i nodes1 (Suc ?n) ([c], vis_ensure (length nodes1) vis_empty, nodes1)"
    "rfold (link_layer s m p q i) (rev [0 ..< Suc ?n]) ([c], vis_ensure (length nodes1) vis_empty, nodes1) = Inr (es, vis, nodes2)"
    using link_new_node [OF wf slots p g cap i ml ep, of m lv] unfolding n nodes1_def q_def by blast
  have "ep \<noteq> i"
    using ep i(2) by (auto simp: has_layer_def)
  then have "c_id c \<noteq> i"
    using zoom_in_inside [OF l(2), of "- {i}"] unlinked_closed [OF ext(2)] by auto
  then have un: "untouched i nodes1 (Suc ?n) ([c], vis_ensure (length nodes1) vis_empty, nodes1)"
    by (simp add: untouched_def)
  have r: "readable s q nodes1"
    using wf slots i(1) length_slot_vec [OF wf, of i] by (simp add: readable_def nodes1_def q_def)
  have "?n \<le> lv"
    by simp
  then have ly: "\<forall>k \<le> ?n. has_layer nodes1 i k"
    by (simp add: fresh_node(1) [OF i, of lv i, folded nodes1_def])
  have "0 < to_size (hp_M p)" "length nodes1 \<le> to_size (hp_efConstruction p)" "length nodes1 \<le> Suc (max_links p 0)"
    using room p slots by (simp_all add: roomy_def params_ok_def to_size_def nodes1_def)
  from link_layers_base [OF r p ext(2) bl ext(1) live this ly l(3) un l(4)] l(1,2,4) show ?thesis
    unfolding n by blast
qed

lemma no_entry_empty: "hnsw_wf s x \<Longrightarrow> hn_entry x = kInvalidId \<Longrightarrow> base_nodes (hn_nodes x) = {}"
  by (fastforce simp: hnsw_wf_def base_nodes_def has_layer_def levels_ok_def level_ok_def dest: list_all2_nthD2)

lemma hnsw_add_linked:
  assumes wf: "store_wf s" and x: "hnsw_wf s x0" and slot: "unat i < slot_count s" and bl: "base_linked (hn_nodes x0)"
    and room: "roomy (hn_params x0) (slot_count s)" and live: "base_nodes (hn_nodes x0) = {} \<or> (\<exists>j \<in> base_nodes (hn_nodes x0). is_live s j)"
    and add: "hnsw_add s i x0 = Inr x'"
  shows "base_linked (hn_nodes x')"
proof -
  define x where "x = hnsw_grow (unat i + 1) x0"
  have x_eq: "hnsw_grow (Suc (unat i)) x0 = x"
    by (simp add: x_def)
  have gx: "hnsw_wf s x" "unat i < length (hn_nodes x)" and fx: "hn_params x = hn_params x0"
    using grow_wf [OF x slot] by (simp_all add: x_def)
  have bx: "base_linked (hn_nodes x)" "base_nodes (hn_nodes x) = base_nodes (hn_nodes x0)"
    using grow_linked [OF bl] x grow_base by (simp_all add: x_def hnsw_wf_def)
  have len: "length (hn_built x) = length (hn_nodes x)" and lvs: "levels_ok (hn_built x) (shape (hn_nodes x)) (hn_max_level x)"
    and g: "graph_ok (hn_nodes x)" "capped (hn_params x) (hn_nodes x)" and p: "params_ok (hn_params x)"
    and sl: "length (hn_nodes x) \<le> slot_count s"
    using gx(1) by (auto simp: hnsw_wf_def levels_ok_def dest: list_all2_lengthD)
  let ?lv = "hp_levels (hn_params x) (hn_draws x)"
  have q: "vs_get s i = Inr (slot_vec s i)"
    using vs_get_slot [OF wf slot] .
  consider (built) "hn_built x ! unat i \<noteq> 0" | (first) "hn_built x ! unat i = 0" "hn_entry x = kInvalidId"
    | (link) "hn_built x ! unat i = 0" "hn_entry x \<noteq> kInvalidId"
    by blast
  then show ?thesis
  proof cases
    case built
    then show ?thesis
      using add gx(2) len bx(1) by (auto simp: hnsw_add_eq Let_def x_eq vec_simps)
  next
    case first
    note ext = fresh_extends [OF gx(2) levels_empty [OF lvs gx(2) first(1)] g(1), of ?lv]
    have "base_linked (hn_nodes (add_node i x))"
      using extends_base(1) [OF ext(1)] ext(1) no_entry_empty [OF gx(1) first(2)]
      by (simp add: base_linked_def extends_def add_node_def Let_def)
    then show ?thesis
      using add first gx(2) len q by (auto simp: hnsw_add_eq Let_def x_eq vec_simps add_node_def)
  next
    case link
    have ml: "0 \<le> hn_max_level x" "has_layer (hn_nodes x) (hn_entry x) (nat (hn_max_level x))"
      using gx(1) link(2) by (auto simp: hnsw_wf_def)
    then obtain j where j: "j \<in> base_nodes (hn_nodes x)" "is_live s j"
      using live bx(2) has_layer_mono [OF ml(2), of 0] by (auto simp: base_nodes_def)
    obtain d c es vis nodes2 where l: "dist_to s (hn_metric x) (slot_vec s i) (hn_entry x) = Inr d"
      "zoom_in s (hn_metric x) (hn_nodes (add_node i x)) (slot_vec s i) (rev [?lv + 1 ..< nat (hn_max_level x + 1)]) \<lparr>c_dist = d, c_id = hn_entry x\<rparr> = Inr c"
      "rfold (link_layer s (hn_metric x) (hn_params x) (slot_vec s i) i) (rev [0 ..< nat (min (int ?lv) (hn_max_level x) + 1)])
        ([c], vis_ensure (length (hn_nodes (add_node i x))) vis_empty, hn_nodes (add_node i x)) = Inr (es, vis, nodes2)" "base_linked nodes2"
      using link_new_linked [OF wf sl p g gx(2) levels_empty [OF lvs gx(2) link(1)] ml bx(1) j, of "hn_metric x" ?lv] room fx
      by (auto simp: add_node_def Let_def)
    let ?x2 = "(add_node i x)\<lparr>hn_nodes := nodes2\<rparr>"
    have "hnsw_add s i x0 = Inr (if int ?lv > hn_max_level ?x2 then ?x2\<lparr>hn_max_level := int ?lv, hn_entry := i\<rparr> else ?x2)"
      using link gx(2) len q l(1-3) by (simp add: hnsw_add_eq Let_def x_eq vec_simps add_node_def)
    then show ?thesis
      using add l(4) by (auto split: if_splits)
  qed
qed

section \<open>Exactness\<close>

lemma live_base:
  assumes "hnsw_coupled s x" and "is_live s i"
  shows "i \<in> base_nodes (hn_nodes x)"
proof -
  have "unat i < length (hn_built x)" "hn_built x ! unat i \<noteq> 0" "list_all2 (level_ok (hn_max_level x)) (hn_built x) (shape (hn_nodes x))"
    using assms by (auto simp: hnsw_coupled_def live_set_def hnsw_wf_def levels_ok_def)
  then show ?thesis
    using list_all2_nthD [of "level_ok (hn_max_level x)" "hn_built x" "shape (hn_nodes x)" "unat i"]
    by (auto simp: base_nodes_def has_layer_def level_ok_def dest: list_all2_lengthD)
qed

text \<open>On a connected base layer, a beam as broad as the graph finds the \<open>k\<close> nearest of the live admitted entries.\<close>

lemma hnsw_exact:
  assumes x: "hnsw_coupled s x" and wf: "store_wf s" and q: "length q = unat (vs_dim s)" and a: "allowed_wf (sp_allowed params)"
    and nan: "nan_free s (hn_metric x) q" and ef: "node_count x \<le> max (sp_ef params) k"
    and con: "\<forall>i \<in> base_nodes (hn_nodes x). \<forall>j \<in> base_nodes (hn_nodes x). reaches (hn_nodes x) 0 i j"
  shows "\<exists>out ids. hnsw_search s x q k params = Inr out \<and> distinct ids \<and> set ids = {i. is_live s i \<and> admits (sp_allowed params) i}
    \<and> sorted_wrt (\<lambda>g h. hit_key g \<le> hit_key h) out \<and> k_smallest hit_key k (mset out) (mset (map (hit s (hn_metric x) q) ids))"
proof (cases "k = 0 \<or> hn_entry x = kInvalidId")
  case True
  let ?L = "{i. is_live s i \<and> admits (sp_allowed params) i}"
  have "?L \<subseteq> base_nodes (hn_nodes x)"
    using live_base [OF x] by auto
  then have "finite ?L"
    using base_nodes_finite(1) finite_subset by blast
  then obtain ids where ids: "distinct ids" "set ids = ?L"
    using finite_distinct_list by metis
  have "base_nodes (hn_nodes x) = {}" if "hn_entry x = kInvalidId"
    using no_entry_empty [OF _ that, of s] x by (simp add: hnsw_coupled_def)
  then have "k = 0 \<or> set ids = {}"
    using True \<open>?L \<subseteq> base_nodes (hn_nodes x)\<close> unfolding ids(2) by blast
  then have "k_smallest hit_key k (mset []) (mset (map (hit s (hn_metric x) q) ids))"
    by (auto simp: k_smallest_def)
  moreover have "hnsw_search s x q k params = Inr []"
    using True by (simp add: hnsw_search_def)
  ultimately show ?thesis
    using ids by (intro exI [of _ "[]"] exI [of _ ids]) simp
next
  case False
  then obtain ep out ids where r: "has_layer (hn_nodes x) ep 0" "hnsw_search s x q k params = Inr out" "distinct ids"
    "set ids = {i. is_live s i \<and> admits (sp_allowed params) i \<and> reaches (hn_nodes x) 0 ep i}"
    "sorted_wrt (\<lambda>g h. hit_key g \<le> hit_key h) out" "k_smallest hit_key k (mset out) (mset (map (hit s (hn_metric x) q) ids))"
    using hnsw_search_reach [OF wf _ q a nan _ _ ef] x by (auto simp: hnsw_coupled_def)
  have "set ids = {i. is_live s i \<and> admits (sp_allowed params) i}"
    using r(1,4) con live_base [OF x] by (auto simp: base_nodes_def)
  with r show ?thesis
    by blast
qed

section \<open>Properties\<close>

text \<open>C14: When the approximate index is exact. If the base layer of the graph is connected and the search is at least as
  broad as the graph (\<^verbatim>\<open>max(ef, k)\<close> nodes), the HNSW index answers every query with the distances the exhaustive scan of
  the flat index answers with, in the same order, filtered or not.\<close>

theorem hnsw_equals_flat:
  assumes "hnsw_coupled s x" and "flat_coupled s y" and "flat_metric y = hn_metric x" and "store_wf s"
    and "length q = unat (vs_dim s)" and "allowed_wf (sp_allowed params)" and "nan_free s (hn_metric x) q"
    and "node_count x \<le> max (sp_ef params) k"
    and "\<forall>i \<in> base_nodes (hn_nodes x). \<forall>j \<in> base_nodes (hn_nodes x). reaches (hn_nodes x) 0 i j"
  shows "\<exists>out out'. hnsw_search s x q k params = Inr out \<and> flat_search s y q k params = Inr out'
    \<and> map (\<lambda>h. f32_key (sr_score h)) out = map (\<lambda>h. f32_key (sr_score h)) out'"
proof -
  let ?S = "\<lambda>ids. mset (map (hit s (hn_metric x) q) ids)"
  obtain out ids where h: "hnsw_search s x q k params = Inr out" "distinct ids" "set ids = {i. is_live s i \<and> admits (sp_allowed params) i}"
    "sorted_wrt (\<lambda>g h. hit_key g \<le> hit_key h) out" "k_smallest hit_key k (mset out) (?S ids)"
    using hnsw_exact [OF assms(1,4-9)] by blast
  obtain out' ids' where f: "flat_search s y q k params = Inr out'" "sound_hits s (hn_metric x) q k (sp_allowed params) out'" "distinct ids'"
    "set ids' = {i. is_live s i \<and> admits (sp_allowed params) i}" "k_smallest hit_key k (mset out') (?S ids')"
    using flat_exact [OF assms(2,4-6), of k] assms(7) unfolding assms(3) by blast
  have "mset ids = mset ids'"
    using set_eq_iff_mset_eq_distinct [OF h(2) f(3)] h(3) f(4) by simp
  then have "?S ids = ?S ids'"
    by simp
  then have "map hit_key out = map hit_key out'"
    using smallest_keys [OF h(5,4)] smallest_keys [OF f(5)] f(2) by (simp add: sound_hits_def)
  with h(1) f(1) show ?thesis
    by (auto simp: hit_key_def [abs_def])
qed

lemma demo_base: "base_nodes (hn_nodes demo_index) = {0}"
  by (simp add: demo_index_def base_nodes_def demo_layer)

theorem hnsw_equals_flat_witness:
  "\<exists>out out'. hnsw_search demo_one demo_index [f32_zero] 1 default_params = Inr out
     \<and> flat_search demo_one \<lparr>flat_metric = L2, flat_ids = [0]\<rparr> [f32_zero] 1 default_params = Inr out'
     \<and> map (\<lambda>h. f32_key (sr_score h)) out = map (\<lambda>h. f32_key (sr_score h)) out'"
proof -
  have live: "live_set demo_one = {0}"
    by (auto simp: live_set_def is_live_def demo_one_def)
  have "1 \<le> slot_count demo_one" "vs_dim demo_one = 1" "sp_allowed default_params = None" "hn_metric demo_index = L2"
    "node_count demo_index \<le> max (sp_ef default_params) 1"
    by (simp_all add: demo_one_def slot_count_def default_params_def demo_index_def make_hnsw_index_def node_count_def)
  moreover have "hnsw_coupled demo_one demo_index"
    using demo_index_wf [OF calculation(1)] by (simp add: hnsw_coupled_def live demo_index_def)
  moreover have "flat_coupled demo_one \<lparr>flat_metric = L2, flat_ids = [0]\<rparr>"
    by (simp add: flat_coupled_def live)
  ultimately show ?thesis
    using demo_one_nan_free demo_one_wf
    by (intro hnsw_equals_flat) (simp_all add: allowed_wf_def demo_base)
qed

text \<open>C23: Insertion keeps the base layer connected: every node can be reached from every other, whatever the levels drawn. This holds
  as long as the store has at most one slot more than a list of the base layer may hold, so that nothing is pruned there,
  the search during construction is at least that broad, and a live node is left to link the new one to.\<close>

theorem hnsw_add_connected:
  assumes "store_wf s" and "hnsw_wf s x" and "unat i < slot_count s" and "roomy (hn_params x) (slot_count s)"
    and "base_linked (hn_nodes x)" and "base_nodes (hn_nodes x) = {} \<or> (\<exists>j \<in> base_nodes (hn_nodes x). is_live s j)"
  shows "\<exists>x'. hnsw_add s i x = Inr x' \<and> i \<in> base_nodes (hn_nodes x') \<and> base_linked (hn_nodes x')"
proof -
  obtain x' where x': "hnsw_add s i x = Inr x'" "hnsw_wf s x'" "unat i < length (hn_built x')" "hn_built x' ! unat i \<noteq> 0"
    using hnsw_add_ok [OF assms(1-3)] by blast
  have "list_all2 (level_ok (hn_max_level x')) (hn_built x') (shape (hn_nodes x'))"
    using x'(2) by (simp add: hnsw_wf_def levels_ok_def)
  then have "i \<in> base_nodes (hn_nodes x')"
    using list_all2_nthD [of "level_ok (hn_max_level x')" "hn_built x'" "shape (hn_nodes x')" "unat i"] x'(3,4)
    by (auto simp: base_nodes_def has_layer_def level_ok_def dest: list_all2_lengthD)
  with hnsw_add_linked [OF assms(1-3,5,4,6) x'(1)] x'(1) show ?thesis
    by blast
qed

theorem hnsw_add_connected_witness:
  "\<exists>x'. hnsw_add demo_pair 1 demo_index = Inr x' \<and> {0, 1} \<subseteq> base_nodes (hn_nodes x') \<and> base_linked (hn_nodes x')"
proof -
  have m: "1 \<le> slot_count demo_pair" "unat (1 :: internal_id) < slot_count demo_pair"
    and room: "roomy (hn_params demo_index) (slot_count demo_pair)" and live: "is_live demo_pair 0"
    by (simp_all add: demo_pair_def demo_two_def slot_count_def demo_params_def roomy_def demo_index_def make_hnsw_index_def
        max_links_def to_size_def is_live_def)
  have "links_at (hn_nodes demo_index) 0 0 = []"
    by (simp add: demo_index_def links_at_def)
  then have "base_linked (hn_nodes demo_index)" "\<exists>j \<in> base_nodes (hn_nodes demo_index). is_live demo_pair j"
    using live by (auto simp: base_linked_def demo_base)
  from hnsw_add_connected [OF demo_pair_wf demo_index_wf [OF m(1)] m(2) room this(1)] this(2) obtain x'
    where x': "hnsw_add demo_pair 1 demo_index = Inr x'" "base_linked (hn_nodes x')"
    by blast
  moreover have "hn_nodes x' = [\<lparr>nd_level = 0, nd_links = [[1]]\<rparr>, \<lparr>nd_level = 0, nd_links = [[0]]\<rparr>]"
    using hnsw_add_std [OF demo_pair_links] x'(1) by simp
  ultimately show ?thesis
    by (auto simp: base_nodes_def has_layer_def)
qed

end
