(* ===== verification/Graph_Runs.thy ===== *)
theory Graph_Runs
  imports Engine_Answers Hnsw_Connected
begin

text \<open>
  Exact answers from engines with the approximate index. A run without deletions keeps every slot of the store live, so
  every node of the graph can be found by the next insertion. While the collection is no larger than a base list
  of the graph allows, the base layer stays connected, through updates, snapshots, compactions and restarts, and
  a search as broad as the collection answers exactly.
\<close>

section \<open>Stores without deletions\<close>

definition all_live :: "vector_store \<Rightarrow> bool" where
  "all_live s \<longleftrightarrow> 0 \<notin> set (live s)"

lemma all_live_slot: "store_wf s \<Longrightarrow> all_live s \<Longrightarrow> unat i < slot_count s \<Longrightarrow> is_live s i"
  by (auto simp: all_live_def is_live_def slot_count_def store_wfD(4) in_set_conv_nth)

lemma vs_apply_grows:
  assumes "vs_apply p s = Inr (r, s')"
  shows "vs_dim s' = vs_dim s" "slot_count s \<le> slot_count s'" "slot_count s' \<le> Suc (slot_count s)"
  using assms
  by (cases "op_type p"; auto simp: vs_apply_def do_insert_def do_update_def do_erase_def slot_count_def res_simps Let_def
      split: option.splits if_splits)+

lemma vs_apply_all_live:
  assumes "vs_apply p s = Inr (r, s')" and "op_type p \<noteq> Delete" and "all_live s"
  shows "all_live s'"
  using assms
  by (cases "op_type p") (auto simp: vs_apply_def do_insert_def do_update_def all_live_def res_simps Let_def
      split: option.splits if_splits dest: nth_mem)

lemma apply_mem_store: "apply_mem p (s, x) = Inr (i, s', x') \<Longrightarrow> \<exists>r. vs_apply p s = Inr (r, s')"
  by (cases "op_type p") (auto simp: apply_mem_def res_simps split: option.splits if_splits)

text \<open>What an operation does to the graph: nothing, or it inserts the node of a new entry.\<close>

lemma apply_mem_graph:
  assumes "apply_mem p (s, Hnsw h) = Inr (i, s', x')"
  shows "\<exists>h'. x' = Hnsw h' \<and> (h' = h \<or> op_type p = Insert \<and> hnsw_add s' i h = Inr h')"
  using assms by (cases "op_type p") (auto simp: apply_mem_def hnsw_remove_def res_simps split: option.splits if_splits)

text \<open>Without deletions the slots are the entries.\<close>

lemma all_live_count:
  assumes "store_wf s" and "all_live s"
  shows "slot_count s = card (dom (store_abs s))"
proof -
  have "matching s None = dom (store_abs s)"
    by (auto simp: matching_def filter_ok_def)
  moreover have "card (matching s None) = length (map of_nat [0..<slot_count s] :: internal_id list)"
  proof (rule matching_ids [OF assms(1)])
    have bound: "slot_count s < 2 ^ 32"
      using store_wfD(2) [OF assms(1)] by (simp add: slot_count_def)
    show "distinct (map of_nat [0..<slot_count s] :: internal_id list)"
      using bound by (auto simp: distinct_map of_nat_u32_eq_iff intro!: inj_onI)
    have "i \<in> set (map of_nat [0..<slot_count s]) \<longleftrightarrow> unat i < slot_count s" for i :: internal_id
    proof
      assume "unat i < slot_count s"
      then have "i = of_nat (unat i) \<and> unat i \<in> set [0..<slot_count s]"
        by simp
      then show "i \<in> set (map of_nat [0..<slot_count s])"
        by (metis image_eqI set_map)
    qed (use bound in auto)
    then show "set (map of_nat [0..<slot_count s]) = {i. is_live s i \<and> filter_ok None (metas s ! unat i)}"
      using all_live_slot [OF assms] is_live_slot [OF assms(1)] by (auto simp: filter_ok_def)
  qed
  ultimately show ?thesis
    by simp
qed

section \<open>What a run without deletions keeps\<close>

definition graph_op :: "engine_config \<Rightarrow> op \<Rightarrow> bool" where
  "graph_op cfg p \<longleftrightarrow> op_type p \<noteq> Delete \<and> op_ok (cfg_dim cfg) p"

text \<open>While the store is small enough, store and graph are in good order and the base layer is connected.\<close>

definition graph_config :: "engine_config \<Rightarrow> nat \<Rightarrow> bool" where
  "graph_config cfg n \<longleftrightarrow> cfg_dim cfg \<noteq> 0 \<and> cfg_index cfg = Hnsw_kind \<and> params_ok (cfg_hnsw cfg) \<and> roomy (cfg_hnsw cfg) n"

definition graph_ready :: "engine_config \<Rightarrow> vector_store \<times> index \<Rightarrow> bool" where
  "graph_ready cfg = (\<lambda>(s, x). store_wf s \<and> coupled s x \<and> (\<exists>h. x = Hnsw h \<and> hn_params h = cfg_hnsw cfg \<and> base_linked (hn_nodes h)))"

definition graph_memory :: "engine_config \<Rightarrow> vector_store \<times> index \<Rightarrow> bool" where
  "graph_memory cfg = (\<lambda>(s, x). vs_dim s = cfg_dim cfg \<and> all_live s \<and> (graph_config cfg (slot_count s) \<longrightarrow> graph_ready cfg (s, x)))"

lemma graph_config_mono: "graph_config cfg n \<Longrightarrow> k \<le> n \<Longrightarrow> graph_config cfg k"
  by (auto simp: graph_config_def roomy_def)

lemma graph_config_bound: "graph_config cfg n \<Longrightarrow> n < 2 ^ 32 - 1"
  by (auto simp: graph_config_def roomy_def params_ok_def max_links_def to_size_def)

lemma graph_step:
  assumes ready: "graph_ready cfg (s, x)" and dim: "vs_dim s = cfg_dim cfg" and lv: "all_live s'" and p: "graph_op cfg p"
    and ap: "apply_mem p (s, x) = Inr (i, s', x')" and cfg: "graph_config cfg (slot_count s')"
  shows "graph_ready cfg (s', x')"
proof -
  obtain h where h: "x = Hnsw h" "hn_params h = cfg_hnsw cfg" "base_linked (hn_nodes h)" and wf: "store_wf s" "coupled s x"
    using ready by (auto simp: graph_ready_def)
  obtain r where "vs_apply p s = Inr (r, s')"
    using apply_mem_store [OF ap] by blast
  note grows = vs_apply_grows [OF this]
  have room: "has_room s"
    using graph_config_bound [OF cfg] grows(2) by (simp add: has_room_def slot_count_def)
  then have wf': "store_wf s'" "coupled s' x'" "op_type p = Insert \<Longrightarrow> resolve s' (op_ext_id p) = Inr (Some i)"
    using apply_mem_ok [OF wf, of p] ap p by (auto simp: graph_op_def dim)
  obtain h' where h': "x' = Hnsw h'" "h' = h \<or> op_type p = Insert \<and> hnsw_add s' i h = Inr h'"
    using apply_mem_graph ap h(1) by blast
  show ?thesis
  proof (cases "h' = h")
    case True
    with h h'(1) wf' show ?thesis
      by (auto simp: graph_ready_def)
  next
    case False
    then have add: "op_type p = Insert" "hnsw_add s' i h = Inr h'"
      using h'(2) by auto
    have x: "hnsw_wf s' h"
      using hnsw_wf_slots [OF _ grows(2)] wf(2) h(1) by (simp add: hnsw_coupled_def)
    have slot: "unat i < slot_count s'"
      using wf'(3) [OF add(1)] ext_to_int_bound [OF wf'(1)] resolve_total [OF wf'(1)]
      by (auto simp: slot_count_def split: option.splits if_splits)
    have "\<forall>j \<in> base_nodes (hn_nodes h). is_live s' j"
      using all_live_slot [OF wf'(1) lv] x by (auto simp: base_nodes_def has_layer_def hnsw_wf_def)
    then have "base_linked (hn_nodes h')"
      using hnsw_add_linked [OF wf'(1) x slot h(3) _ _ add(2)] cfg h(2) by (auto simp: graph_config_def)
    moreover have "hn_params h' = cfg_hnsw cfg"
      using hnsw_add_ok [OF wf'(1) x slot] add(2) h(2) by auto
    ultimately show ?thesis
      using wf' h'(1) by (simp add: graph_ready_def)
  qed
qed

interpretation graph_run: kept_memory cfg "graph_op cfg" "graph_memory cfg" for cfg
proof
  have "graph_ready cfg (vs_empty (cfg_dim cfg), make_index cfg)" if "graph_config cfg n" for n
    using that fresh_memory [of cfg]
    by (auto simp: graph_config_def graph_ready_def hnsw_config_ok_def mem_wf_def make_index_def make_hnsw_index_def base_linked_def
        base_nodes_def has_layer_def)
  then show "graph_memory cfg (vs_empty (cfg_dim cfg), make_index cfg)"
    by (auto simp: graph_memory_def all_live_def)
next
  fix m p i m'
  assume m: "graph_memory cfg m" and p: "graph_op cfg p" and ap: "apply_mem p m = Inr (i, m')"
  obtain s x s' x' where eq: "m = (s, x)" "m' = (s', x')"
    by (cases m; cases m')
  obtain r where r: "vs_apply p s = Inr (r, s')"
    using apply_mem_store [of p s x i s' x'] ap eq by blast
  have "vs_dim s' = cfg_dim cfg" "all_live s'"
    using m p vs_apply_grows(1) [OF r] vs_apply_all_live [OF r] by (auto simp: eq graph_memory_def graph_op_def)
  moreover have "graph_ready cfg (s', x')" if cfg: "graph_config cfg (slot_count s')"
    by (rule graph_step [OF _ _ calculation(2) p ap [unfolded eq] cfg])
      (use m graph_config_mono [OF cfg vs_apply_grows(2) [OF r]] in \<open>auto simp: eq graph_memory_def\<close>)
  ultimately show "graph_memory cfg m'"
    by (simp add: eq graph_memory_def)
next
  fix s x p
  assume "store_wf s" "graph_memory cfg (s, x)" "p \<in> set (snap_ops s)"
  then show "graph_op cfg p"
    using dumped_op_ok [of s p] by (auto simp: graph_memory_def graph_op_def snap_ops_def entry_op_def)
qed

text \<open>The requests of a run bring vectors of the configured dimension.\<close>

lemma run_requests_ok:
  assumes "reachable cfg qs e" and "cfg_persistence cfg = Some pc" and "hnsw_config_ok cfg" and "length qs \<le> 2 ^ 32 - 1" and "r \<in> set qs"
  shows "request_keeps (op_ok (cfg_dim cfg)) r"
  using assms
proof (induction rule: reachable.induct)
  case (step qs e q e')
  then have "eng_cfg e = cfg"
    using any_run.reachable_inv [OF step.hyps(1) step.prems(2,1)] by (simp add: run_inv_def request_keeps_def)
  with step show ?case
    by (cases q) (auto simp: request_keeps_def op_ok_def)
qed simp

lemma graph_run_state:
  assumes "reachable cfg qs e" and "cfg_persistence cfg = Some pc" and "hnsw_config_ok cfg" and "length qs \<le> 2 ^ 32 - 1"
    and "\<forall>k. Drop k \<notin> set qs"
  shows "graph_memory cfg (eng_store e, eng_index e)"
proof -
  have "request_keeps (graph_op cfg) r" if "r \<in> set qs" for r
    using run_requests_ok [OF assms(1-4) that] assms(5) that
    by (cases r) (auto simp: request_keeps_def graph_op_def entry_op_def change_op_def)
  then show ?thesis
    using graph_run.reachable_inv [OF assms(1,3,2,4)] by (simp add: run_inv_def)
qed

section \<open>Properties\<close>

text \<open>C13: Exact answers from the approximate index. In every run of insertions, updates, flushes, snapshots, compactions and restarts, and
  no deletion, an engine with the HNSW index answers exactly as long as the collection has at most one entry more than a
  base list of the graph may hold (33 by default) and the search is as broad as the collection: with \<open>min k n\<close> of the \<open>n\<close> entries the
  filter admits, and every admitted entry left out is at least as far from the query as every hit.\<close>

theorem small_graph_exact:
  assumes "reachable cfg qs e" and "cfg_persistence cfg = Some pc" and "length qs \<le> 2 ^ 32 - 1"
    and "\<forall>r \<in> set qs. moderate_request r" and "moderate q" and "length q = unat (cfg_dim cfg)" and "\<forall>k. Drop k \<notin> set qs"
    and "cfg_index cfg = Hnsw_kind" and "params_ok (cfg_hnsw cfg)"
  fixes k ef :: nat
  defines "A \<equiv> fold spec_perform qs Map.empty"
  assumes "roomy (cfg_hnsw cfg) (card (dom A))" and "card (dom A) \<le> max (if 0 < ef then ef else 64) k"
  shows "\<exists>out. engine_search q k f ef e = Inr out \<and> length out = min k (card {key. \<exists>v m. A key = Some (v, m) \<and> filter_ok f m})
    \<and> (\<forall>key v m. A key = Some (v, m) \<longrightarrow> filter_ok f m \<longrightarrow> (\<exists>h \<in> set out. external_id (eng_store e) (sr_id h) = Inr key)
         \<or> (\<forall>h \<in> set out. f32_key (sr_score h) \<le> f32_key (metric_value (cfg_metric cfg) q v)))"
proof -
  let ?s = "eng_store e"
  have cfg: "hnsw_config_ok cfg"
    using assms(9) by (simp add: hnsw_config_ok_def)
  note W = run_memory [OF assms(1,2) cfg assms(3,4), folded A_def]
  note D = engine_wfD [OF W(1)]
  have nan: "nan_free ?s (cfg_metric cfg) q"
    by (rule moderate_nan_free [OF D(1) W(4) assms(5)]) (use D(4) W(2) assms(6) in simp)
  note G = graph_run_state [OF assms(1,2) cfg assms(3,7)]
  have n: "slot_count ?s = card (dom A)"
    using all_live_count [OF D(1)] G W(3) by (simp add: graph_memory_def)
  have "graph_config cfg (slot_count ?s)"
    using assms(8,9,11) store_wfD(1) [OF D(1)] D(4) W(2) by (simp add: graph_config_def n)
  then obtain h where h: "eng_index e = Hnsw h" "base_linked (hn_nodes h)"
    using G by (auto simp: graph_memory_def graph_ready_def)
  have "\<exists>out ids. index_search ?s (eng_index e) q k (query_params ef a) = Inr out \<and> distinct ids
      \<and> set ids = {i. is_live ?s i \<and> admits a i} \<and> k_smallest hit_key k (mset out) (mset (map (hit ?s (cfg_metric (eng_cfg e)) q) ids))"
    if a: "allowed_wf a" for a
  proof -
    have "hnsw_coupled ?s h" "hn_metric h = cfg_metric cfg"
      using D(2,3) h(1) W(2) by simp_all
    moreover from this(1) have "node_count h \<le> max (sp_ef (query_params ef a)) k"
      using assms(12) n by (auto simp: node_count_def hnsw_coupled_def hnsw_wf_def query_params_def default_params_def)
    ultimately show ?thesis
      using hnsw_exact [of ?s h q "query_params ef a" k] D(1,4) a nan assms(6) h W(2) by (auto simp: base_linked_def)
  qed
  from exact_index_engine [OF W(1) _ this, of f] assms(6) W(2,3) show ?thesis
    by (simp add: matching_def hit_key_def)
qed

definition graph_demo_config :: engine_config where
  "graph_demo_config = durable_config\<lparr>cfg_index := Hnsw_kind\<rparr>"

theorem small_graph_exact_witness:
  "\<exists>e out. reachable graph_demo_config [Put ''a'' [f32_one] [], Snapshot] e
     \<and> engine_search [f32_zero] 3 None 0 e = Inr out \<and> length out = 1"
proof -
  have cfg: "cfg_dim graph_demo_config = 1" "cfg_persistence graph_demo_config = Some \<lparr>pc_dir = ''data'', pc_sync = Always\<rparr>"
    "cfg_index graph_demo_config = Hnsw_kind" "params_ok (cfg_hnsw graph_demo_config)" "roomy (cfg_hnsw graph_demo_config) 1"
    by (simp_all add: graph_demo_config_def durable_config_def demo_params_def params_ok_def roomy_def max_links_def to_size_def)
  obtain e where e: "reachable graph_demo_config [Put ''a'' [f32_one] [], Snapshot] e"
    using demo_run_any [OF cfg(1,2)] cfg(4) by (auto simp: hnsw_config_ok_def)
  have m: "moderate [f32_one]" "moderate [f32_zero]"
    by (simp_all add: moderate_def f32_one_def f32_zero_def unpack32_def)
  obtain out where "engine_search [f32_zero] 3 None 0 e = Inr out"
    "length out = min 3 (card {key. \<exists>v m. [''a'' \<mapsto> ([f32_one], [])] key = Some (v, m) \<and> filter_ok None m})"
    using small_graph_exact [OF e cfg(2) _ _ m(2) _ _ cfg(3,4), of 0 3 None] m(1) cfg(1,5) by auto
  moreover have "{key. \<exists>v m. [''a'' \<mapsto> ([f32_one], [])] key = Some (v, m) \<and> filter_ok None m} = {''a''}"
    by (auto simp: filter_ok_def split: if_splits)
  ultimately show ?thesis
    using e by auto
qed

end
