(* ===== verification/Engine_Failures.thy ===== *)
theory Engine_Failures
  imports Engine_Durability
begin

text \<open>
  Failing system calls under a durable engine. An operation whose record cannot be written is rejected before it touches
  the memory, and whoever opens the directory next finds the database with the operation or without it, nothing
  in between. A snapshot makes the directory good again whatever the log has come to hold.
\<close>

section \<open>An append that may fail\<close>

text \<open>After an append to a log of whole records, the file is a prefix of the longer log that holds the old one.\<close>

lemma append_prefix:
  assumes "ls_file w = frames rs" and "log_append r w = (w1, res)"
  shows "\<exists>n. ls_file w1 = take n (frames (rs @ [r])) \<and> length (frames rs) \<le> n
    \<and> (res = Inr () \<and> length (frames (rs @ [r])) \<le> n \<or> res = Inl System_error)"
proof -
  have fr: "frames (rs @ [r]) = frames rs @ frame r"
    by (simp add: frames_def)
  consider "res = Inr ()" "ls_file w1 = ls_file w @ frame r"
    | n where "res = Inl System_error" "ls_file w1 = ls_file w @ take n (frame r)"
    using log_append_outcomes [of r w] assms(2) by auto
  then show ?thesis
  proof cases
    case 1
    then show ?thesis
      using assms(1) by (intro exI [of _ "length (frames (rs @ [r]))"]) (simp add: fr)
  next
    case 2
    then show ?thesis
      using assms(1) by (intro exI [of _ "length (frames rs) + n"]) (simp add: fr)
  qed
qed

text \<open>A log cut inside its last record holds the others; a whole one holds all.\<close>

lemma last_frame:
  assumes "length (frames rs) \<le> n"
  shows "whole_frames n (rs @ [r]) \<in> {length rs, Suc (length rs)}"
    and "length (frames (rs @ [r])) \<le> n \<Longrightarrow> whole_frames n (rs @ [r]) = Suc (length rs)"
proof -
  have "whole_frames n (rs @ [r]) \<le> length (rs @ [r])"
    by (rule whole_frames_le)
  moreover have "length rs \<le> whole_frames n (rs @ [r])"
    using whole_frames_iff [of "length rs" "rs @ [r]" n] assms by simp
  ultimately show "whole_frames n (rs @ [r]) \<in> {length rs, Suc (length rs)}"
    by auto
  show "whole_frames n (rs @ [r]) = Suc (length rs)" if "length (frames (rs @ [r])) \<le> n"
    using whole_frames_complete [OF that] by simp
qed

section \<open>Properties\<close>

text \<open>C16: Operations are atomic whatever the system calls do. From a state in good order, an insertion, update or deletion under an
  arbitrary behaviour of the file system either succeeds, in memory and for every later process, or fails with
  \<open>system_error\<close> and leaves store and index as they were; then a new engine on the directory comes up with
  the database before the operation or after it.\<close>

theorem operation_atomic:
  assumes "engine_wf e" and "journal e sops wops" and "eng_wal e = Some w" and "eng_blobs e = Some b"
    and "cfg_persistence (eng_cfg e) = Some pc" and "hnsw_config_ok (eng_cfg e)" and "healthy env"
    and "length (sops @ wops) < 2 ^ 32 - 1"
    and "op_ok (cfg_dim (eng_cfg e)) p" and "op_loggable p" and "op_room p (eng_store e)"
    and "apply_op p True (e\<lparr>eng_wal := Some (w\<lparr>ls_env := failing\<rparr>)\<rparr>) = (e1, r)"
  shows "\<exists>w1 e2. eng_wal e1 = Some w1 \<and> engine_new (eng_cfg e) True b (ls_file w1) env = Inr e2 \<and> engine_wf e1 \<and> engine_wf e2
    \<and> ((\<exists>i. r = Inr i) \<and> store_abs (eng_store e1) = spec_apply p (store_abs (eng_store e))
          \<and> store_abs (eng_store e2) = spec_apply p (store_abs (eng_store e))
      \<or> r = Inl System_error \<and> eng_store e1 = eng_store e \<and> eng_index e1 = eng_index e
          \<and> store_abs (eng_store e2) \<in> {store_abs (eng_store e), spec_apply p (store_abs (eng_store e))})"
proof -
  let ?e = "e\<lparr>eng_wal := Some (w\<lparr>ls_env := failing\<rparr>)\<rparr>" and ?rs = "map encode_op wops" and ?A = "store_abs (eng_store e)"
  note D = engine_wfD [OF assms(1)] and h = journal_history [OF assms(2-4)]
  have A: "fold spec_apply (sops @ wops) Map.empty = ?A"
    using assms(2) by (simp add: journal_def)
  obtain w1 res where w1: "log_append (encode_op p) (w\<lparr>ls_env := failing\<rparr>) = (w1, res)"
    by (cases "log_append (encode_op p) (w\<lparr>ls_env := failing\<rparr>)")
  obtain n where n: "ls_file w1 = take n (frames (map encode_op (wops @ [p])))" "length (frames ?rs) \<le> n"
    "res = Inr () \<and> length (frames (map encode_op (wops @ [p]))) \<le> n \<or> res = Inl System_error"
    using append_prefix [OF _ w1, of ?rs] h(4) by auto
  have d: "cfg_dim (eng_cfg e) \<noteq> 0"
    using store_wfD(1) [OF D(1)] D(4) by simp
  have hist: "history_ok (cfg_dim (eng_cfg e)) (sops @ wops @ [p])" "length (sops @ wops @ [p]) \<le> 2 ^ 32 - 1"
    using h(3) assms(8,9,10) by (auto simp: history_ok_def)
  from engine_new_ok [OF d assms(6,5) h(1,2) assms(7) hist, of n] obtain e2
    where e2: "engine_new (eng_cfg e) True b (ls_file w1) env = Inr e2" "engine_wf e2"
      "store_abs (eng_store e2) = fold spec_apply (sops @ take (whole_frames n (map encode_op (wops @ [p]))) (wops @ [p])) Map.empty"
    unfolding n(1) by blast
  have e2_abs: "store_abs (eng_store e2) \<in> {?A, spec_apply p ?A}"
    "length (frames (map encode_op (wops @ [p]))) \<le> n \<Longrightarrow> store_abs (eng_store e2) = spec_apply p ?A"
    using last_frame [OF n(2), of "encode_op p"] e2(3) A by auto
  have log: "log_op p ?e = (e\<lparr>eng_wal := Some w1\<rparr>, res)"
    using w1 by (simp add: log_op_def)
  show ?thesis
  proof (cases "res = Inr ()")
    case True
    obtain i s' x' where m: "apply_mem p (eng_store e, eng_index e) = Inr (i, s', x')" "store_wf s'" "coupled s' x'"
      "vs_dim s' = vs_dim (eng_store e)" "store_abs s' = spec_apply p ?A" "index_metric x' = index_metric (eng_index e)"
      using apply_mem_ok [OF D(1,2), of p] assms(9,11) D(4) by (auto simp: op_room_def)
    have "e1 = e\<lparr>eng_wal := Some w1, eng_store := s', eng_index := x'\<rparr>" "r = Inr i"
      using assms(12) log True m(1) by (simp_all add: apply_op_def)
    with m D True n(3) e2 e2_abs(2) show ?thesis
      by (auto simp: engine_wf_def mem_wf_def)
  next
    case False
    then have "e1 = e\<lparr>eng_wal := Some w1\<rparr>" "r = Inl System_error"
      using assms(12) log n(3) by (auto simp: apply_op_def)
    with assms(1) e2 e2_abs(1) show ?thesis
      by (auto simp: engine_wf_def)
  qed
qed

definition failing_env :: environment where
  "failing_env = healthy_env\<lparr>env_writes := [Failed]\<rparr>"

theorem operation_atomic_witness:
  "\<exists>e1 w1 e2. apply_op (entry_op ''a'' [f32_one] []) True (durable_engine\<lparr>eng_wal := Some ((log_on [])\<lparr>ls_env := failing_env\<rparr>)\<rparr>)
      = (e1, Inl System_error)
    \<and> eng_wal e1 = Some w1 \<and> engine_new durable_config True no_blobs (ls_file w1) healthy_env = Inr e2 \<and> engine_wf e2"
proof -
  let ?p = "entry_op ''a'' [f32_one] []" and ?e = "durable_engine\<lparr>eng_wal := Some ((log_on [])\<lparr>ls_env := failing_env\<rparr>)\<rparr>"
  have "\<exists>w'. log_append (encode_op ?p) ((log_on [])\<lparr>ls_env := failing_env\<rparr>) = (w', Inl System_error)"
    by (cases "log_header (encode_op ?p)")
      (simp_all add: log_append_def log_on_def write_all_def failing_env_def log_header_def w_u32_def to_le_def upt_rec)
  then obtain e1 where e1: "apply_op ?p True ?e = (e1, Inl System_error)"
    by (auto simp: apply_op_def log_op_def)
  have "op_room ?p (vs_empty 1)"
    by (simp add: op_room_def has_room_def)
  with operation_atomic [OF durable_engine_wf durable_engine_journal, of "log_on []" no_blobs "\<lparr>pc_dir = ''data'', pc_sync = Always\<rparr>"
      healthy_env ?p failing_env e1 "Inl System_error"] demo_entry e1
  show ?thesis
    by auto
qed

text \<open>C17: A snapshot repairs the directory. Whatever bytes the log has come to hold, torn or rejected records included, a snapshot of an
  engine in good order succeeds, and afterwards snapshot and log hold exactly its database: every new engine on the
  directory comes up with it, and later operations are durable again.\<close>

theorem snapshot_repairs_log:
  assumes "engine_wf e" and "eng_wal e = Some w" and "healthy (ls_env w)" and "eng_blobs e = Some b" and "blob_good b"
    and "entries_ok (cfg_dim (eng_cfg e)) (store_abs (eng_store e))"
    and "cfg_persistence (eng_cfg e) = Some pc" and "hnsw_config_ok (eng_cfg e)" and "healthy env"
  shows "\<exists>e1 w1 b1 e2. engine_snapshot e = (e1, Inr ()) \<and> engine_wf e1 \<and> eng_store e1 = eng_store e \<and> eng_index e1 = eng_index e
    \<and> journal e1 (snap_ops (eng_store e)) [] \<and> eng_wal e1 = Some w1 \<and> eng_blobs e1 = Some b1
    \<and> engine_new (eng_cfg e) True b1 (ls_file w1) env = Inr e2 \<and> engine_wf e2 \<and> store_abs (eng_store e2) = store_abs (eng_store e)"
proof -
  note D = engine_wfD [OF assms(1)]
  obtain w1 b1 where s: "engine_snapshot e = (e\<lparr>eng_blobs := Some b1, eng_wal := Some w1\<rparr>, Inr ())"
    "journal (e\<lparr>eng_blobs := Some b1, eng_wal := Some w1\<rparr>) (snap_ops (eng_store e)) []"
    using snapshot_publishes [OF assms(1,2,4,3,5,6)] by blast
  let ?e1 = "e\<lparr>eng_blobs := Some b1, eng_wal := Some w1\<rparr>"
  have h: "blob_good b1" "holds_snapshot b1 (snap_ops (eng_store e))" "history_ok (cfg_dim (eng_cfg e)) (snap_ops (eng_store e) @ [])"
    "ls_file w1 = []"
    using journal_history [OF s(2), of w1 b1] by simp_all
  have "length (snap_ops (eng_store e)) \<le> slot_count (eng_store e)"
    by (simp add: snap_ops_def live_ids_def) (metis length_filter_le length_upt minus_nat.diff_0)
  then have len: "length (snap_ops (eng_store e) @ []) \<le> 2 ^ 32 - 1"
    using store_wfD(2) [OF D(1)] by (simp add: slot_count_def)
  have "cfg_dim (eng_cfg e) \<noteq> 0"
    using store_wfD(1) [OF D(1)] D(4) by simp
  from engine_new_ok [OF this assms(8,7) h(1,2) assms(9) h(3) len, of 0] obtain e2
    where "engine_new (eng_cfg e) True b1 [] env = Inr e2" "engine_wf e2"
      "store_abs (eng_store e2) = fold spec_apply (snap_ops (eng_store e)) Map.empty"
    by auto
  with s h(4) assms(1) snap_ops_abs [OF D(1)] show ?thesis
    by (intro exI [of _ ?e1] exI [of _ w1] exI [of _ b1] exI [of _ e2]) (simp add: engine_wf_def)
qed

theorem snapshot_repairs_log_witness:
  "\<exists>e1 w1 b1 e2. engine_snapshot (durable_engine\<lparr>eng_wal := Some (log_on [190, 7])\<rparr>) = (e1, Inr ()) \<and> eng_wal e1 = Some w1 \<and> eng_blobs e1 = Some b1
    \<and> engine_new durable_config True b1 (ls_file w1) healthy_env = Inr e2 \<and> store_abs (eng_store e2) = Map.empty"
proof -
  let ?e = "durable_engine\<lparr>eng_wal := Some (log_on [190, 7])\<rparr>"
  have "engine_wf ?e" "healthy (ls_env (log_on [190, 7]))" "blob_good no_blobs" "entries_ok 1 (store_abs (vs_empty 1))"
    using durable_engine_wf by (simp_all add: engine_wf_def log_on_def blob_good_def no_blobs_def entries_ok_def vs_empty_wf(2))
  then show ?thesis
    using snapshot_repairs_log [of ?e "log_on [190, 7]" no_blobs "\<lparr>pc_dir = ''data'', pc_sync = Always\<rparr>" healthy_env]
    by (fastforce simp: vs_empty_wf(2))
qed

end
