(* ===== verification/Rag_Text.thy ===== *)
theory Rag_Text
  imports Distance
begin

text \<open>
  The text half of \<^verbatim>\<open>include/toyvdb/rag.hpp\<close> and \<^verbatim>\<open>src/rag.cpp\<close>: the tokenizer, the sliding-window
  chunker, the hashing embedding model and the prompt builder. Character classification is that of the C
  locale, which the program never changes; \<^verbatim>\<open>std::size_t\<close> counters of tokens are natural numbers.
\<close>

section \<open>Tokens\<close>

definition is_space :: "char \<Rightarrow> bool" where
  "is_space c \<longleftrightarrow> of_char c = (32 :: nat) \<or> (9 \<le> (of_char c :: nat) \<and> of_char c \<le> (13 :: nat))"

definition to_lower :: "char \<Rightarrow> char" where
  "to_lower c = (if 65 \<le> (of_char c :: nat) \<and> of_char c \<le> (90 :: nat) then char_of (of_char c + 32 :: nat) else c)"

text \<open>One iteration of the loop of \<^verbatim>\<open>tokenize\<close> over the tokens so far and the current one.\<close>

definition token_step :: "char \<Rightarrow> string list \<times> string \<Rightarrow> string list \<times> string" where
  "token_step ch = (\<lambda>(tokens, cur).
     if is_space ch then (if cur \<noteq> [] then (tokens @ [cur], []) else (tokens, cur))
     else (tokens, cur @ [to_lower ch]))"

definition tokenize :: "string \<Rightarrow> string list" where
  "tokenize text =
     (case fold token_step text ([], []) of
        (tokens, cur) \<Rightarrow> if cur \<noteq> [] then tokens @ [cur] else tokens)"

definition approx_tokens :: "string \<Rightarrow> nat" where
  "approx_tokens text = length (tokenize text)"

section \<open>Chunks\<close>

record chunk =
  ck_text :: string
  ck_start :: nat
  ck_end :: nat

record chunk_config =
  cc_window :: nat
  cc_overlap :: nat

definition chunk_window :: "chunk_config \<Rightarrow> nat" where
  "chunk_window cfg = (if cc_window cfg = 0 then 1 else cc_window cfg)"

definition chunk_overlap :: "chunk_config \<Rightarrow> nat" where
  "chunk_overlap cfg =
     (if cc_overlap cfg \<ge> chunk_window cfg then chunk_window cfg - 1 else cc_overlap cfg)"

definition chunk_step :: "chunk_config \<Rightarrow> nat" where
  "chunk_step cfg = chunk_window cfg - chunk_overlap cfg"

lemma chunk_step_pos: "0 < chunk_step cfg"
  by (auto simp: chunk_step_def chunk_overlap_def chunk_window_def)

text \<open>The inner loop: the tokens of a range with a blank before each but the first.\<close>

definition join_range :: "string list \<Rightarrow> nat \<Rightarrow> nat \<Rightarrow> string" where
  "join_range tokens start fin =
     fold (\<lambda>i joined. (if i > start then joined @ '' '' else joined) @ tokens ! i) [start..<fin] []"

function chunk_loop :: "chunk_config \<Rightarrow> string list \<Rightarrow> nat \<Rightarrow> chunk list \<Rightarrow> chunk list" where
  "chunk_loop cfg tokens start chunks =
     (if start < length tokens
      then let fin = min (start + chunk_window cfg) (length tokens);
               chunks = chunks @ [\<lparr>ck_text = join_range tokens start fin, ck_start = start, ck_end = fin\<rparr>]
           in if fin = length tokens then chunks
              else chunk_loop cfg tokens (start + chunk_step cfg) chunks
      else chunks)"
  by pat_completeness auto
termination
  by (relation "measure (\<lambda>(_, tokens, start, _). length tokens - start)") (use chunk_step_pos in \<open>auto intro: diff_less_mono2\<close>)

declare chunk_loop.simps [simp del]

definition chunk_text :: "string \<Rightarrow> chunk_config \<Rightarrow> chunk list" where
  "chunk_text text cfg = (let tokens = tokenize text in if tokens = [] then [] else chunk_loop cfg tokens 0 [])"

section \<open>Hashing embeddings\<close>

definition fnv_step :: "char \<Rightarrow> u64 \<Rightarrow> u64" where
  "fnv_step c h = (Bit_Operations.xor h (of_nat (of_char c))) * 1099511628211"

definition fnv1a :: "string \<Rightarrow> u64" where
  "fnv1a s = fold fnv_step s 1469598103934665603"

definition embed_token :: "dim \<Rightarrow> string \<Rightarrow> fvec \<Rightarrow> fvec res" where
  "embed_token d tok v =
     (if length tok < 3 then Inr v
      else if d = 0 then Inl Undefined_behaviour
      else let h = fnv1a tok; idx = unat h mod unat d;
               sign = (if bit h 63 then f32_one else f32_minus_one)
           in rbind (vget v idx) (\<lambda>x. vset v idx (f32_add x sign)))"

definition f64_zero :: f64 where "f64_zero = 0"

definition embed_norm :: "fvec \<Rightarrow> f64" where
  "embed_norm v = fold (\<lambda>x acc. f64_add acc (f64_mul (f64_of_f32 x) (f64_of_f32 x))) v f64_zero"

definition normalise :: "fvec \<Rightarrow> fvec" where
  "normalise v =
     (let norm_sq = embed_norm v
      in if f64_lt f64_zero norm_sq
         then let inv = f32_of_f64 (f64_div f64_one (f64_sqrt norm_sq)) in map (\<lambda>x. f32_mul x inv) v
         else v)"

definition mock_embed :: "dim \<Rightarrow> string \<Rightarrow> fvec res" where
  "mock_embed d text =
     rbind (rfold (embed_token d) (tokenize text) (replicate (unat d) f32_zero)) (\<lambda>v. Inr (normalise v))"

section \<open>Prompts\<close>

record retrieved_chunk =
  rc_doc_id :: string
  rc_text :: string
  rc_score :: score

definition kScaffoldTokens :: nat where "kScaffoldTokens = 24"

definition newline :: string where "newline = [CHR 0x0A]"

text \<open>The loop that adds chunks while they fit; it stops at the first one that does not.\<close>

fun add_context :: "nat \<Rightarrow> retrieved_chunk list \<Rightarrow> string \<Rightarrow> nat \<Rightarrow> string" where
  "add_context available [] context used = context"
| "add_context available (c # cs) context used =
     (let cost = approx_tokens (rc_text c)
      in if used + cost > available then context
         else add_context available cs (context @ ''- '' @ rc_text c @ newline) (used + cost))"

definition prompt_available :: "nat \<Rightarrow> string \<Rightarrow> nat" where
  "prompt_available budget query =
     (let reserved = approx_tokens query + kScaffoldTokens
      in if budget > reserved then budget - reserved else 0)"

definition build_prompt_text :: "nat \<Rightarrow> string \<Rightarrow> retrieved_chunk list \<Rightarrow> string" where
  "build_prompt_text budget query chunks =
     ''You are a helpful assistant. Answer using only the context below.'' @ newline @ newline @
     ''Context:'' @ newline @ add_context (prompt_available budget query) chunks [] 0 @
     newline @ ''Question: '' @ query @ newline @ ''Answer:''"

section \<open>The tokenizer as a recursion\<close>

fun scan :: "string \<Rightarrow> string \<Rightarrow> string list" where
  "scan [] cur = (if cur \<noteq> [] then [cur] else [])"
| "scan (c # s) cur =
     (if is_space c then (if cur \<noteq> [] then [cur] else []) @ scan s [] else scan s (cur @ [to_lower c]))"

lemma fold_token_step:
  "(case fold token_step s (ts, cur) of (tokens, c) \<Rightarrow> if c \<noteq> [] then tokens @ [c] else tokens) = ts @ scan s cur"
  by (induction s arbitrary: ts cur) (simp_all add: token_step_def)

lemma tokenize_scan: "tokenize s = scan s []"
  using fold_token_step [of s "[]" "[]"] by (simp add: tokenize_def)

lemma tokenize_Nil [simp]: "tokenize [] = []"
  by (simp add: tokenize_scan)

lemma scan_space: "is_space c \<Longrightarrow> scan (a @ c # b) cur = scan a cur @ scan b []"
  by (induction a arbitrary: cur) simp_all

lemma tokenize_space: "is_space c \<Longrightarrow> tokenize (a @ c # b) = tokenize a @ tokenize b"
  by (simp add: tokenize_scan scan_space)

text \<open>A token: not empty, free of blanks, in lower case.\<close>

definition token_ok :: "string \<Rightarrow> bool" where
  "token_ok t \<longleftrightarrow> t \<noteq> [] \<and> (\<forall>c \<in> set t. \<not> is_space c \<and> to_lower c = c)"

lemma to_lower_char:
  assumes "\<not> is_space c"
  shows "\<not> is_space (to_lower c) \<and> to_lower (to_lower c) = to_lower c"
proof (cases "65 \<le> (of_char c :: nat) \<and> of_char c \<le> (90 :: nat)")
  case True
  then have "(of_char (to_lower c) :: nat) = of_char c + 32"
    by (simp add: to_lower_def)
  with True show ?thesis
    by (simp add: is_space_def to_lower_def [of "to_lower c"])
qed (use assms in \<open>auto simp: to_lower_def\<close>)

lemma scan_tokens:
  assumes "\<forall>c \<in> set cur. \<not> is_space c \<and> to_lower c = c"
  shows "\<forall>t \<in> set (scan s cur). token_ok t"
  using assms
proof (induction s arbitrary: cur)
  case (Cons c s)
  show ?case
  proof (cases "is_space c")
    case True
    have "\<forall>t \<in> set (if cur \<noteq> [] then [cur] else []). token_ok t"
      using Cons.prems by (simp add: token_ok_def)
    with True Cons.IH [of "[]"] show ?thesis
      by (simp add: ball_Un)
  next
    case False
    with Cons.IH [of "cur @ [to_lower c]"] Cons.prems to_lower_char [OF False] show ?thesis
      by (simp add: ball_Un)
  qed
qed (simp add: token_ok_def)

lemma tokens_ok: "\<forall>t \<in> set (tokenize s). token_ok t"
  using scan_tokens [of "[]" s] by (simp add: tokenize_scan)

lemma scan_word: "\<forall>c \<in> set t. \<not> is_space c \<and> to_lower c = c \<Longrightarrow> scan t cur = (if cur @ t \<noteq> [] then [cur @ t] else [])"
  by (induction t arbitrary: cur) auto

lemma tokenize_word: "token_ok t \<Longrightarrow> tokenize t = [t]"
  using scan_word [of t "[]"] by (simp add: token_ok_def tokenize_scan)

fun join_words :: "string list \<Rightarrow> string" where
  "join_words [] = []"
| "join_words [t] = t"
| "join_words (t # ts) = t @ '' '' @ join_words ts"

lemma is_space_blank [simp]: "is_space (CHR '' '')" "is_space (CHR 0x0A)"
  by (simp_all add: is_space_def)

lemma tokenize_join: "\<forall>t \<in> set ts. token_ok t \<Longrightarrow> tokenize (join_words ts) = ts"
proof (induction ts rule: join_words.induct)
  case (3 t u ts)
  then show ?case
    using tokenize_space [of "CHR '' ''" t "join_words (u # ts)"] by (simp add: tokenize_word)
qed (simp_all add: tokenize_word)

lemma join_words_snoc: "ts \<noteq> [] \<Longrightarrow> join_words (ts @ [t]) = join_words ts @ '' '' @ t"
  by (induction ts rule: join_words.induct) simp_all

lemma join_range_words:
  assumes "start \<le> fin" and "fin \<le> length tokens"
  shows "join_range tokens start fin = join_words (take (fin - start) (drop start tokens))"
  using assms
proof (induction rule: dec_induct)
  case (step n)
  have "take (Suc n - start) (drop start tokens) = take (n - start) (drop start tokens) @ [tokens ! n]"
    using step by (simp add: Suc_diff_le take_Suc_conv_app_nth)
  with step show ?case
    by (auto simp: join_range_def join_words_snoc)
qed (simp add: join_range_def)

section \<open>Chunking\<close>

definition chunk_at :: "chunk_config \<Rightarrow> string list \<Rightarrow> nat \<Rightarrow> chunk" where
  "chunk_at cfg tokens start =
     (let fin = min (start + chunk_window cfg) (length tokens)
      in \<lparr>ck_text = join_range tokens start fin, ck_start = start, ck_end = fin\<rparr>)"

lemma chunk_loop_acc: "chunk_loop cfg tokens start acc = acc @ chunk_loop cfg tokens start []"
proof (induction "length tokens - start" arbitrary: start acc rule: less_induct)
  case less
  have smaller: "length tokens - (start + chunk_step cfg) < length tokens - start" if "start < length tokens"
    using that chunk_step_pos [of cfg] by simp
  note IH = less.hyps [OF smaller]
  show ?case
    by (subst (1 2) chunk_loop.simps) (simp add: Let_def IH [where acc = "_ @ _"] IH [where acc = "[_]"])
qed

lemma chunk_loop_unfold:
  assumes "start < length tokens"
  shows "chunk_loop cfg tokens start [] =
    chunk_at cfg tokens start #
      (if start + chunk_window cfg < length tokens then chunk_loop cfg tokens (start + chunk_step cfg) [] else [])"
  using assms chunk_loop_acc [of cfg tokens "start + chunk_step cfg" "[chunk_at cfg tokens start]"]
  by (subst chunk_loop.simps) (auto simp: chunk_at_def Let_def min_def)

lemma step_overlap: "chunk_step cfg + chunk_overlap cfg = chunk_window cfg" "chunk_overlap cfg < chunk_window cfg" "0 < chunk_window cfg"
  by (auto simp: chunk_step_def chunk_overlap_def chunk_window_def)

lemma chunk_tokens:
  assumes "\<forall>t \<in> set tokens. token_ok t" and "start < length tokens"
  shows "tokenize (ck_text (chunk_at cfg tokens start)) = take (chunk_window cfg) (drop start tokens)"
proof -
  have "ck_text (chunk_at cfg tokens start) = join_words (take (chunk_window cfg) (drop start tokens))"
    using assms(2) by (simp add: chunk_at_def Let_def join_range_words min_def)
  moreover have "\<forall>t \<in> set (take (chunk_window cfg) (drop start tokens)). token_ok t"
    using assms(1) by (meson in_set_dropD in_set_takeD)
  ultimately show ?thesis
    by (simp add: tokenize_join)
qed

lemma chunk_loop_shape:
  assumes "start < length tokens"
  shows "let cs = chunk_loop cfg tokens start [] in
    (\<forall>i < length cs. cs ! i = chunk_at cfg tokens (start + i * chunk_step cfg) \<and> start + i * chunk_step cfg < length tokens
       \<and> (Suc i < length cs \<longleftrightarrow> start + i * chunk_step cfg + chunk_window cfg < length tokens))"
  using assms
proof (induction "length tokens - start" arbitrary: start rule: less_induct)
  case less
  show ?case
  proof (cases "start + chunk_window cfg < length tokens")
    case True
    then have next_start: "start + chunk_step cfg < length tokens"
      using step_overlap(1) [of cfg] by simp
    then have "length tokens - (start + chunk_step cfg) < length tokens - start"
      using chunk_step_pos [of cfg] by simp
    note IH = less.hyps [OF this next_start]
    have "chunk_loop cfg tokens (start + chunk_step cfg) [] \<noteq> []"
      using chunk_loop_unfold [OF next_start, of cfg] by simp
    with IH show ?thesis
      by (auto simp: chunk_loop_unfold [OF less.prems] True Let_def less_Suc_eq_0_disj add.assoc)
  qed (simp add: chunk_loop_unfold [OF less.prems] less.prems Let_def)
qed

lemma ceiling_step:
  assumes "0 < s" and "0 < (k :: nat)"
  shows "(k + (s - 1)) div s = Suc ((k - s + (s - 1)) div s)"
proof -
  have up: "(n + s) div s = Suc (n div s)" for n
    using div_add_self2 [of s n] assms(1) by (simp only: Suc_eq_plus1)
  show ?thesis
  proof (cases "s \<le> k")
    case True
    then have "k + (s - 1) = (k - s + (s - 1)) + s"
      by simp
    then show ?thesis
      by (simp only: up)
  next
    case False
    then have eq: "k + (s - 1) = (k - 1) + s" and "(k - 1) div s = 0" "(k - s + (s - 1)) div s = 0"
      using assms by simp_all
    then show ?thesis
      unfolding eq up by (simp only:)
  qed
qed

text \<open>The number of chunks depends on the number of tokens only.\<close>

lemma length_chunk_loop:
  assumes "start < length tokens"
  shows "length (chunk_loop cfg tokens start [])
    = Suc ((length tokens - start - chunk_window cfg + (chunk_step cfg - 1)) div chunk_step cfg)"
  using assms
proof (induction "length tokens - start" arbitrary: start rule: less_induct)
  case less
  note step = chunk_step_pos [of cfg] step_overlap(1) [of cfg]
  show ?case
  proof (cases "start + chunk_window cfg < length tokens")
    case True
    let ?m = "length tokens - (start + chunk_step cfg) - chunk_window cfg" and ?k = "length tokens - start - chunk_window cfg"
    have next_start: "start + chunk_step cfg < length tokens"
      using True step by simp
    have "length tokens - (start + chunk_step cfg) < length tokens - start"
      using next_start step by simp
    note IH = less.hyps [OF this next_start]
    have "?m = ?k - chunk_step cfg"
      by simp
    then have "(?k + (chunk_step cfg - 1)) div chunk_step cfg = Suc ((?m + (chunk_step cfg - 1)) div chunk_step cfg)"
      using ceiling_step [OF step(1), of ?k] True by simp
    then show ?thesis
      using IH True by (simp add: chunk_loop_unfold [OF less.prems])
  next
    case False
    then have "length tokens - start - chunk_window cfg = 0"
      by simp
    with False step(1) show ?thesis
      by (simp add: chunk_loop_unfold [OF less.prems])
  qed
qed

lemma length_chunk_text:
  "length (chunk_text text cfg) = (let n = length (tokenize text)
     in if n = 0 then 0 else Suc ((n - chunk_window cfg + (chunk_step cfg - 1)) div chunk_step cfg))"
  using length_chunk_loop [of 0 "tokenize text" cfg] by (auto simp: chunk_text_def Let_def)

lemma chunk_loop_lossless:
  assumes "\<forall>t \<in> set tokens. token_ok t" and "start < length tokens"
  shows "let cs = chunk_loop cfg tokens start [] in
    tokenize (ck_text (hd cs)) @ concat (map (\<lambda>c. drop (chunk_overlap cfg) (tokenize (ck_text c))) (tl cs)) = drop start tokens"
  using assms(2)
proof (induction "length tokens - start" arbitrary: start rule: less_induct)
  case less
  show ?case
  proof (cases "start + chunk_window cfg < length tokens")
    case True
    then have next_start: "start + chunk_step cfg < length tokens"
      using step_overlap(1) [of cfg] by simp
    then have "length tokens - (start + chunk_step cfg) < length tokens - start"
      using chunk_step_pos [of cfg] by simp
    note IH = less.hyps [OF this next_start]
    let ?rest = "chunk_loop cfg tokens (start + chunk_step cfg) []"
    let ?A = "tokenize (ck_text (hd ?rest))" and ?B = "concat (map (\<lambda>c. drop (chunk_overlap cfg) (tokenize (ck_text c))) (tl ?rest))"
    have hd: "hd ?rest = chunk_at cfg tokens (start + chunk_step cfg)" and ne: "?rest \<noteq> []"
      using chunk_loop_unfold [OF next_start, of cfg] by simp_all
    have "chunk_overlap cfg \<le> length ?A"
      using step_overlap [of cfg] True by (simp add: hd chunk_tokens [OF assms(1) next_start])
    then have "drop (chunk_overlap cfg) ?A @ ?B = drop (chunk_overlap cfg) (?A @ ?B)"
      by simp
    also have "\<dots> = drop (start + chunk_window cfg) tokens"
      using IH step_overlap(1) [of cfg] by (simp only: Let_def drop_drop) (simp add: add.commute add.left_commute)
    finally have "concat (map (\<lambda>c. drop (chunk_overlap cfg) (tokenize (ck_text c))) ?rest) = drop (start + chunk_window cfg) tokens"
      using ne by (cases ?rest) auto
    then show ?thesis
      using append_take_drop_id [of "chunk_window cfg" "drop start tokens"]
      by (simp add: chunk_loop_unfold [OF less.prems] True Let_def chunk_tokens [OF assms(1) less.prems] add.commute)
  qed (simp add: chunk_loop_unfold [OF less.prems] Let_def chunk_tokens [OF assms(1) less.prems])
qed

text \<open>C28: The chunks of a text lose nothing and repeat only the overlap: the tokens of the first chunk,
  followed by those of every later chunk without its first \<open>overlap\<close> ones, are the tokens of the text.\<close>

theorem chunk_text_lossless:
  "tokenize text = concat (map (\<lambda>(i, c). drop (if i = 0 then 0 else chunk_overlap cfg) (tokenize (ck_text c)))
     (enumerate 0 (chunk_text text cfg)))"
proof (cases "tokenize text")
  case Nil
  then show ?thesis
    by (simp add: chunk_text_def)
next
  case (Cons t ts)
  let ?cs = "chunk_loop cfg (tokenize text) 0 []"
  have len: "0 < length (tokenize text)"
    using Cons by simp
  obtain c cs where cs: "?cs = c # cs"
    using chunk_loop_unfold [OF len] by simp
  have "map (\<lambda>(i, c). drop (if i = 0 then 0 else chunk_overlap cfg) (tokenize (ck_text c))) (enumerate (Suc n) cs) =
      map (\<lambda>c. drop (chunk_overlap cfg) (tokenize (ck_text c))) cs" for n
    by (induction cs arbitrary: n) simp_all
  with chunk_loop_lossless [OF tokens_ok len, of cfg] cs Cons show ?thesis
    by (simp add: chunk_text_def Let_def)
qed

text \<open>The chunks of a text that has tokens are windows over them: chunk \<open>i\<close> starts at token \<open>i\<close> times the step,
  holds the tokens from its start to its end and at most \<open>window\<close> of them, consecutive chunks share exactly
  \<open>overlap\<close> tokens, and only the last one reaches the end.\<close>

lemma chunk_text_windows:
  assumes "i < length (chunk_text text cfg)" and "c = chunk_text text cfg ! i"
  shows "ck_start c = i * chunk_step cfg \<and> ck_end c = min (ck_start c + chunk_window cfg) (length (tokenize text))
    \<and> ck_start c < ck_end c
    \<and> tokenize (ck_text c) = take (ck_end c - ck_start c) (drop (ck_start c) (tokenize text))
    \<and> (if Suc i < length (chunk_text text cfg)
       then ck_end c = ck_start (chunk_text text cfg ! Suc i) + chunk_overlap cfg \<and> ck_end c < length (tokenize text)
       else ck_end c = length (tokenize text))"
proof -
  let ?n = "length (tokenize text)" and ?s = "i * chunk_step cfg"
  have ne: "tokenize text \<noteq> []" and cs: "chunk_text text cfg = chunk_loop cfg (tokenize text) 0 []"
    using assms(1) by (auto simp: chunk_text_def Let_def split: if_splits)
  have shape: "chunk_text text cfg ! j = chunk_at cfg (tokenize text) (j * chunk_step cfg)" "j * chunk_step cfg < ?n"
    "Suc j < length (chunk_text text cfg) \<longleftrightarrow> j * chunk_step cfg + chunk_window cfg < ?n"
    if "j < length (chunk_text text cfg)" for j
    using chunk_loop_shape [of 0 "tokenize text" cfg] ne that by (auto simp: cs Let_def)
  have c: "c = chunk_at cfg (tokenize text) ?s"
    using shape(1) [OF assms(1)] assms(2) by simp
  have "tokenize (ck_text c) = take (ck_end c - ck_start c) (drop (ck_start c) (tokenize text))"
    using chunk_tokens [OF tokens_ok shape(2) [OF assms(1)], of cfg] by (simp add: c chunk_at_def Let_def min_def)
  then show ?thesis
    using shape(2,3) [OF assms(1)] shape(1) [of "Suc i"] step_overlap [of cfg]
    by (auto simp: c chunk_at_def Let_def)
qed

lemma chunk_text_windows_witness:
  "ck_start (chunk_text ''a b c d'' \<lparr>cc_window = 2, cc_overlap = 1\<rparr> ! 2) = 2
   \<and> tokenize (ck_text (chunk_text ''a b c d'' \<lparr>cc_window = 2, cc_overlap = 1\<rparr> ! 2)) = [''c'', ''d'']"
proof -
  have "length (chunk_text ''a b c d'' \<lparr>cc_window = 2, cc_overlap = 1\<rparr>) = 3"
    by (simp add: chunk_text_def Let_def tokenize_scan is_space_def to_lower_def chunk_loop.simps chunk_window_def chunk_step_def chunk_overlap_def)
  then show ?thesis
    using chunk_text_windows [of 2 "''a b c d''" "\<lparr>cc_window = 2, cc_overlap = 1\<rparr>", OF _ refl]
    by (simp add: tokenize_scan is_space_def to_lower_def chunk_step_def chunk_window_def chunk_overlap_def)
qed

section \<open>Embeddings\<close>

lemma embed_token_ok:
  assumes "d \<noteq> 0" and "length v = unat d"
  shows "\<exists>v'. embed_token d tok v = Inr v' \<and> length v' = unat d"
proof -
  have "unat (fnv1a tok) mod unat d < unat d"
    using assms(1) by (simp add: unat_gt_0)
  with assms show ?thesis
    by (auto simp: embed_token_def Let_def vec_simps)
qed

lemma mock_embed_ok:
  assumes "d \<noteq> 0"
  shows "\<exists>v. mock_embed d text = Inr v \<and> length v = unat d"
proof -
  obtain v where "rfold (embed_token d) (tokenize text) (replicate (unat d) f32_zero) = Inr v" "length v = unat d"
    using rfold_inv [of "\<lambda>v. length v = unat d" "replicate (unat d) f32_zero" "tokenize text" "embed_token d"]
      embed_token_ok [OF assms] by auto
  then show ?thesis
    by (simp add: mock_embed_def normalise_def Let_def)
qed

text \<open>A text without words of three letters has the zero vector, which the normalisation leaves alone.\<close>

lemma fp_zero_finite: "0 < inf_bits F \<Longrightarrow> \<not> fp_is_nan F (False, 0) \<and> \<not> fp_is_inf F (False, 0)"
  by (simp add: fp_is_nan_def fp_is_inf_def)

lemma round_units_zero: "0 < d \<Longrightarrow> round_units F 0 d = 0"
  by (simp add: round_units_def Let_def rne_def nbits.simps)

lemma fp_mul_zero: "0 < inf_bits F \<Longrightarrow> fp_mul F (False, 0) (False, 0) = (False, 0)"
  by (simp add: fp_mul_def fp_zero_finite mag_def Let_def round_units_zero)

lemma fp_add_zero: "0 < inf_bits F \<Longrightarrow> fp_add F (False, 0) (False, 0) = (False, 0)"
  by (simp add: fp_add_def fp_zero_finite mag_def sval_def Let_def)

lemma fp_convert_zero: "0 < inf_bits F \<Longrightarrow> fp_convert F G (False, 0) = (False, 0)"
  by (simp add: fp_convert_def fp_zero_finite mag_def Let_def round_units_zero)

lemma embed_norm_zero: "embed_norm (replicate n f32_zero) = f64_zero"
proof -
  have "0 < inf_bits binary64" "0 < inf_bits binary32" "unpack64 0 = (False, 0)" "unpack32 0 = (False, 0)" "pack64 (False, 0) = 0"
    by (simp_all add: unpack64_def unpack32_def pack64_def inf_bits_def binary64_def binary32_def)
  then have "f64_add f64_zero (f64_mul (f64_of_f32 f32_zero) (f64_of_f32 f32_zero)) = f64_zero"
    by (simp add: f64_add_def f64_mul_def f64_of_f32_def f64_zero_def f32_zero_def fp_mul_zero fp_add_zero fp_convert_zero)
  then show ?thesis
    unfolding embed_norm_def by (induction n) simp_all
qed

lemma mock_embed_short:
  assumes "\<forall>t \<in> set (tokenize text). length t < 3"
  shows "mock_embed d text = Inr (replicate (unat d) f32_zero)"
proof -
  have "rfold (embed_token d) ts v = Inr v" if "\<forall>t \<in> set ts. length t < 3" for ts v
    using that by (induction ts) (simp_all add: embed_token_def)
  with assms show ?thesis
    by (simp add: mock_embed_def normalise_def embed_norm_zero f64_lt_def fp_lt_def)
qed

section \<open>Prompts\<close>

text \<open>The chunks the prompt takes: the longest run from the front that fits.\<close>

fun fitting :: "nat \<Rightarrow> retrieved_chunk list \<Rightarrow> nat \<Rightarrow> nat" where
  "fitting available [] used = 0"
| "fitting available (c # cs) used =
     (if used + approx_tokens (rc_text c) > available then 0
      else Suc (fitting available cs (used + approx_tokens (rc_text c))))"

text \<open>A text after which a new token starts.\<close>

definition open_ended :: "string \<Rightarrow> bool" where
  "open_ended s \<longleftrightarrow> s = [] \<or> is_space (last s)"

lemma approx_open:
  assumes "open_ended a"
  shows "approx_tokens (a @ b) = approx_tokens a + approx_tokens b"
proof (cases a rule: rev_cases)
  case (snoc xs c)
  then show ?thesis
    using assms tokenize_space [of c xs b] tokenize_space [of c xs "[]"] by (simp add: open_ended_def approx_tokens_def)
qed (simp add: approx_tokens_def)

lemma approx_close:
  assumes "is_space c"
  shows "approx_tokens (a @ [c]) = approx_tokens a"
  using tokenize_space [OF assms, of a "[]"] by (simp add: approx_tokens_def)

definition entry_text :: "retrieved_chunk \<Rightarrow> string" where
  "entry_text c = ''- '' @ rc_text c @ newline"

lemma entry_tokens: "open_ended (entry_text c)" "approx_tokens (entry_text c) = Suc (approx_tokens (rc_text c))"
proof -
  show "open_ended (entry_text c)"
    by (simp add: open_ended_def entry_text_def newline_def)
  have "approx_tokens (entry_text c) = approx_tokens ''- '' + approx_tokens (rc_text c @ newline)"
    unfolding entry_text_def by (rule approx_open) (simp add: open_ended_def)
  also have "approx_tokens ''- '' = 1"
    by (simp add: approx_tokens_def tokenize_scan is_space_def to_lower_def)
  finally show "approx_tokens (entry_text c) = Suc (approx_tokens (rc_text c))"
    by (simp add: newline_def approx_close)
qed

lemma add_context_fitting: "add_context av cs ctx used = ctx @ concat (map entry_text (take (fitting av cs used) cs))"
  by (induction cs arbitrary: ctx used) (simp_all add: Let_def entry_text_def)

lemma entries_tokens:
  "open_ended (concat (map entry_text cs))"
  "approx_tokens (concat (map entry_text cs)) = (\<Sum>c\<leftarrow>cs. Suc (approx_tokens (rc_text c)))"
proof (induction cs)
  case (Cons c cs)
  note open_c = entry_tokens(1) [of c]
  { case 1 show ?case
      using Cons(1) open_c by (cases "concat (map entry_text cs) = []") (auto simp: open_ended_def) }
  { case 2 show ?case
      using Cons(2) by (simp add: approx_open [OF open_c] entry_tokens(2)) }
qed (simp_all add: open_ended_def approx_tokens_def)

lemma fitting_bounds:
  assumes "used \<le> available"
  shows "fitting available cs used \<le> length cs"
    and "used + (\<Sum>c\<leftarrow>take (fitting available cs used) cs. approx_tokens (rc_text c)) \<le> available"
    and "fitting available cs used = length cs
      \<or> available < used + (\<Sum>c\<leftarrow>take (Suc (fitting available cs used)) cs. approx_tokens (rc_text c))"
proof -
  have "fitting available cs used \<le> length cs
    \<and> used + (\<Sum>c\<leftarrow>take (fitting available cs used) cs. approx_tokens (rc_text c)) \<le> available
    \<and> (fitting available cs used = length cs
      \<or> available < used + (\<Sum>c\<leftarrow>take (Suc (fitting available cs used)) cs. approx_tokens (rc_text c)))"
    using assms
  proof (induction cs arbitrary: used)
    case (Cons c cs)
    show ?case
    proof (cases "used + approx_tokens (rc_text c) > available")
      case False
      with Cons.IH [of "used + approx_tokens (rc_text c)"] show ?thesis
        by (simp add: not_less add.assoc)
    qed (use Cons.prems in simp)
  qed simp
  then show "fitting available cs used \<le> length cs"
    and "used + (\<Sum>c\<leftarrow>take (fitting available cs used) cs. approx_tokens (rc_text c)) \<le> available"
    and "fitting available cs used = length cs
      \<or> available < used + (\<Sum>c\<leftarrow>take (Suc (fitting available cs used)) cs. approx_tokens (rc_text c))"
    by blast+
qed

lemma prompt_tokens_of:
  "approx_tokens (build_prompt_text budget query cs) =
     14 + approx_tokens query + (\<Sum>c\<leftarrow>take (fitting (prompt_available budget query) cs 0) cs. Suc (approx_tokens (rc_text c)))"
proof -
  let ?head = "''You are a helpful assistant. Answer using only the context below.'' @ newline @ newline @ ''Context:'' @ newline"
  let ?ctx = "concat (map entry_text (take (fitting (prompt_available budget query) cs 0) cs))"
  have "build_prompt_text budget query cs = ?head @ ?ctx @ (newline @ ''Question: '') @ (query @ newline) @ ''Answer:''"
    by (simp add: build_prompt_text_def add_context_fitting)
  moreover have "open_ended ?head" "open_ended (newline @ ''Question: '')" "open_ended (query @ newline)"
    by (simp_all add: open_ended_def newline_def)
  moreover have "approx_tokens ?head = 12" "approx_tokens (newline @ ''Question: '') = 1" "approx_tokens ''Answer:'' = 1"
    by (simp_all add: approx_tokens_def tokenize_scan is_space_def to_lower_def newline_def)
  moreover have "approx_tokens (query @ newline) = approx_tokens query"
    by (simp add: newline_def approx_close)
  ultimately show ?thesis
    using entries_tokens [of "take (fitting (prompt_available budget query) cs 0) cs"] by (simp only: approx_open)
qed

text \<open>The size of a prompt. It takes the first \<open>n\<close> chunks, as many as fit into what the budget leaves after the
  query and the reserve; its token count is the query's and the chunks', one for the dash of each chunk, and
  fourteen for the template.\<close>

lemma prompt_token_count:
  "\<exists>n \<le> length cs. approx_tokens (build_prompt_text budget query cs) =
      14 + approx_tokens query + (\<Sum>c\<leftarrow>take n cs. Suc (approx_tokens (rc_text c)))
    \<and> (\<Sum>c\<leftarrow>take n cs. approx_tokens (rc_text c)) \<le> prompt_available budget query
    \<and> (n = length cs \<or> prompt_available budget query < (\<Sum>c\<leftarrow>take (Suc n) cs. approx_tokens (rc_text c)))"
  using prompt_tokens_of fitting_bounds [of 0 "prompt_available budget query" cs]
  by (intro exI [of _ "fitting (prompt_available budget query) cs 0"]) simp

lemma sum_Suc_tokens: "(\<Sum>c\<leftarrow>cs. Suc (f c)) = length cs + (\<Sum>c\<leftarrow>cs. f c)"
  by (induction cs) simp_all

lemma prompt_fits:
  assumes "approx_tokens query + kScaffoldTokens \<le> budget" and "length cs \<le> 10"
  shows "approx_tokens (build_prompt_text budget query cs) \<le> budget"
proof -
  let ?av = "prompt_available budget query"
  have "?av + approx_tokens query + 24 = budget"
    using assms(1) by (simp add: prompt_available_def Let_def kScaffoldTokens_def)
  moreover have "length (take (fitting ?av cs 0) cs) \<le> 10"
    using assms(2) by simp
  ultimately show ?thesis
    using fitting_bounds(2) [of 0 ?av cs] by (simp add: prompt_tokens_of sum_Suc_tokens del: length_take)
qed

text \<open>A prompt of at most ten chunks stays within its budget, provided the budget covers the query and the
  reserve.\<close>

lemma prompt_within_budget:
  assumes "approx_tokens query + kScaffoldTokens \<le> budget" and "length cs \<le> 10"
  shows "approx_tokens (build_prompt_text budget query cs) \<le> budget"
  using assms by (rule prompt_fits)

lemma prompt_within_budget_witness:
  "approx_tokens (build_prompt_text 30 ''what is it'' [\<lparr>rc_doc_id = ''d'', rc_text = ''a toy'', rc_score = 0\<rparr>]) \<le> 30"
  by (rule prompt_within_budget) (simp_all add: approx_tokens_def tokenize_scan is_space_def to_lower_def kScaffoldTokens_def)

text \<open>C40: With more chunks the prompt can exceed its budget, since the dash before each chunk is a token that is
  not counted: sixteen chunks of one word in a budget of forty give a prompt of forty-six tokens.\<close>

theorem prompt_exceeds_budget:
  "approx_tokens (build_prompt_text 40 [] (replicate 16 \<lparr>rc_doc_id = ''d'', rc_text = ''x'', rc_score = 0\<rparr>)) = 46"
proof -
  let ?cs = "replicate 16 \<lparr>rc_doc_id = ''d'', rc_text = ''x'', rc_score = 0\<rparr>"
  have one: "approx_tokens ''x'' = 1" and av: "prompt_available 40 [] = 16"
    by (simp_all add: approx_tokens_def tokenize_scan is_space_def to_lower_def prompt_available_def kScaffoldTokens_def)
  have "fitting 16 (replicate n \<lparr>rc_doc_id = ''d'', rc_text = ''x'', rc_score = 0\<rparr>) u = n" if "u + n \<le> 16" for n u
    using that by (induction n arbitrary: u) (simp_all add: one)
  from this [of 0 16] show ?thesis
    by (simp add: prompt_tokens_of av one sum_list_replicate) (simp add: approx_tokens_def)
qed

end
