(* ===== verification/Rag_Engine.thy ===== *)
theory Rag_Engine
  imports Rag_Text Engine_Durability
begin

text \<open>
  The document half of \<^verbatim>\<open>include/toyvdb/rag.hpp\<close> and \<^verbatim>\<open>src/rag.cpp\<close>: the embedding model as an interface, and
  the RAG engine, which stores every chunk of a document as an entry of an in-memory database engine. The
  lemmas show that the engine always holds exactly the chunks of the documents last ingested, whatever was
  ingested, replaced and removed before, and that what a query retrieves comes from them.
\<close>

section \<open>The embedding interface\<close>

record embedding_model =
  em_dim :: dim
  em_embed :: "string \<Rightarrow> fvec res"

definition mock_model :: "dim \<Rightarrow> embedding_model" where
  "mock_model d = \<lparr>em_dim = d, em_embed = mock_embed d\<rparr>"

section \<open>State and operations\<close>

record document =
  doc_id :: string
  doc_text :: string

record rag_config =
  rg_chunk :: chunk_config
  rg_metric :: metric_kind
  rg_index :: index_kind
  rg_retrieve_k :: nat
  rg_token_budget :: nat

record rag_engine =
  re_model :: embedding_model
  re_cfg :: rag_config
  re_engine :: engine
  re_doc_chunks :: "(string \<times> nat) list"

text \<open>The default \<^verbatim>\<open>HnswParams\<close>; the drawn levels are a parameter. An engine without persistence opens nothing.\<close>

definition default_hnsw :: "(nat \<Rightarrow> nat) \<Rightarrow> hnsw_params" where
  "default_hnsw levels = \<lparr>hp_M = 16, hp_efConstruction = 200, hp_levels = levels\<rparr>"

definition no_disk :: blob_store where
  "no_disk = \<lparr>bs_dir = [], bs_files = Map.empty, bs_puts = [], bs_reads = []\<rparr>"

definition no_calls :: environment where
  "no_calls = \<lparr>env_writes = [], env_reads = [], env_fsyncs = [], env_opens = []\<rparr>"

definition rag_new :: "(nat \<Rightarrow> nat) \<Rightarrow> embedding_model \<Rightarrow> rag_config \<Rightarrow> rag_engine res" where
  "rag_new levels model cfg =
     rbind (engine_new \<lparr>cfg_dim = em_dim model, cfg_metric = rg_metric cfg, cfg_index = rg_index cfg,
                        cfg_hnsw = default_hnsw levels, cfg_persistence = None\<rparr> True no_disk [] no_calls)
       (\<lambda>e. Inr \<lparr>re_model = model, re_cfg = cfg, re_engine = e, re_doc_chunks = []\<rparr>)"

text \<open>\<^verbatim>\<open>std::to_string\<close> of an unsigned number, and the external id of a chunk.\<close>

fun to_string :: "nat \<Rightarrow> string" where
  "to_string n = (if n < 10 then [char_of (48 + n)] else to_string (n div 10) @ [char_of (48 + n mod 10)])"

declare to_string.simps [simp del]

definition chunk_id :: "string \<Rightarrow> nat \<Rightarrow> string" where
  "chunk_id doc i = doc @ ''#'' @ to_string i"

text \<open>A loop whose body mutates the engine and may throw.\<close>

fun eloop :: "('a \<Rightarrow> engine \<Rightarrow> engine \<times> 'b res) \<Rightarrow> 'a list \<Rightarrow> engine \<Rightarrow> engine \<times> unit res" where
  "eloop f [] e = (e, Inr ())"
| "eloop f (x # xs) e = (case f x e of (e', Inl er) \<Rightarrow> (e', Inl er) | (e', Inr _) \<Rightarrow> eloop f xs e')"

definition erase_chunks :: "string \<Rightarrow> nat \<Rightarrow> engine \<Rightarrow> engine \<times> unit res" where
  "erase_chunks doc n e = eloop (\<lambda>i. engine_erase (chunk_id doc i)) [0..<n] e"

definition chunk_meta :: "string \<Rightarrow> string \<Rightarrow> metadata" where
  "chunk_meta doc text = meta_assign ''text'' (MString text) (meta_assign ''doc'' (MString doc) [])"

definition insert_chunk :: "embedding_model \<Rightarrow> string \<Rightarrow> chunk list \<Rightarrow> nat \<Rightarrow> engine \<Rightarrow> engine \<times> internal_id res" where
  "insert_chunk model doc chunks i e =
     (case em_embed model (ck_text (chunks ! i)) of
        Inl er \<Rightarrow> (e, Inl er)
      | Inr vec \<Rightarrow> engine_insert (chunk_id doc i) vec (chunk_meta doc (ck_text (chunks ! i))) e)"

definition rag_ingest :: "document \<Rightarrow> rag_engine \<Rightarrow> rag_engine \<times> nat res" where
  "rag_ingest doc r =
     (case (case map_of (re_doc_chunks r) (doc_id doc) of
              None \<Rightarrow> (re_engine r, Inr ())
            | Some n \<Rightarrow> erase_chunks (doc_id doc) n (re_engine r)) of
        (e1, Inl er) \<Rightarrow> (r\<lparr>re_engine := e1\<rparr>, Inl er)
      | (e1, Inr _) \<Rightarrow>
          (let chunks = chunk_text (doc_text doc) (rg_chunk (re_cfg r))
           in case eloop (insert_chunk (re_model r) (doc_id doc) chunks) [0..<length chunks] e1 of
                (e2, Inl er) \<Rightarrow> (r\<lparr>re_engine := e2\<rparr>, Inl er)
              | (e2, Inr _) \<Rightarrow>
                  (r\<lparr>re_engine := e2,
                     re_doc_chunks :=
                       (if chunks = [] then AList.delete (doc_id doc) (re_doc_chunks r)
                        else AList.update (doc_id doc) (length chunks) (re_doc_chunks r))\<rparr>,
                   Inr (length chunks))))"

definition meta_string :: "metadata \<Rightarrow> string \<Rightarrow> string" where
  "meta_string m key = (case meta_find m key of Some (MString s) \<Rightarrow> s | _ \<Rightarrow> [])"

definition retrieved :: "vector_store \<Rightarrow> search_result \<Rightarrow> retrieved_chunk" where
  "retrieved s h =
     (case vs_metadata s (sr_id h) of
        None \<Rightarrow> \<lparr>rc_doc_id = [], rc_text = [], rc_score = sr_score h\<rparr>
      | Some m \<Rightarrow> \<lparr>rc_doc_id = meta_string m ''doc'', rc_text = meta_string m ''text'', rc_score = sr_score h\<rparr>)"

definition rag_retrieve :: "string \<Rightarrow> nat \<Rightarrow> rag_engine \<Rightarrow> retrieved_chunk list res" where
  "rag_retrieve query k r =
     rbind (em_embed (re_model r) query) (\<lambda>qv.
     rbind (engine_search qv k None 0 (re_engine r)) (\<lambda>hits.
       Inr (map (retrieved (eng_store (re_engine r))) hits)))"

definition rag_build_prompt :: "string \<Rightarrow> rag_engine \<Rightarrow> string res" where
  "rag_build_prompt query r =
     rbind (rag_retrieve query (rg_retrieve_k (re_cfg r)) r) (\<lambda>chunks.
       Inr (build_prompt_text (rg_token_budget (re_cfg r)) query chunks))"

definition rag_remove :: "string \<Rightarrow> rag_engine \<Rightarrow> rag_engine \<times> bool res" where
  "rag_remove doc r =
     (case map_of (re_doc_chunks r) doc of
        None \<Rightarrow> (r, Inr False)
      | Some n \<Rightarrow>
          (case erase_chunks doc n (re_engine r) of
             (e, Inl er) \<Rightarrow> (r\<lparr>re_engine := e\<rparr>, Inl er)
           | (e, Inr _) \<Rightarrow> (r\<lparr>re_engine := e, re_doc_chunks := AList.delete doc (re_doc_chunks r)\<rparr>, Inr True)))"

definition document_count :: "rag_engine \<Rightarrow> nat" where
  "document_count r = length (re_doc_chunks r)"

section \<open>Chunk ids\<close>

lemma digit_char: "n < 10 \<Longrightarrow> (of_char (char_of (48 + n :: nat)) :: nat) = 48 + n"
  by simp

lemma to_string_no_hash: "CHR ''#'' \<notin> set (to_string n)"
proof (induction n rule: to_string.induct)
  case (1 n)
  have "char_of (48 + m :: nat) \<noteq> CHR ''#''" if "m < 10" for m
  proof
    assume "char_of (48 + m :: nat) = CHR ''#''"
    then have "(of_char (char_of (48 + m :: nat)) :: nat) = 35"
      by simp
    with digit_char [OF that] show False
      by simp
  qed
  from this [of n] this [of "n mod 10"] 1 show ?case
    by (subst to_string.simps) (auto simp: eq_commute [of "CHR ''#''"])
qed

lemma to_string_inj: "to_string m = to_string n \<Longrightarrow> m = n"
proof (induction m arbitrary: n rule: to_string.induct)
  case (1 m)
  have nonempty: "to_string k \<noteq> []" "[] \<noteq> to_string k" for k
    by (subst to_string.simps, simp)+
  have digit: "char_of (48 + i :: nat) = char_of (48 + j :: nat) \<longleftrightarrow> i = j" if "i < 10" "j < 10" for i j
    using that digit_char [of i] digit_char [of j] by (metis add_left_cancel)
  have split: "m = n" if "m div 10 = n div 10" "m mod 10 = n mod 10"
    using that by (metis div_mult_mod_eq)
  from "1.prems" show ?case
    using "1.IH" [of "n div 10"] nonempty digit [of m n] digit [of "m mod 10" "n mod 10"] split
    by (subst (asm) (1 2) to_string.simps) (auto split: if_splits)
qed

lemma chunk_id_eq: "chunk_id d i = chunk_id e j \<longleftrightarrow> d = e \<and> i = j"
proof
  assume eq: "chunk_id d i = chunk_id e j"
  have "rev (takeWhile (\<lambda>c. c \<noteq> CHR ''#'') (rev (chunk_id d i))) = to_string i" for d i
    using to_string_no_hash [of i] by (simp add: chunk_id_def takeWhile_append)
  with eq have "to_string i = to_string j"
    by metis
  with eq show "d = e \<and> i = j"
    using to_string_inj by (simp add: chunk_id_def)
qed simp

text \<open>Chunk ids are unambiguous: two chunks have the same external id only if they are the same chunk of the
  same document, even when document ids contain the separator or look like chunk ids.\<close>

lemma chunk_id_inj: "chunk_id d i = chunk_id e j \<longleftrightarrow> d = e \<and> i = j"
  by (rule chunk_id_eq)

section \<open>Mutations of an in-memory engine\<close>

definition mem_engine :: "engine \<Rightarrow> bool" where
  "mem_engine e \<longleftrightarrow> engine_wf e \<and> eng_wal e = None"

lemma apply_op_memory:
  assumes "mem_engine e" and "op_ok (cfg_dim (eng_cfg e)) p" and "op_type p = Insert \<Longrightarrow> has_room (eng_store e)"
  shows "\<exists>e' i. apply_op p True e = (e', Inr i) \<and> mem_engine e' \<and> eng_cfg e' = eng_cfg e
    \<and> store_abs (eng_store e') = spec_apply p (store_abs (eng_store e))
    \<and> slot_count (eng_store e') \<le> Suc (slot_count (eng_store e))"
proof -
  note D = engine_wfD [of e]
  have e: "engine_wf e" "eng_wal e = None"
    using assms(1) by (simp_all add: mem_engine_def)
  obtain i s' x' where "apply_mem p (eng_store e, eng_index e) = Inr (i, s', x')" "store_wf s'" "coupled s' x'"
    "vs_dim s' = vs_dim (eng_store e)" "store_abs s' = spec_apply p (store_abs (eng_store e))"
    "index_metric x' = index_metric (eng_index e)" "length (ext_ids s') \<le> Suc (length (ext_ids (eng_store e)))"
    using apply_mem_ok [OF D(1,2) [OF e(1)], of p] assms(2,3) D(4) [OF e(1)] by auto
  with e D [OF e(1)] show ?thesis
    by (auto simp: apply_op_def log_op_def mem_engine_def engine_wf_def mem_wf_def slot_count_def)
qed

lemma erase_memory:
  assumes "mem_engine e"
  shows "\<exists>e'. engine_erase k e = (e', Inr (store_abs (eng_store e) k \<noteq> None)) \<and> mem_engine e' \<and> eng_cfg e' = eng_cfg e
    \<and> store_abs (eng_store e') = (store_abs (eng_store e))(k := None) \<and> slot_count (eng_store e') = slot_count (eng_store e)"
proof (rule resolve_cases [of e k])
  show e: "engine_wf e"
    using assms by (simp add: mem_engine_def)
  {
    assume "store_abs (eng_store e) k = None" "resolve (eng_store e) k = Inr None"
    then show ?thesis
      using assms by (intro exI [of _ e]) (simp add: engine_erase_def fun_upd_idem)
  next
    let ?p = "\<lparr>op_type = Delete, op_ext_id = k, op_vec = [], op_meta = None\<rparr>"
    note D = engine_wfD [OF e]
    obtain s' x' where m: "apply_mem ?p (eng_store e, eng_index e) = Inr (kInvalidId, s', x')" "store_wf s'" "coupled s' x'"
      "vs_dim s' = vs_dim (eng_store e)" "store_abs s' = spec_apply ?p (store_abs (eng_store e))"
      "ext_ids s' = ext_ids (eng_store e)" "index_metric x' = index_metric (eng_index e)"
      using apply_delete [OF D(1,2), of ?p] by auto
    fix i assume "resolve (eng_store e) k = Inr (Some i)" "store_abs (eng_store e) k \<noteq> None"
    with m D assms show ?thesis
      by (intro exI [of _ "e\<lparr>eng_store := s', eng_index := x'\<rparr>"]) (simp add: engine_erase_def apply_op_def log_op_def mem_engine_def engine_wf_def mem_wf_def slot_count_def spec_apply_def)
  }
qed

lemma insert_memory:
  assumes "mem_engine e" and "length v = unat (cfg_dim (eng_cfg e))" and "meta_wf m" and "0 < store_room (eng_store e)"
  shows "\<exists>e' i. engine_insert k v m e = (e', Inr i) \<and> mem_engine e' \<and> eng_cfg e' = eng_cfg e
    \<and> store_abs (eng_store e') = (store_abs (eng_store e))(k \<mapsto> (v, m)) \<and> slot_count (eng_store e') \<le> Suc (slot_count (eng_store e))"
proof -
  have "has_room (eng_store e)"
    using assms(4) by (simp add: store_room_def has_room_def slot_count_def)
  then show ?thesis
    using apply_op_memory [OF assms(1), of "\<lparr>op_type = Insert, op_ext_id = k, op_vec = v, op_meta = Some m\<rparr>"] assms(2,3)
    by (auto simp: engine_insert_def op_ok_def spec_apply_def)
qed

lemma eloop_append: "eloop f (xs @ ys) e = (case eloop f xs e of (e', Inl er) \<Rightarrow> (e', Inl er) | (e', Inr _) \<Rightarrow> eloop f ys e')"
  by (induction xs arbitrary: e) (auto split: prod.split sum.split)

lemma eloop_upto:
  assumes "P 0 e" and "\<And>i e. i < n \<Longrightarrow> P i e \<Longrightarrow> \<exists>e' x. f i e = (e', Inr x) \<and> P (Suc i) e'"
  shows "\<exists>e'. eloop f [0..<n] e = (e', Inr ()) \<and> P n e'"
  using assms(2)
proof (induction n)
  case (Suc n)
  then obtain e1 where "eloop f [0..<n] e = (e1, Inr ())" "P n e1"
    by force
  moreover from this Suc.prems [of n] obtain e2 x where "f n e1 = (e2, Inr x)" "P (Suc n) e2"
    by blast
  ultimately show ?case
    by (simp add: eloop_append)
qed (simp add: assms(1))

lemma erase_chunks_ok:
  assumes "mem_engine e"
  shows "\<exists>e'. erase_chunks d n e = (e', Inr ()) \<and> mem_engine e' \<and> eng_cfg e' = eng_cfg e
    \<and> slot_count (eng_store e') = slot_count (eng_store e)
    \<and> store_abs (eng_store e') = (\<lambda>key. if \<exists>j < n. key = chunk_id d j then None else store_abs (eng_store e) key)"
proof -
  let ?P = "\<lambda>n e'. mem_engine e' \<and> eng_cfg e' = eng_cfg e \<and> slot_count (eng_store e') = slot_count (eng_store e)
    \<and> store_abs (eng_store e') = (\<lambda>key. if \<exists>j < n. key = chunk_id d j then None else store_abs (eng_store e) key)"
  have "\<exists>e'. eloop (\<lambda>i. engine_erase (chunk_id d i)) [0..<n] e = (e', Inr ()) \<and> ?P n e'"
  proof (rule eloop_upto [where P = ?P])
    fix i e' assume P: "?P i e'"
    then obtain e2 where "engine_erase (chunk_id d i) e' = (e2, Inr (store_abs (eng_store e') (chunk_id d i) \<noteq> None))" "mem_engine e2" "eng_cfg e2 = eng_cfg e'"
      "store_abs (eng_store e2) = (store_abs (eng_store e'))(chunk_id d i := None)" "slot_count (eng_store e2) = slot_count (eng_store e')"
      using erase_memory by blast
    with P show "\<exists>e2 x. engine_erase (chunk_id d i) e' = (e2, Inr x) \<and> ?P (Suc i) e2"
      by (auto simp: less_Suc_eq fun_eq_iff)
  qed (use assms in simp)
  then show ?thesis
    by (simp add: erase_chunks_def)
qed

section \<open>The documents an engine holds\<close>

definition entry_of :: "embedding_model \<Rightarrow> string \<Rightarrow> string \<Rightarrow> fvec \<times> metadata" where
  "entry_of model doc text = (case em_embed model text of Inl _ \<Rightarrow> [] | Inr v \<Rightarrow> v, chunk_meta doc text)"

text \<open>The database holds the chunks of the documents, under their ids, and nothing else.\<close>

definition holds_docs ::
  "embedding_model \<Rightarrow> (string \<rightharpoonup> string list) \<Rightarrow> (string \<rightharpoonup> fvec \<times> metadata) \<Rightarrow> bool" where
  "holds_docs model docs A \<longleftrightarrow>
     (\<forall>d ts i. docs d = Some ts \<longrightarrow> i < length ts \<longrightarrow> A (chunk_id d i) = Some (entry_of model d (ts ! i)))
   \<and> (\<forall>key. A key \<noteq> None \<longrightarrow> (\<exists>d ts i. docs d = Some ts \<and> i < length ts \<and> key = chunk_id d i))"

definition rag_wf :: "rag_engine \<Rightarrow> (string \<rightharpoonup> string list) \<Rightarrow> bool" where
  "rag_wf r docs \<longleftrightarrow>
     mem_engine (re_engine r) \<and> cfg_dim (eng_cfg (re_engine r)) = em_dim (re_model r)
   \<and> cfg_metric (eng_cfg (re_engine r)) = rg_metric (re_cfg r)
   \<and> distinct (map fst (re_doc_chunks r)) \<and> map_of (re_doc_chunks r) = (\<lambda>d. map_option length (docs d))
   \<and> holds_docs (re_model r) docs (store_abs (eng_store (re_engine r)))"

lemma holds_docs_erase:
  assumes "holds_docs model docs A" and "map_option length (docs d) = Some n"
  shows "holds_docs model (docs(d := None)) (\<lambda>key. if \<exists>j < n. key = chunk_id d j then None else A key)"
proof -
  have "(if \<exists>j < n. chunk_id d' i = chunk_id d j then None else A (chunk_id d' i)) = Some (entry_of model d' (ts ! i))"
    if "(docs(d := None)) d' = Some ts" "i < length ts" for d' ts i
    using assms(1) that unfolding holds_docs_def by (auto simp: chunk_id_eq split: if_splits)
  moreover have "\<exists>d' ts i. (docs(d := None)) d' = Some ts \<and> i < length ts \<and> key = chunk_id d' i"
    if key: "(if \<exists>j < n. key = chunk_id d j then None else A key) \<noteq> None" for key
  proof -
    from key obtain d' ts i where i: "docs d' = Some ts" "i < length ts" "key = chunk_id d' i"
      using assms(1) unfolding holds_docs_def by (metis (full_types))
    moreover have "d' \<noteq> d"
      using key i assms(2) by (auto split: if_splits)
    ultimately show ?thesis
      by (intro exI [of _ d'] exI [of _ ts] exI [of _ i]) simp
  qed
  ultimately show ?thesis
    unfolding holds_docs_def by blast
qed

lemma holds_docs_insert:
  assumes "holds_docs model docs A" and "docs d = None"
    and "\<forall>j < length ts. B (chunk_id d j) = Some (entry_of model d (ts ! j))"
    and "\<forall>key. (\<forall>j < length ts. key \<noteq> chunk_id d j) \<longrightarrow> B key = A key"
  shows "holds_docs model (docs(d := if ts = [] then None else Some ts)) B"
proof -
  have "B (chunk_id d' i) = A (chunk_id d' i)" if "d' \<noteq> d" for d' i
    using assms(4) that by (simp add: chunk_id_eq)
  moreover have "\<exists>d' ts' i. (docs(d := if ts = [] then None else Some ts)) d' = Some ts' \<and> i < length ts' \<and> key = chunk_id d' i"
    if key: "B key \<noteq> None" for key
  proof (cases "\<exists>j < length ts. key = chunk_id d j")
    case False
    with key assms(4) have "A key \<noteq> None"
      by auto
    then obtain d' ts' i where "docs d' = Some ts'" "i < length ts'" "key = chunk_id d' i"
      using assms(1) unfolding holds_docs_def by blast
    moreover from this assms(2) have "d' \<noteq> d"
      by auto
    ultimately show ?thesis
      by (intro exI [of _ d'] exI [of _ ts'] exI [of _ i]) simp
  qed auto
  ultimately show ?thesis
    using assms(1,3) unfolding holds_docs_def by (auto split: if_splits)
qed

lemma chunk_meta_wf: "meta_wf (chunk_meta d t)"
  by (simp add: meta_wf_def chunk_meta_def meta_assign_def)

lemma chunk_meta_string: "meta_string (chunk_meta d t) ''doc'' = d" "meta_string (chunk_meta d t) ''text'' = t"
  by (simp_all add: meta_string_def chunk_meta_def meta_assign_def meta_find_def)

lemma entry_metadata:
  assumes "store_wf s" and "external_id s i = Inr key" and "store_abs s key = Some (v, m)"
  shows "vs_metadata s i = Some m"
proof -
  have i: "unat i < length (ext_ids s)" "key = ext_ids s ! unat i"
    using assms(2) by (auto simp: external_id_def res_simps)
  then have "ext_to_int s key = Some i"
    using store_wfD(8) [OF assms(1)] by simp
  with assms(3) i(1) store_wfD(5) [OF assms(1)] show ?thesis
    by (auto simp: store_abs_def vs_metadata_def split: if_splits)
qed

section \<open>The embedding contract\<close>

text \<open>
  \<^verbatim>\<open>class EmbeddingModel\<close>: a positive dimension, and a vector of that dimension for every text. Everything the
  RAG engine promises rests on this contract; the hashing model of the repository meets it.
\<close>

locale embedding_seam =
  fixes model :: embedding_model
  assumes dim_pos: "em_dim model \<noteq> 0"
    and embeds: "\<exists>v. em_embed model text = Inr v \<and> length v = unat (em_dim model)"
begin

lemma insert_chunk_ok:
  assumes "mem_engine e" and "cfg_dim (eng_cfg e) = em_dim model" and "0 < store_room (eng_store e)"
  shows "\<exists>e' i. insert_chunk model d cs j e = (e', Inr i) \<and> mem_engine e' \<and> eng_cfg e' = eng_cfg e
    \<and> store_abs (eng_store e') = (store_abs (eng_store e))(chunk_id d j \<mapsto> entry_of model d (ck_text (cs ! j)))
    \<and> slot_count (eng_store e') \<le> Suc (slot_count (eng_store e))"
proof -
  obtain v where v: "em_embed model (ck_text (cs ! j)) = Inr v" "length v = unat (em_dim model)"
    using embeds by blast
  with insert_memory [OF assms(1) _ chunk_meta_wf assms(3), of v "chunk_id d j" d "ck_text (cs ! j)"] assms(2) show ?thesis
    by (simp add: insert_chunk_def entry_of_def)
qed

lemma insert_chunks_ok:
  assumes "mem_engine e" and "cfg_dim (eng_cfg e) = em_dim model" and "length cs \<le> store_room (eng_store e)"
  shows "\<exists>e'. eloop (insert_chunk model d cs) [0..<length cs] e = (e', Inr ()) \<and> mem_engine e' \<and> eng_cfg e' = eng_cfg e
    \<and> slot_count (eng_store e') \<le> slot_count (eng_store e) + length cs
    \<and> (\<forall>j < length cs. store_abs (eng_store e') (chunk_id d j) = Some (entry_of model d (ck_text (cs ! j))))
    \<and> (\<forall>key. (\<forall>j < length cs. key \<noteq> chunk_id d j) \<longrightarrow> store_abs (eng_store e') key = store_abs (eng_store e) key)"
proof -
  let ?P = "\<lambda>n e'. mem_engine e' \<and> eng_cfg e' = eng_cfg e \<and> slot_count (eng_store e') \<le> slot_count (eng_store e) + n
    \<and> (\<forall>j < n. store_abs (eng_store e') (chunk_id d j) = Some (entry_of model d (ck_text (cs ! j))))
    \<and> (\<forall>key. (\<forall>j < n. key \<noteq> chunk_id d j) \<longrightarrow> store_abs (eng_store e') key = store_abs (eng_store e) key)"
  have "\<exists>e'. eloop (insert_chunk model d cs) [0..<length cs] e = (e', Inr ()) \<and> ?P (length cs) e'"
  proof (rule eloop_upto [where P = ?P])
    fix i e' assume i: "i < length cs" and P: "?P i e'"
    have "0 < store_room (eng_store e')"
      using i P assms(3) by (auto simp: store_room_def)
    with P assms(2) obtain e2 x where "insert_chunk model d cs i e' = (e2, Inr x)" "mem_engine e2" "eng_cfg e2 = eng_cfg e'"
      "store_abs (eng_store e2) = (store_abs (eng_store e'))(chunk_id d i \<mapsto> entry_of model d (ck_text (cs ! i)))"
      "slot_count (eng_store e2) \<le> Suc (slot_count (eng_store e'))"
      using insert_chunk_ok [of e' d cs i] by auto
    with P show "\<exists>e2 x. insert_chunk model d cs i e' = (e2, Inr x) \<and> ?P (Suc i) e2"
      by (auto simp: less_Suc_eq chunk_id_eq)
  qed (use assms(1) in simp)
  then show ?thesis
    by blast
qed

lemma ingest_ok:
  assumes r: "rag_wf r docs" "re_model r = model"
    and room: "length (chunk_text (doc_text doc) (rg_chunk (re_cfg r))) \<le> store_room (eng_store (re_engine r))"
  shows "\<exists>r'. rag_ingest doc r = (r', Inr (length (chunk_text (doc_text doc) (rg_chunk (re_cfg r)))))
    \<and> rag_wf r' (docs(doc_id doc := (let ts = map ck_text (chunk_text (doc_text doc) (rg_chunk (re_cfg r)))
        in if ts = [] then None else Some ts)))
    \<and> slot_count (eng_store (re_engine r')) \<le> slot_count (eng_store (re_engine r)) + length (chunk_text (doc_text doc) (rg_chunk (re_cfg r)))"
proof -
  let ?d = "doc_id doc" and ?cs = "chunk_text (doc_text doc) (rg_chunk (re_cfg r))" and ?e = "re_engine r"
  have W: "mem_engine ?e" "cfg_dim (eng_cfg ?e) = em_dim model" "cfg_metric (eng_cfg ?e) = rg_metric (re_cfg r)"
    "distinct (map fst (re_doc_chunks r))"
    "map_of (re_doc_chunks r) = (\<lambda>d. map_option length (docs d))" "holds_docs model docs (store_abs (eng_store ?e))"
    using r by (simp_all add: rag_wf_def)
  obtain e1 where e1: "(case map_of (re_doc_chunks r) ?d of None \<Rightarrow> (?e, Inr ()) | Some n \<Rightarrow> erase_chunks ?d n ?e) = (e1, Inr ())"
    "mem_engine e1" "eng_cfg e1 = eng_cfg ?e" "slot_count (eng_store e1) = slot_count (eng_store ?e)"
    "holds_docs model (docs(?d := None)) (store_abs (eng_store e1))"
  proof (cases "docs ?d")
    case None
    then show thesis
      using that [of ?e] W by (simp add: fun_upd_idem)
  next
    case (Some ts)
    then show thesis
      using that erase_chunks_ok [OF W(1), of ?d "length ts"] holds_docs_erase [OF W(6), of ?d "length ts"] W(5) by auto
  qed
  obtain e2 where e2: "eloop (insert_chunk model ?d ?cs) [0..<length ?cs] e1 = (e2, Inr ())" "mem_engine e2" "eng_cfg e2 = eng_cfg e1"
    "slot_count (eng_store e2) \<le> slot_count (eng_store e1) + length ?cs"
    "\<forall>j < length ?cs. store_abs (eng_store e2) (chunk_id ?d j) = Some (entry_of model ?d (ck_text (?cs ! j)))"
    "\<forall>key. (\<forall>j < length ?cs. key \<noteq> chunk_id ?d j) \<longrightarrow> store_abs (eng_store e2) key = store_abs (eng_store e1) key"
    using insert_chunks_ok [OF e1(2), of ?cs ?d] e1(3,4) W(2) room by (auto simp: store_room_def)
  have "holds_docs model (docs(?d := if map ck_text ?cs = [] then None else Some (map ck_text ?cs))) (store_abs (eng_store e2))"
    using holds_docs_insert [OF e1(5), of ?d "map ck_text ?cs" "store_abs (eng_store e2)"] e2(5,6) by simp
  then show ?thesis
    using e1(1,3,4) e2(1-4) W r(2)
    by (auto simp: rag_ingest_def Let_def rag_wf_def update_conv' delete_conv' fun_eq_iff distinct_update distinct_delete)
qed

lemma retrieve_ok:
  assumes r: "rag_wf r docs" "re_model r = model"
    and nan: "\<forall>qv. em_embed model query = Inr qv \<longrightarrow> nan_free (eng_store (re_engine r)) (rg_metric (re_cfg r)) qv"
  shows "\<exists>qv cs. em_embed model query = Inr qv \<and> rag_retrieve query k r = Inr cs \<and> length cs \<le> k
    \<and> sorted_wrt (\<lambda>a b. f32_key (rc_score a) \<le> f32_key (rc_score b)) cs
    \<and> (\<forall>c \<in> set cs. \<exists>ts v. docs (rc_doc_id c) = Some ts \<and> rc_text c \<in> set ts
         \<and> em_embed model (rc_text c) = Inr v \<and> rc_score c = metric_value (rg_metric (re_cfg r)) qv v)"
proof -
  let ?e = "re_engine r" and ?s = "eng_store (re_engine r)"
  have W: "engine_wf ?e" "cfg_dim (eng_cfg ?e) = em_dim model" "cfg_metric (eng_cfg ?e) = rg_metric (re_cfg r)"
    "holds_docs model docs (store_abs ?s)"
    using r by (simp_all add: rag_wf_def mem_engine_def)
  obtain qv where qv: "em_embed model query = Inr qv" "length qv = unat (em_dim model)"
    using embeds by blast
  obtain hits where hits: "engine_search qv k None 0 ?e = Inr hits" "length hits \<le> k"
    "sorted_wrt (\<lambda>g h. hit_key g \<le> hit_key h) hits"
    "\<forall>h \<in> set hits. describes ?s (rg_metric (re_cfg r)) qv None h"
    using engine_search_ok [OF W(1), of qv k None 0] qv nan W(2,3) by auto
  have score: "rc_score (retrieved ?s h) = sr_score h" for h
    by (simp add: retrieved_def split: option.split)
  have "\<exists>ts v. docs (rc_doc_id c) = Some ts \<and> rc_text c \<in> set ts \<and> em_embed model (rc_text c) = Inr v
      \<and> rc_score c = metric_value (rg_metric (re_cfg r)) qv v" if h_in: "h \<in> set hits" and c: "c = retrieved ?s h" for h c
  proof -
    obtain key v m where h: "external_id ?s (sr_id h) = Inr key" "store_abs ?s key = Some (v, m)"
      "sr_score h = metric_value (rg_metric (re_cfg r)) qv v"
      using hits(4) h_in unfolding describes_def by blast
    obtain d ts i where i: "docs d = Some ts" "i < length ts" "key = chunk_id d i" "(v, m) = entry_of model d (ts ! i)"
      using W(4) h(2) unfolding holds_docs_def by (metis option.distinct(1) option.inject)
    have "vs_metadata ?s (sr_id h) = Some m"
      by (rule entry_metadata [OF engine_wfD(1) [OF W(1)] h(1,2)])
    moreover obtain w where "em_embed model (ts ! i) = Inr w"
      using embeds by blast
    ultimately show ?thesis
      using i h(3) c by (auto simp: retrieved_def entry_of_def chunk_meta_string)
  qed
  with qv hits score r(2) show ?thesis
    by (auto simp: rag_retrieve_def sorted_wrt_map hit_key_def)
qed

end

section \<open>Providers of the contract\<close>

lemma mock_model_seam: "d \<noteq> 0 \<Longrightarrow> embedding_seam (mock_model d)"
  using mock_embed_ok [of d] by unfold_locales (simp_all add: mock_model_def)

text \<open>The model a default-constructed \<^verbatim>\<open>MockEmbeddingModel\<close> is.\<close>

interpretation mock: embedding_seam "mock_model 128"
  by (rule mock_model_seam) simp

section \<open>Properties\<close>

lemma rag_new_ok:
  assumes "em_dim model \<noteq> 0"
  shows "\<exists>r. rag_new levels model cfg = Inr r \<and> re_model r = model \<and> re_cfg r = cfg \<and> rag_wf r Map.empty
    \<and> store_room (eng_store (re_engine r)) = 2 ^ 32 - 1"
  using assms fresh_memory [of "\<lparr>cfg_dim = em_dim model, cfg_metric = rg_metric cfg, cfg_index = rg_index cfg,
      cfg_hnsw = default_hnsw levels, cfg_persistence = None\<rparr>"]
  by (simp add: rag_new_def engine_new_def vs_new_def Let_def rag_wf_def mem_engine_def engine_wf_def holds_docs_def
      hnsw_config_ok_def params_ok_def default_hnsw_def vs_empty_wf(2) store_room_def)

text \<open>Ingesting a document replaces it: afterwards the database holds the chunks of the new text under the
  document's id, no chunk of an earlier version, and every other document unchanged; the number of chunks is
  returned. This holds for every embedding model that meets its contract.\<close>

lemma rag_ingest_replaces:
  assumes "embedding_seam (re_model r)" and "rag_wf r docs"
    and "length (chunk_text (doc_text doc) (rg_chunk (re_cfg r))) \<le> store_room (eng_store (re_engine r))"
  shows "\<exists>r'. rag_ingest doc r = (r', Inr (length (chunk_text (doc_text doc) (rg_chunk (re_cfg r)))))
    \<and> rag_wf r' (docs(doc_id doc := (let ts = map ck_text (chunk_text (doc_text doc) (rg_chunk (re_cfg r)))
        in if ts = [] then None else Some ts)))"
  using embedding_seam.ingest_ok [OF assms(1,2) refl assms(3)] by blast

definition demo_rag_config :: rag_config where
  "demo_rag_config = \<lparr>rg_chunk = \<lparr>cc_window = 2, cc_overlap = 0\<rparr>, rg_metric = L2, rg_index = Flat_kind,
     rg_retrieve_k = 5, rg_token_budget = 64\<rparr>"

lemma demo_chunks: "map ck_text (chunk_text ''a b c'' \<lparr>cc_window = 2, cc_overlap = 0\<rparr>) = [''a b'', ''c'']"
  by (simp add: chunk_text_def Let_def tokenize_scan is_space_def to_lower_def chunk_loop.simps chunk_window_def
      chunk_step_def chunk_overlap_def join_range_def)

lemma rag_ingest_replaces_witness:
  "\<exists>r r'. rag_new (\<lambda>_. 0) (mock_model 128) demo_rag_config = Inr r
     \<and> rag_ingest \<lparr>doc_id = ''d'', doc_text = ''a b c''\<rparr> r = (r', Inr 2) \<and> rag_wf r' [''d'' \<mapsto> [''a b'', ''c'']]"
proof -
  obtain r where r: "rag_new (\<lambda>_. 0) (mock_model 128) demo_rag_config = Inr r" "re_model r = mock_model 128"
    "re_cfg r = demo_rag_config" "rag_wf r Map.empty" "store_room (eng_store (re_engine r)) = 2 ^ 32 - 1"
    using rag_new_ok [OF mock.dim_pos] by blast
  have len: "length (chunk_text ''a b c'' \<lparr>cc_window = 2, cc_overlap = 0\<rparr>) = 2"
    using arg_cong [OF demo_chunks, of length] by simp
  have "\<exists>r'. rag_ingest \<lparr>doc_id = ''d'', doc_text = ''a b c''\<rparr> r = (r', Inr 2) \<and> rag_wf r' [''d'' \<mapsto> [''a b'', ''c'']]"
    using rag_ingest_replaces [of r Map.empty "\<lparr>doc_id = ''d'', doc_text = ''a b c''\<rparr>"] r mock.embedding_seam_axioms
    by (simp add: demo_rag_config_def demo_chunks len)
  with r(1) show ?thesis
    by blast
qed

text \<open>The operations change neither the model nor the configuration.\<close>

lemma rag_ingest_keeps: "re_model (fst (rag_ingest doc r)) = re_model r" "re_cfg (fst (rag_ingest doc r)) = re_cfg r"
  by (simp_all add: rag_ingest_def Let_def split: prod.split sum.split option.split)

lemma rag_remove_keeps: "re_model (fst (rag_remove d r)) = re_model r" "re_cfg (fst (rag_remove d r)) = re_cfg r"
  by (simp_all add: rag_remove_def split: prod.split sum.split option.split)

lemma rag_remove_ok:
  assumes "rag_wf r docs"
  shows "\<exists>r'. rag_remove d r = (r', Inr (docs d \<noteq> None)) \<and> rag_wf r' (docs(d := None))"
proof (cases "docs d")
  case None
  then show ?thesis
    using assms by (simp add: rag_remove_def rag_wf_def fun_upd_idem)
next
  case (Some ts)
  have W: "mem_engine (re_engine r)" "map_of (re_doc_chunks r) = (\<lambda>d. map_option length (docs d))"
    "holds_docs (re_model r) docs (store_abs (eng_store (re_engine r)))"
    using assms by (simp_all add: rag_wf_def)
  obtain e where "erase_chunks d (length ts) (re_engine r) = (e, Inr ())" "mem_engine e" "eng_cfg e = eng_cfg (re_engine r)"
    "holds_docs (re_model r) (docs(d := None)) (store_abs (eng_store e))"
    using erase_chunks_ok [OF W(1), of d "length ts"] holds_docs_erase [OF W(3), of d "length ts"] Some by auto
  with assms W(2) Some show ?thesis
    by (auto simp: rag_remove_def rag_wf_def delete_conv' fun_eq_iff distinct_delete)
qed

text \<open>Removing a document deletes all of its chunks and nothing else, and tells whether it was there.\<close>

lemma rag_remove_deletes:
  assumes "rag_wf r docs"
  shows "\<exists>r'. rag_remove d r = (r', Inr (docs d \<noteq> None)) \<and> rag_wf r' (docs(d := None))"
  using assms by (rule rag_remove_ok)

text \<open>Retrieval is grounded. A query answers with at most \<open>k\<close> chunks in order of distance, each the text of a
  chunk of a document that is ingested now, under that document's id, with the distance of its embedding from
  the embedding of the query.\<close>

lemma rag_retrieve_grounded:
  assumes "embedding_seam (re_model r)" and "rag_wf r docs"
    and "\<forall>qv. em_embed (re_model r) query = Inr qv \<longrightarrow> nan_free (eng_store (re_engine r)) (rg_metric (re_cfg r)) qv"
  shows "\<exists>qv cs. em_embed (re_model r) query = Inr qv \<and> rag_retrieve query k r = Inr cs \<and> length cs \<le> k
    \<and> sorted_wrt (\<lambda>a b. f32_key (rc_score a) \<le> f32_key (rc_score b)) cs
    \<and> (\<forall>c \<in> set cs. \<exists>ts v. docs (rc_doc_id c) = Some ts \<and> rc_text c \<in> set ts
         \<and> em_embed (re_model r) (rc_text c) = Inr v \<and> rc_score c = metric_value (rg_metric (re_cfg r)) qv v)"
  using embedding_seam.retrieve_ok [OF assms(1,2) refl assms(3)] .

text \<open>An engine with one document of one chunk; the hashing model of dimension one gives short words the zero vector.\<close>

definition demo_rag_store :: vector_store where
  "demo_rag_store = demo_one\<lparr>ext_ids := [chunk_id ''d'' 0], metas := [chunk_meta ''d'' ''ab''],
     ext_to_int := [chunk_id ''d'' 0 \<mapsto> 0]\<rparr>"

definition demo_rag :: rag_engine where
  "demo_rag = \<lparr>re_model = mock_model 1, re_cfg = demo_rag_config,
     re_engine = demo_engine\<lparr>eng_store := demo_rag_store\<rparr>, re_doc_chunks = [(''d'', 1)]\<rparr>"

lemma demo_embed: "mock_embed 1 ''ab'' = Inr [f32_zero]"
  using mock_embed_short [of "''ab''" 1] by (simp add: tokenize_scan is_space_def to_lower_def)

lemma demo_rag_wf: "rag_wf demo_rag [''d'' \<mapsto> [''ab'']]"
proof -
  have wf: "store_wf demo_rag_store"
    using chunk_meta_wf by (auto simp: store_wf_def demo_rag_store_def demo_one_def)
  have "live_set demo_rag_store = {0}"
    by (auto simp: live_set_def is_live_def demo_one_def demo_rag_store_def)
  with wf have "mem_engine (re_engine demo_rag)"
    by (simp add: mem_engine_def engine_wf_def mem_wf_def demo_rag_def demo_engine_def flat_coupled_def demo_config_def
        demo_rag_store_def demo_one_def)
  moreover have "store_abs demo_rag_store = [chunk_id ''d'' 0 \<mapsto> entry_of (mock_model 1) ''d'' ''ab'']"
    by (auto simp: store_abs_def demo_rag_store_def demo_one_def entry_of_def mock_model_def demo_embed slot_vec_def row_def fun_eq_iff)
  ultimately show ?thesis
    by (auto simp: rag_wf_def demo_rag_def demo_engine_def demo_config_def demo_rag_config_def mock_model_def holds_docs_def split: if_splits)
qed

lemma rag_remove_deletes_witness: "\<exists>r'. rag_remove ''d'' demo_rag = (r', Inr True) \<and> rag_wf r' Map.empty"
  using rag_remove_deletes [OF demo_rag_wf, of "''d''"] by simp

lemma demo_rag_fields: "re_model demo_rag = mock_model 1" "re_cfg demo_rag = demo_rag_config" "em_embed (mock_model 1) ''ab'' = Inr [f32_zero]"
  by (simp_all add: demo_rag_def mock_model_def demo_embed)

lemma demo_rag_nan_free: "nan_free (eng_store (re_engine demo_rag)) L2 [f32_zero]"
  using demo_one_nan_free by (simp add: nan_free_def demo_rag_def demo_rag_store_def demo_one_def slot_count_def slot_vec_def)

lemma rag_retrieve_grounded_witness:
  "\<exists>cs. rag_retrieve ''ab'' 3 demo_rag = Inr cs \<and> (\<forall>c \<in> set cs. rc_doc_id c = ''d'' \<and> rc_text c = ''ab'')"
proof -
  obtain cs where "rag_retrieve ''ab'' 3 demo_rag = Inr cs"
    "\<forall>c \<in> set cs. \<exists>ts. [''d'' \<mapsto> [''ab'']] (rc_doc_id c) = Some ts \<and> rc_text c \<in> set ts"
    using rag_retrieve_grounded [OF _ demo_rag_wf, of "''ab''" 3] mock_model_seam [of 1] demo_rag_nan_free
    by (fastforce simp: demo_rag_fields demo_rag_config_def)
  then show ?thesis
    by (intro exI [of _ cs]) (auto split: if_splits)
qed

text \<open>A prompt built for a query stays within the configured budget when at most ten chunks are retrieved and the
  budget covers the query and the reserve; in particular with the default of five.\<close>

lemma rag_prompt_budget:
  assumes "embedding_seam (re_model r)" and "rag_wf r docs"
    and "\<forall>qv. em_embed (re_model r) query = Inr qv \<longrightarrow> nan_free (eng_store (re_engine r)) (rg_metric (re_cfg r)) qv"
    and "rg_retrieve_k (re_cfg r) \<le> 10" and "approx_tokens query + kScaffoldTokens \<le> rg_token_budget (re_cfg r)"
  shows "\<exists>prompt. rag_build_prompt query r = Inr prompt \<and> approx_tokens prompt \<le> rg_token_budget (re_cfg r)"
proof -
  obtain cs where cs: "rag_retrieve query (rg_retrieve_k (re_cfg r)) r = Inr cs" "length cs \<le> rg_retrieve_k (re_cfg r)"
    using embedding_seam.retrieve_ok [OF assms(1,2) refl assms(3), of "rg_retrieve_k (re_cfg r)"] by blast
  with prompt_fits [OF assms(5), of cs] assms(4) show ?thesis
    by (simp add: rag_build_prompt_def)
qed

lemma rag_prompt_budget_witness: "\<exists>prompt. rag_build_prompt ''ab'' demo_rag = Inr prompt \<and> approx_tokens prompt \<le> 64"
  using rag_prompt_budget [OF _ demo_rag_wf, of "''ab''"] mock_model_seam [of 1] demo_rag_nan_free
  by (simp add: demo_rag_fields demo_rag_config_def kScaffoldTokens_def approx_tokens_def tokenize_scan is_space_def to_lower_def)

end
