(* ===== verification/Embedding_Bounds.thy ===== *)
theory Embedding_Bounds
  imports Rag_Text Float_Bounds
begin

text \<open>
  The vectors of the hashing embedding are of moderate size, so no distance between two of them is NaN: a
  component counts tokens and stops at \<open>2 ^ 24\<close>, where a float absorbs one more, and the factor that normalises
  is at most one, since a vector that is not zero has a norm of at least one.
\<close>

section \<open>Counters\<close>

text \<open>A float that holds a whole number of magnitude at most \<open>2 ^ 24\<close>.\<close>

definition whole :: "f32 \<Rightarrow> nat \<Rightarrow> bool" where
  "whole x n \<longleftrightarrow> n \<le> 2 ^ 24 \<and> snd (unpack32 x) < inf_bits binary32 \<and> mag binary32 (snd (unpack32 x)) = n * 2 ^ 149"

lemma round_whole:
  assumes "0 < n" and "n \<le> Suc (2 ^ 24)"
  shows "\<exists>m \<le> 2 ^ 24. 0 < m \<and> round_units binary32 (n * 2 ^ 149) 1 < inf_bits binary32
    \<and> mag binary32 (round_units binary32 (n * 2 ^ 149) 1) = m * 2 ^ 149"
proof -
  have top: "representable binary32 (2 ^ 24 * 2 ^ 149)"
    using representable32 [of 173] by (simp only: flip: power_add) simp
  show ?thesis
  proof (cases "n \<le> 2 ^ 24")
    case True
    have "representable binary32 (n * 2 ^ 149)"
    proof (cases "n = 2 ^ 24")
      case False
      with True have "n < 2 ^ prec binary32" by simp
      moreover have "n * 2 ^ 149 \<le> 2 ^ 24 * 2 ^ 149"
        using True by (rule mult_le_mono1)
      ultimately show ?thesis
        using top by (intro representable_below [of n binary32 149 "2 ^ 24 * 2 ^ 149"]) simp_all
    qed (use top in simp)
    then show ?thesis
      using True assms(1) unfolding representable_def by blast
  next
    case False
    with assms(2) have "n = Suc (2 ^ 24)"
      by simp
    then have "round_units binary32 (n * 2 ^ 149) 1 = round_units binary32 (2 ^ 24 * 2 ^ 149) 1"
      using round_saturates [of binary32 149] by (simp only: binary32_simps mult_Suc add.commute)
    then show ?thesis
      using top unfolding representable_def by (intro exI [of _ "2 ^ 24"]) (simp only:, simp)
  qed
qed

lemma whole_zero: "whole f32_zero 0"
  by (simp add: whole_def f32_zero_def unpack32_def mag_def)

lemma whole_unit: "unpack32 f32_one = (False, 0x3F800000)" "unpack32 f32_minus_one = (True, 0x3F800000)"
  "mag binary32 0x3F800000 = 2 ^ 149"
  by (simp_all add: f32_one_def f32_minus_one_def unpack32_def mag_def)

lemma whole_step:
  assumes "whole x n" and "y = f32_one \<or> y = f32_minus_one"
  shows "\<exists>m. whole (f32_add x y) m"
proof -
  let ?F = binary32 and ?x = "unpack32 x" and ?y = "unpack32 y"
  define k where "k = (if fst ?x then - int n else int n) + (if fst ?y then - 1 else 1)"
  have y: "snd ?y = 0x3F800000"
    using assms(2) by (auto simp: whole_unit)
  have fin: "\<not> fp_is_nan ?F ?x" "\<not> fp_is_inf ?F ?x" "\<not> fp_is_nan ?F ?y" "\<not> fp_is_inf ?F ?y"
    using assms(1) y by (simp_all add: whole_def fp_is_nan_def fp_is_inf_def)
  have "sval ?F ?x + sval ?F ?y = k * 2 ^ 149"
    using assms(1) y unfolding sval_def k_def whole_def by (simp only: whole_unit(3)) (simp add: algebra_simps)
  then have add: "fp_add ?F ?x ?y = (if k = 0 then (fst ?x \<and> fst ?y, 0) else (k < 0, round_units ?F (nat \<bar>k\<bar> * 2 ^ 149) 1))"
    using fin by (simp add: fp_add_def Let_def nat_mult_distrib mult_less_0_iff abs_mult)
  have "nat \<bar>k\<bar> \<le> Suc (2 ^ 24)"
    using assms(1) by (auto simp: k_def whole_def)
  then have round: "k \<noteq> 0 \<Longrightarrow> \<exists>m \<le> 2 ^ 24. 0 < m \<and> round_units ?F (nat \<bar>k\<bar> * 2 ^ 149) 1 < inf_bits ?F
      \<and> mag ?F (round_units ?F (nat \<bar>k\<bar> * 2 ^ 149) 1) = m * 2 ^ 149"
    by (intro round_whole) simp_all
  show ?thesis
  proof (cases "k = 0")
    case True
    then show ?thesis
      by (intro exI [of _ 0]) (simp add: whole_def unpack_f32_op add mag_def)
  next
    case False
    then show ?thesis
      using round unfolding whole_def unpack_f32_op add by auto
  qed
qed

lemma whole_within: "whole x n \<Longrightarrow> within 173 x"
proof -
  assume x: "whole x n"
  then have "n * 2 ^ 149 \<le> 2 ^ 24 * (2 :: nat) ^ 149"
    unfolding whole_def by (intro mult_le_mono1) simp
  also have "\<dots> = 2 ^ 173"
    by (simp only: flip: power_add) simp
  finally show ?thesis
    using x unfolding within_def bounded_def whole_def by simp
qed

section \<open>The norm\<close>

text \<open>A non-negative double that is zero or at least one, and at most \<open>2 ^ j\<close> units.\<close>

definition zero_or_large :: "nat \<Rightarrow> fp \<Rightarrow> bool" where
  "zero_or_large j x \<longleftrightarrow> \<not> fst x \<and> bounded binary64 (2 ^ j) x \<and> (mag binary64 (snd x) = 0 \<or> 2 ^ 1074 \<le> mag binary64 (snd x))"

lemma large_round:
  assumes "n = 0 \<or> 2 ^ 1074 * d \<le> n" and "n \<le> 2 ^ j * d" and "0 < d" and "j \<le> 2097"
  shows "zero_or_large j (False, round_units binary64 n d)"
proof -
  have b: "bounded binary64 (2 ^ j) (False, round_units binary64 n d)"
    using bounded_round [OF representable64 [OF assms(4)] assms(2,3)] by simp
  have "mag binary64 (round_units binary64 n d) = 0 \<or> 2 ^ 1074 \<le> mag binary64 (round_units binary64 n d)"
  proof (cases "n = 0")
    case True
    then show ?thesis
      using assms(3) by (simp add: round_units_zero mag_def)
  next
    case False
    then have "2 ^ 1074 * d \<le> n"
      using assms(1) by blast
    from round_at_least [OF representable64 this assms(3)] b show ?thesis
      by (simp add: bounded_def)
  qed
  with b show ?thesis
    by (simp add: zero_or_large_def)
qed

lemma double_of_whole:
  assumes "whole x n"
  shows "bounded binary64 (n * 2 ^ 1074) (unpack64 (f64_of_f32 x))" and "mag binary64 (snd (unpack64 (f64_of_f32 x))) = n * 2 ^ 1074"
proof -
  have n: "n \<le> 2 ^ 24" "snd (unpack32 x) < inf_bits binary32" "mag binary32 (snd (unpack32 x)) = n * 2 ^ 149"
    using assms by (simp_all only: whole_def)
  have "n * 2 ^ 1074 \<le> 2 ^ 1098"
  proof -
    have "n * 2 ^ 1074 \<le> 2 ^ 24 * (2 :: nat) ^ 1074"
      using n(1) by (rule mult_le_mono1)
    then show ?thesis
      by (simp only: flip: power_add) simp
  qed
  then have r: "representable binary64 (n * 2 ^ 1074)"
    using n(1) representable64 [of 1098] by (intro representable_below [of n binary64 1074 "2 ^ 1098"]) simp_all
  have "n * 2 ^ 149 * 2 ^ 1074 = n * 2 ^ 1074 * (2 :: nat) ^ 149"
    by (simp only: ac_simps)
  then have "round_units binary64 (n * 2 ^ 149 * 2 ^ 1074) (2 ^ 149) = round_units binary64 (n * 2 ^ 1074) 1"
    using round_units_cancel [of "2 ^ 149" binary64 "n * 2 ^ 1074"] by (simp only:) simp
  then have "snd (unpack64 (f64_of_f32 x)) = round_units binary64 (n * 2 ^ 1074) 1"
    using n unfolding unpack_f64_op fp_convert_def binary64_simps binary32_simps
    by (simp only: fp_is_nan_def fp_is_inf_def n(3) snd_conv if_False) auto
  with r show "mag binary64 (snd (unpack64 (f64_of_f32 x))) = n * 2 ^ 1074"
    and "bounded binary64 (n * 2 ^ 1074) (unpack64 (f64_of_f32 x))"
    unfolding bounded_def representable_def by simp_all
qed

lemma square_of_whole:
  assumes "whole x n"
  shows "zero_or_large 1122 (unpack64 (f64_mul (f64_of_f32 x) (f64_of_f32 x)))"
proof -
  let ?y = "unpack64 (f64_of_f32 x)"
  note y = double_of_whole [OF assms]
  have "fp_mul binary64 ?y ?y = (False, round_units binary64 (n * 2 ^ 1074 * (n * 2 ^ 1074)) (2 ^ 1074))"
    using bounded_finite [OF y(1)] unfolding fp_mul_def y(2) binary64_simps by simp
  moreover have "zero_or_large 1122 (False, round_units binary64 (n * 2 ^ 1074 * (n * 2 ^ 1074)) (2 ^ 1074))"
  proof (rule large_round)
    show "n * 2 ^ 1074 * (n * 2 ^ 1074) = 0 \<or> 2 ^ 1074 * 2 ^ 1074 \<le> n * 2 ^ 1074 * (n * (2 :: nat) ^ 1074)"
    proof (cases "n = 0")
      case False
      then have "1 * 2 ^ 1074 \<le> n * (2 :: nat) ^ 1074"
        by (intro mult_le_mono1) simp
      then show ?thesis
        unfolding mult_1 by (intro disjI2 mult_le_mono)
    qed simp
    have "n * 2 ^ 1074 \<le> 2 ^ 24 * (2 :: nat) ^ 1074"
      using assms unfolding whole_def by (intro mult_le_mono1) simp
    then have "n * 2 ^ 1074 * (n * 2 ^ 1074) \<le> (2 ^ 24 * 2 ^ 1074) * (2 ^ 24 * (2 :: nat) ^ 1074)"
      by (rule mult_le_mono) fact
    also have "\<dots> = 2 ^ 1122 * 2 ^ 1074"
      by (simp only: flip: power_add) simp
    finally show "n * 2 ^ 1074 * (n * 2 ^ 1074) \<le> 2 ^ 1122 * (2 :: nat) ^ 1074" .
  qed simp_all
  ultimately show ?thesis
    by (simp only: unpack_f64_op)
qed

lemma large_add:
  assumes x: "zero_or_large 1175 x" and y: "zero_or_large 1122 y"
  shows "zero_or_large 1175 (fp_add binary64 x y)"
proof -
  let ?F = binary64 and ?v = "mag binary64 (snd x) + mag binary64 (snd y)"
  have X: "\<not> fst x" "bounded ?F (2 ^ 1175) x" "snd x < inf_bits ?F" and Y: "\<not> fst y" "bounded ?F (2 ^ 1122) y" "snd y < inf_bits ?F"
    using x y unfolding zero_or_large_def bounded_def by blast+
  have p: "(2 :: nat) ^ prec ?F * 2 ^ 1122 = 2 ^ 1175"
    by (simp only: binary64_simps flip: power_add) simp
  then have b: "bounded ?F (2 ^ 1175) (fp_add ?F x y)"
    using bounded_add_saturated [of ?F 1122 x y] X(2) Y(2) representable64 [of 1175] by simp
  show ?thesis
  proof (cases "?v = 0")
    case True
    then show ?thesis
      using fp_add_zeros [OF X(1) Y(1) X(3) Y(3)] by (simp add: zero_or_large_def mag_def)
  next
    case False
    then have "2 ^ 1074 \<le> ?v"
      using x y unfolding zero_or_large_def by linarith
    moreover have add: "fp_add ?F x y = (False, round_units ?F ?v 1)"
      using fp_add_pos [OF X(1) Y(1) X(3) Y(3) refl] False by simp
    ultimately have "2 ^ 1074 \<le> mag ?F (round_units ?F ?v 1)"
      using b representable64 [of 1074] by (intro round_at_least) (simp_all add: bounded_def)
    with b add show ?thesis
      by (simp add: zero_or_large_def)
  qed
qed

lemma embed_norm_large:
  assumes "\<forall>x \<in> set v. \<exists>n. whole x n"
  shows "zero_or_large 1175 (unpack64 (embed_norm v))"
proof -
  have "zero_or_large 1175 (unpack64 (fold (\<lambda>x acc. f64_add acc (f64_mul (f64_of_f32 x) (f64_of_f32 x))) v acc))"
    if "zero_or_large 1175 (unpack64 acc)" for acc
    using assms that
  proof (induction v arbitrary: acc)
    case (Cons x v)
    then obtain n where "whole x n"
      by auto
    from large_add [OF Cons.prems(2) square_of_whole [OF this]] Cons.IH Cons.prems(1) show ?case
      by (simp add: unpack_f64_op(1))
  qed simp
  moreover have "zero_or_large 1175 (unpack64 f64_zero)"
    by (simp add: zero_or_large_def f64_zero_def unpack64_def mag_def)
  ultimately show ?thesis
    by (simp add: embed_norm_def)
qed

text \<open>The factor that normalises is at most one.\<close>

lemma inverse_root_within:
  assumes "zero_or_large 1175 (unpack64 r)" and "f64_lt f64_zero r"
  shows "within 149 (f32_of_f64 (f64_div f64_one (f64_sqrt r)))"
proof -
  let ?F = binary64 and ?r = "unpack64 r" and ?one = "(False, 0x3FF0000000000000)"
  have R: "\<not> fst ?r" "bounded ?F (2 ^ 1175) ?r" "mag ?F (snd ?r) = 0 \<or> 2 ^ 1074 \<le> mag ?F (snd ?r)" "snd ?r < inf_bits ?F"
    using assms(1) unfolding zero_or_large_def bounded_def by blast+
  have "unpack64 f64_zero = (False, 0)"
    by (simp add: f64_zero_def unpack64_def)
  then have "0 < snd ?r"
    using assms(2) R(1) by (simp add: f64_lt_def fp_lt_def fp_key_def)
  then have "mag ?F 0 < mag ?F (snd ?r)"
    using R(4) by (intro mag_strict_mono) simp_all
  then have big: "2 ^ 1074 \<le> mag ?F (snd ?r)"
    using R(3) by simp
  have root: "fp_sqrt ?F ?r = (False, round_sqrt ?F (mag ?F (snd ?r) * 2 ^ 1074))"
    using bounded_finite [OF R(2)] R(1) \<open>0 < snd ?r\<close> by (simp add: fp_sqrt_def)
  have "(2 :: nat) ^ 1175 * 2 ^ unit_exp ?F \<le> 2 ^ 1125 * 2 ^ 1125"
    unfolding binary64_simps power_add [symmetric] by (rule power_increasing) simp_all
  then have fin: "bounded ?F (2 ^ 1125) (fp_sqrt ?F ?r)"
    using bounded_sqrt [OF R(2,1), of 1125] representable64 [of 1125] by simp
  have "2 ^ 1074 * 2 ^ 1074 \<le> mag ?F (snd ?r) * 2 ^ 1074"
    using big by (rule mult_le_mono1)
  then have "round_units ?F (2 ^ 1074) 1 \<le> round_sqrt ?F (mag ?F (snd ?r) * 2 ^ 1074)"
    using round_sqrt_mono [of "2 ^ 1074 * 2 ^ 1074" _ ?F] round_sqrt_power [of ?F 1074] by (metis binary64_simps(1) zero_less_numeral)
  then have root_big: "2 ^ 1074 \<le> mag ?F (snd (fp_sqrt ?F ?r))"
    using mag_mono [of "round_units ?F (2 ^ 1074) 1" "round_sqrt ?F (mag ?F (snd ?r) * 2 ^ 1074)" ?F] representable64 [of 1074] fin
    by (simp add: root representable_def bounded_def)
  have one: "mag ?F 0x3FF0000000000000 = 2 ^ 1074" "unpack64 f64_one = ?one"
    by (simp_all add: mag_def f64_one_def unpack64_def)
  have "bounded ?F (2 ^ 1074) (fp_div ?F ?one (fp_sqrt ?F ?r))"
  proof -
    have pos: "0 < mag ?F (snd (fp_sqrt ?F ?r))"
      using root_big by (rule less_le_trans [rotated]) simp
    have "fp_div ?F ?one (fp_sqrt ?F ?r) = (False, round_units ?F (2 ^ 1074 * 2 ^ 1074) (mag ?F (snd (fp_sqrt ?F ?r))))"
      using fp_div_pos [of ?one "fp_sqrt ?F ?r" ?F] fin pos root by (simp add: bounded_def one)
    moreover have "2 ^ 1074 * 2 ^ 1074 \<le> 2 ^ 1074 * mag ?F (snd (fp_sqrt ?F ?r))"
      using root_big by (rule mult_le_mono2)
    ultimately show ?thesis
      using bounded_round [OF representable64 _ pos, of 1074] by simp
  qed
  then have inv: "bounded ?F (2 ^ 1074) (unpack64 (f64_div f64_one (f64_sqrt r)))"
    by (simp only: unpack_f64_op one(2))
  let ?i = "unpack64 (f64_div f64_one (f64_sqrt r))"
  have "mag ?F (snd ?i) * 2 ^ 149 \<le> 2 ^ 149 * 2 ^ 1074"
    using inv mult_le_mono1 [of "mag ?F (snd ?i)" "2 ^ 1074" "2 ^ 149"] unfolding bounded_def by (simp only: mult.commute [of "2 ^ 149"])
  then have "bounded binary32 (2 ^ 149) (s, round_units binary32 (mag ?F (snd ?i) * 2 ^ 149) (2 ^ 1074))" for s
    using bounded_round [OF representable32 [of 149]] by simp
  then show ?thesis
    using bounded_finite [OF inv] by (simp add: within_def unpack_f32_of_f64 fp_convert_def)
qed

section \<open>Embeddings\<close>

lemma normalise_moderate:
  assumes "\<forall>x \<in> set v. \<exists>n. whole x n"
  shows "moderate (normalise v)"
proof -
  have v: "\<forall>x \<in> set v. within 173 x"
    using assms whole_within by blast
  have "within 199 (f32_mul x i)" if "x \<in> set v" "within 149 i" for x i
    using within_mul [of 173 x 149 i 173] v that within_mono [of 173 _ 199] by simp
  then show ?thesis
    using v inverse_root_within [OF embed_norm_large [OF assms]] within_mono [of 173 _ 199]
    by (auto simp: normalise_def Let_def moderate_within)
qed

lemma embed_tokens_whole:
  assumes "rfold (embed_token d) toks v = Inr w" and "\<forall>x \<in> set v. \<exists>n. whole x n"
  shows "\<forall>x \<in> set w. \<exists>n. whole x n"
  using assms
proof (induction toks arbitrary: v)
  case (Cons t toks)
  then obtain u where u: "embed_token d t v = Inr u" "rfold (embed_token d) toks u = Inr w"
    by (auto simp: res_simps)
  have bumped: "\<exists>n. whole (f32_add (v ! i) y) n" if "i < length v" "y = f32_one \<or> y = f32_minus_one" for i y
    using Cons.prems(2) nth_mem [OF that(1)] whole_step that(2) by blast
  have "\<forall>x \<in> set u. \<exists>n. whole x n"
    using u(1) Cons.prems(2) bumped
    by (auto simp: embed_token_def Let_def res_simps split: if_splits dest!: set_update_subset_insert [THEN subsetD])
  with Cons.IH u(2) show ?case
    by blast
qed simp

lemma mock_embed_moderate: "mock_embed d text = Inr v \<Longrightarrow> moderate v"
  using embed_tokens_whole [of d "tokenize text" "replicate (unat d) f32_zero"] whole_zero
  by (auto simp: mock_embed_def res_simps intro!: normalise_moderate)

end
