(* ===== verification/Rag_Runs.thy ===== *)
theory Rag_Runs
  imports Rag_Engine Embedding_Bounds Moderate_Store
begin

text \<open>
  Runs of the RAG engine with the hashing model, as a step relation over ingestions and removals. Its vectors are
  of moderate size, so the conditions of the retrieval theorems hold in every state such a run reaches: every
  query is answered from the documents that are ingested at that moment.
\<close>

section \<open>Moderate embeddings\<close>

definition moderate_model :: "embedding_model \<Rightarrow> bool" where
  "moderate_model m \<longleftrightarrow> (\<forall>text v. em_embed m text = Inr v \<longrightarrow> moderate v)"

definition moderate_rag :: "rag_engine \<Rightarrow> bool" where
  "moderate_rag r \<longleftrightarrow> moderate_model (re_model r) \<and> moderate_store (eng_store (re_engine r))"

lemma mock_moderate: "moderate_model (mock_model d)"
  by (simp add: moderate_model_def mock_model_def mock_embed_moderate)

lemma eloop_keeps:
  assumes "eloop f xs e = (e', r)" and "P e" and "\<And>x e e' y. f x e = (e', y) \<Longrightarrow> P e \<Longrightarrow> P e'"
  shows "P e'"
  using assms(1,2)
proof (induction xs arbitrary: e)
  case (Cons x xs)
  then show ?case
    by (auto split: prod.splits sum.splits dest: assms(3))
qed simp

lemma erase_chunks_moderate:
  "erase_chunks d n e = (e', r) \<Longrightarrow> moderate_store (eng_store e) \<Longrightarrow> moderate_store (eng_store e')"
  unfolding erase_chunks_def by (erule eloop_keeps [where P = "\<lambda>e. moderate_store (eng_store e)"]) (auto dest: erase_moderate)

lemma insert_chunks_moderate:
  assumes "eloop (insert_chunk m d cs) xs e = (e', r)" and "moderate_store (eng_store e)" and "moderate_model m"
  shows "moderate_store (eng_store e')"
  using assms(1,2)
  by (rule eloop_keeps [where P = "\<lambda>e. moderate_store (eng_store e)"])
    (use assms(3) in \<open>auto simp: insert_chunk_def moderate_model_def split: sum.splits dest: insert_moderate\<close>)

lemma rag_ingest_moderate: "moderate_rag r \<Longrightarrow> moderate_rag (fst (rag_ingest doc r))"
  by (auto simp: rag_ingest_def moderate_rag_def Let_def split: prod.split sum.split option.split
      dest: erase_chunks_moderate insert_chunks_moderate)

lemma rag_remove_moderate: "moderate_rag r \<Longrightarrow> moderate_rag (fst (rag_remove d r))"
  by (auto simp: rag_remove_def moderate_rag_def split: prod.split sum.split option.split dest: erase_chunks_moderate)

lemma moderate_rag_nan_free:
  assumes "moderate_rag r" and "rag_wf r docs" and "embedding_seam (re_model r)" and "em_embed (re_model r) query = Inr qv"
  shows "nan_free (eng_store (re_engine r)) mk qv"
proof (rule moderate_nan_free)
  have W: "engine_wf (re_engine r)" "cfg_dim (eng_cfg (re_engine r)) = em_dim (re_model r)"
    using assms(2) by (simp_all add: rag_wf_def mem_engine_def)
  show "store_wf (eng_store (re_engine r))"
    by (rule engine_wfD(1) [OF W(1)])
  show "length qv = unat (vs_dim (eng_store (re_engine r)))"
    using embedding_seam.embeds [OF assms(3), of query] assms(4) engine_wfD(4) [OF W(1)] W(2) by simp
qed (use assms(1,4) in \<open>auto simp: moderate_rag_def moderate_model_def\<close>)

section \<open>Runs\<close>

datatype doc_request = Ingest document | Remove string

fun rag_perform :: "doc_request \<Rightarrow> rag_engine \<Rightarrow> rag_engine" where
  "rag_perform (Ingest doc) r = fst (rag_ingest doc r)"
| "rag_perform (Remove d) r = fst (rag_remove d r)"

fun docs_after :: "chunk_config \<Rightarrow> doc_request \<Rightarrow> (string \<rightharpoonup> string list) \<Rightarrow> (string \<rightharpoonup> string list)" where
  "docs_after cc (Ingest doc) D =
     D(doc_id doc := (let ts = map ck_text (chunk_text (doc_text doc) cc) in if ts = [] then None else Some ts))"
| "docs_after cc (Remove d) D = D(d := None)"

fun rag_room :: "doc_request \<Rightarrow> rag_engine \<Rightarrow> bool" where
  "rag_room (Ingest doc) r \<longleftrightarrow>
     length (chunk_text (doc_text doc) (rg_chunk (re_cfg r))) \<le> store_room (eng_store (re_engine r))"
| "rag_room (Remove d) r \<longleftrightarrow> True"

inductive rag_run :: "dim \<Rightarrow> rag_config \<Rightarrow> doc_request list \<Rightarrow> rag_engine \<Rightarrow> bool" for d cfg where
  start: "rag_new levels (mock_model d) cfg = Inr r \<Longrightarrow> rag_run d cfg [] r"
| step: "\<lbrakk>rag_run d cfg reqs r; rag_room req r\<rbrakk> \<Longrightarrow> rag_run d cfg (reqs @ [req]) (rag_perform req r)"

definition rag_inv :: "dim \<Rightarrow> rag_config \<Rightarrow> (string \<rightharpoonup> string list) \<Rightarrow> rag_engine \<Rightarrow> bool" where
  "rag_inv d cfg D r \<longleftrightarrow> rag_wf r D \<and> moderate_rag r \<and> re_model r = mock_model d \<and> re_cfg r = cfg"

lemma rag_inv_new:
  assumes "d \<noteq> 0" and "rag_new levels (mock_model d) cfg = Inr r"
  shows "rag_inv d cfg Map.empty r"
proof -
  have "em_dim (mock_model d) \<noteq> 0"
    using assms(1) by (simp add: mock_model_def)
  from rag_new_ok [OF this, of levels cfg] assms(2) have W: "rag_wf r Map.empty" "re_model r = mock_model d" "re_cfg r = cfg"
    by auto
  have "eng_store (re_engine r) = vs_empty d"
    using assms by (auto simp: rag_new_def engine_new_def vs_new_def mock_model_def Let_def res_simps split: if_splits)
  with W show ?thesis
    by (simp add: rag_inv_def moderate_rag_def mock_moderate)
qed

lemma rag_inv_step:
  assumes "rag_inv d cfg D r" and "d \<noteq> 0" and "rag_room req r"
  shows "rag_inv d cfg (docs_after (rg_chunk cfg) req D) (rag_perform req r)"
proof -
  have I: "rag_wf r D" "moderate_rag r" "re_model r = mock_model d" "re_cfg r = cfg"
    using assms(1) by (simp_all add: rag_inv_def)
  show ?thesis
  proof (cases req)
    case (Ingest doc)
    then show ?thesis
      using embedding_seam.ingest_ok [OF mock_model_seam [OF assms(2)] I(1,3), of doc] assms(3) I rag_ingest_moderate [OF I(2), of doc]
        rag_ingest_keeps [of doc r]
      by (auto simp: rag_inv_def)
  next
    case (Remove k)
    then show ?thesis
      using rag_remove_ok [OF I(1), of k] I rag_remove_moderate [OF I(2), of k] rag_remove_keeps [of k r]
      by (auto simp: rag_inv_def)
  qed
qed

lemma rag_run_inv:
  assumes "rag_run d cfg reqs r" and "d \<noteq> 0"
  shows "rag_inv d cfg (fold (docs_after (rg_chunk cfg)) reqs Map.empty) r"
  using assms(1)
proof (induction rule: rag_run.induct)
  case (start levels r)
  then show ?case
    using rag_inv_new [OF assms(2)] by simp
next
  case (step reqs r req)
  then show ?case
    using rag_inv_step [OF step.IH assms(2)] by simp
qed

lemma rag_inv_retrieve:
  assumes "rag_inv d cfg D r" and "d \<noteq> 0"
  shows "\<exists>qv cs. mock_embed d query = Inr qv \<and> rag_retrieve query k r = Inr cs \<and> length cs \<le> k
    \<and> sorted_wrt (\<lambda>a b. f32_key (rc_score a) \<le> f32_key (rc_score b)) cs
    \<and> (\<forall>c \<in> set cs. \<exists>ts v. D (rc_doc_id c) = Some ts \<and> rc_text c \<in> set ts
         \<and> mock_embed d (rc_text c) = Inr v \<and> rc_score c = metric_value (rg_metric cfg) qv v)"
proof -
  have I: "rag_wf r D" "moderate_rag r" "re_model r = mock_model d" "re_cfg r = cfg"
    using assms(1) by (simp_all add: rag_inv_def)
  note seam = mock_model_seam [OF assms(2)]
  have "\<forall>qv. em_embed (mock_model d) query = Inr qv \<longrightarrow> nan_free (eng_store (re_engine r)) (rg_metric (re_cfg r)) qv"
    using moderate_rag_nan_free [OF I(2,1)] seam I(3) by simp
  from embedding_seam.retrieve_ok [OF seam I(1,3) this, of k] show ?thesis
    unfolding mock_model_def I(4) by simp
qed

section \<open>Counts\<close>

lemma rag_wf_counts:
  assumes "rag_wf r D"
  shows "document_count r = card (dom D)"
    and "vs_size (eng_store (re_engine r)) = (\<Sum>d \<in> dom D. length (the (D d)))"
proof -
  let ?A = "store_abs (eng_store (re_engine r))"
  let ?slots = "SIGMA d:dom D. {..<length (the (D d))}"
  have W: "store_wf (eng_store (re_engine r))" "distinct (map fst (re_doc_chunks r))"
    "map_of (re_doc_chunks r) = (\<lambda>d. map_option length (D d))" "holds_docs (re_model r) D ?A"
    using assms engine_wfD(1) [of "re_engine r"] by (simp_all add: rag_wf_def mem_engine_def)
  have dom: "dom D = set (map fst (re_doc_chunks r))"
    using W(3) dom_map_of_conv_image_fst [of "re_doc_chunks r"] by (auto simp: dom_def fun_eq_iff)
  then show "document_count r = card (dom D)"
    using distinct_card [OF W(2)] by (simp add: document_count_def)
  have "dom ?A = (\<lambda>(d, i). chunk_id d i) ` ?slots"
  proof
    show "dom ?A \<subseteq> (\<lambda>(d, i). chunk_id d i) ` ?slots"
      using W(4) by (fastforce simp: holds_docs_def image_iff)
    show "(\<lambda>(d, i). chunk_id d i) ` ?slots \<subseteq> dom ?A"
      using W(4) by (auto simp: holds_docs_def)
  qed
  moreover have "inj_on (\<lambda>(d, i). chunk_id d i) ?slots"
    by (auto simp: inj_on_def chunk_id_eq)
  ultimately have "card (dom ?A) = card ?slots"
    by (simp add: card_image)
  also have "\<dots> = (\<Sum>d \<in> dom D. length (the (D d)))"
    by (simp add: dom)
  finally show "vs_size (eng_store (re_engine r)) = (\<Sum>d \<in> dom D. length (the (D d)))"
    using size_card [OF W(1)] by simp
qed

section \<open>Properties\<close>

text \<open>C21: Whatever documents were ingested, replaced and removed, the engine with the hashing model holds exactly the
  chunks of the present documents and answers every query, without any condition on the texts: with at most \<open>k\<close>
  of these chunks, in order of their distance, which is never NaN. If the configuration retrieves at most ten chunks
  for a prompt and its budget covers the query and the reserve of 24 tokens, the prompt stays within the budget.\<close>

theorem rag_run_answers:
  assumes "rag_run d cfg reqs r" and "d \<noteq> 0"
  defines "D \<equiv> fold (docs_after (rg_chunk cfg)) reqs Map.empty"
  shows "rag_wf r D
    \<and> (\<exists>qv cs. mock_embed d query = Inr qv \<and> rag_retrieve query k r = Inr cs \<and> length cs \<le> k
         \<and> sorted_wrt (\<lambda>a b. f32_key (rc_score a) \<le> f32_key (rc_score b)) cs
         \<and> (\<forall>c \<in> set cs. \<not> f32_is_nan (rc_score c) \<and> (\<exists>ts v. D (rc_doc_id c) = Some ts \<and> rc_text c \<in> set ts
              \<and> mock_embed d (rc_text c) = Inr v \<and> rc_score c = metric_value (rg_metric cfg) qv v)))
    \<and> (rg_retrieve_k cfg \<le> 10 \<longrightarrow> approx_tokens query + kScaffoldTokens \<le> rg_token_budget cfg \<longrightarrow>
         (\<exists>prompt. rag_build_prompt query r = Inr prompt \<and> approx_tokens prompt \<le> rg_token_budget cfg))"
proof -
  have inv: "rag_inv d cfg D r"
    unfolding D_def by (rule rag_run_inv [OF assms(1,2)])
  then have W: "rag_wf r D" "re_cfg r = cfg"
    by (simp_all add: rag_inv_def)
  obtain qv cs where cs: "mock_embed d query = Inr qv" "rag_retrieve query k r = Inr cs" "length cs \<le> k"
    "sorted_wrt (\<lambda>a b. f32_key (rc_score a) \<le> f32_key (rc_score b)) cs"
    "\<forall>c \<in> set cs. \<exists>ts v. D (rc_doc_id c) = Some ts \<and> rc_text c \<in> set ts
       \<and> mock_embed d (rc_text c) = Inr v \<and> rc_score c = metric_value (rg_metric cfg) qv v"
    using rag_inv_retrieve [OF inv assms(2), of query k] by blast
  have "\<not> f32_is_nan (metric_value mk qv v)" if "mock_embed d t = Inr v" for mk v t
  proof (rule metric_not_nan)
    show "length qv = length v"
      using mock_embed_ok [OF assms(2), of query] mock_embed_ok [OF assms(2), of t] cs(1) that by simp
  qed (use mock_embed_moderate cs(1) that in blast)+
  with cs(5) have "\<forall>c \<in> set cs. \<not> f32_is_nan (rc_score c) \<and> (\<exists>ts v. D (rc_doc_id c) = Some ts \<and> rc_text c \<in> set ts
      \<and> mock_embed d (rc_text c) = Inr v \<and> rc_score c = metric_value (rg_metric cfg) qv v)"
    by metis
  moreover have "\<exists>prompt. rag_build_prompt query r = Inr prompt \<and> approx_tokens prompt \<le> rg_token_budget cfg"
    if "rg_retrieve_k cfg \<le> 10" "approx_tokens query + kScaffoldTokens \<le> rg_token_budget cfg"
  proof -
    obtain ps where "rag_retrieve query (rg_retrieve_k cfg) r = Inr ps" "length ps \<le> rg_retrieve_k cfg"
      using rag_inv_retrieve [OF inv assms(2), of query "rg_retrieve_k cfg"] by blast
    with prompt_fits [OF that(2), of ps] that(1) W(2) show ?thesis
      by (simp add: rag_build_prompt_def)
  qed
  ultimately show ?thesis
    using W(1) cs(1-4) by blast
qed

lemma demo_rag_run: "\<exists>r. rag_run 128 demo_rag_config [Ingest \<lparr>doc_id = ''d'', doc_text = ''a b c''\<rparr>] r"
proof -
  obtain r where r: "rag_new (\<lambda>_. 0) (mock_model 128) demo_rag_config = Inr r" "re_cfg r = demo_rag_config"
    "store_room (eng_store (re_engine r)) = 2 ^ 32 - 1"
    using rag_new_ok [OF mock.dim_pos] by blast
  have "length (chunk_text ''a b c'' \<lparr>cc_window = 2, cc_overlap = 0\<rparr>) = 2"
    using arg_cong [OF demo_chunks, of length] by simp
  then have "rag_room (Ingest \<lparr>doc_id = ''d'', doc_text = ''a b c''\<rparr>) r"
    by (simp add: r(2,3) demo_rag_config_def)
  from rag_run.step [OF rag_run.start [OF r(1)] this] show ?thesis
    by auto
qed

theorem rag_run_answers_witness:
  "\<exists>r cs. rag_run 128 demo_rag_config [Ingest \<lparr>doc_id = ''d'', doc_text = ''a b c''\<rparr>] r
     \<and> rag_retrieve ''b'' 3 r = Inr cs \<and> (\<forall>c \<in> set cs. rc_doc_id c = ''d'' \<and> rc_text c \<in> {''a b'', ''c''})"
proof -
  obtain r where r: "rag_run 128 demo_rag_config [Ingest \<lparr>doc_id = ''d'', doc_text = ''a b c''\<rparr>] r"
    using demo_rag_run by blast
  have D: "fold (docs_after (rg_chunk demo_rag_config)) [Ingest \<lparr>doc_id = ''d'', doc_text = ''a b c''\<rparr>] Map.empty = [''d'' \<mapsto> [''a b'', ''c'']]"
    by (simp add: demo_rag_config_def demo_chunks)
  obtain cs where "rag_retrieve ''b'' 3 r = Inr cs"
    "\<forall>c \<in> set cs. \<exists>ts. [''d'' \<mapsto> [''a b'', ''c'']] (rc_doc_id c) = Some ts \<and> rc_text c \<in> set ts"
    using rag_run_answers [OF r, of "''b''" 3] unfolding D by fastforce
  with r show ?thesis
    by (intro exI [of _ r] exI [of _ cs]) (auto split: if_splits)
qed

end
