(* ===== verification/Utf8_Text.thy ===== *)
theory Utf8_Text
  imports Rag_Text
begin

text \<open>
  Well-formed UTF-8, which the JSON library demands of every string that it reads or writes, and that the text
  processing of the RAG engine keeps it: the tokenizer cuts at blanks and lower-cases letters, both ASCII, so it
  never cuts or changes a multi-byte character.
\<close>

section \<open>Well-formed byte sequences\<close>

text \<open>The ranges of the bytes that must follow a first byte.\<close>

definition followers :: "nat \<Rightarrow> (nat \<times> nat) list option" where
  "followers b =
     (if b < 0x80 then Some []
      else if b < 0xC2 then None
      else if b < 0xE0 then Some [(0x80, 0xBF)]
      else if b = 0xE0 then Some [(0xA0, 0xBF), (0x80, 0xBF)]
      else if b = 0xED then Some [(0x80, 0x9F), (0x80, 0xBF)]
      else if b < 0xF0 then Some [(0x80, 0xBF), (0x80, 0xBF)]
      else if b = 0xF0 then Some [(0x90, 0xBF), (0x80, 0xBF), (0x80, 0xBF)]
      else if b < 0xF4 then Some [(0x80, 0xBF), (0x80, 0xBF), (0x80, 0xBF)]
      else if b = 0xF4 then Some [(0x80, 0x8F), (0x80, 0xBF), (0x80, 0xBF)]
      else None)"

text \<open>The rest of a text in the middle of a character whose remaining bytes lie in the given ranges.\<close>

fun utf8_from :: "(nat \<times> nat) list \<Rightarrow> string \<Rightarrow> bool" where
  "utf8_from ws [] \<longleftrightarrow> ws = []"
| "utf8_from [] (c # s) \<longleftrightarrow> (case followers (of_char c) of None \<Rightarrow> False | Some ws \<Rightarrow> utf8_from ws s)"
| "utf8_from ((lo, hi) # ws) (c # s) \<longleftrightarrow> lo \<le> of_char c \<and> of_char c \<le> hi \<and> utf8_from ws s"

definition utf8 :: "string \<Rightarrow> bool" where
  "utf8 s \<longleftrightarrow> utf8_from [] s"

lemma utf8_from_append: "utf8_from ws a \<Longrightarrow> utf8 b \<Longrightarrow> utf8_from ws (a @ b)"
  by (induction ws a rule: utf8_from.induct) (auto simp: utf8_def split: option.splits)

lemma utf8_append: "utf8 a \<Longrightarrow> utf8 b \<Longrightarrow> utf8 (a @ b)"
  using utf8_from_append by (simp add: utf8_def)

lemma utf8_concat: "\<forall>s \<in> set ss. utf8 s \<Longrightarrow> utf8 (concat ss)"
  by (induction ss) (auto simp: utf8_append, simp add: utf8_def)

lemma utf8_ascii: "list_all (\<lambda>c. of_char c < (128 :: nat)) s \<Longrightarrow> utf8 s"
  by (induction s) (auto simp: utf8_def followers_def)

section \<open>Tokens\<close>

text \<open>Inside a character no byte is ASCII.\<close>

definition inner :: "(nat \<times> nat) list \<Rightarrow> bool" where
  "inner ws \<longleftrightarrow> (\<forall>(lo, hi) \<in> set ws. 128 \<le> lo)"

lemma followers_inner: "followers b = Some ws \<Longrightarrow> inner ws"
  by (auto simp: followers_def inner_def split: if_splits)

lemma followers_lower: "followers (of_char (to_lower c)) = followers (of_char c)"
  by (auto simp: to_lower_def followers_def)

lemma to_lower_high: "128 \<le> (of_char c :: nat) \<Longrightarrow> to_lower c = c"
  by (simp add: to_lower_def)

lemma utf8_at_space:
  assumes "utf8_from ws (c # s)" and "is_space c" and "inner ws"
  shows "ws = [] \<and> utf8 s"
proof -
  have c: "of_char c < (128 :: nat)"
    using assms(2) by (auto simp: is_space_def)
  show ?thesis
    using assms(1,3) c by (cases ws) (auto simp: inner_def utf8_def followers_def)
qed

text \<open>A character goes on: what was a beginning of a text in one state is, with it, one in the next.\<close>

lemma utf8_next:
  assumes "utf8_from ws (c # s)" and "inner ws" and "\<And>b. utf8_from ws b \<Longrightarrow> utf8 (cur @ b)"
  shows "\<exists>ws'. utf8_from ws' s \<and> inner ws' \<and> (\<forall>b. utf8_from ws' b \<longrightarrow> utf8 ((cur @ [to_lower c]) @ b))"
proof (cases ws)
  case Nil
  then obtain ws' where "followers (of_char c) = Some ws'" "utf8_from ws' s"
    using assms(1) by (auto split: option.splits)
  then show ?thesis
    using assms(3) Nil followers_inner followers_lower [of c] by (intro exI [of _ ws']) auto
next
  case (Cons w ws')
  obtain lo hi where w: "w = (lo, hi)" by (cases w)
  have "128 \<le> (of_char c :: nat)"
    using assms(1,2) by (simp add: Cons w inner_def)
  then show ?thesis
    using assms by (intro exI [of _ ws']) (auto simp: Cons w inner_def to_lower_high)
qed

lemma scan_utf8:
  assumes "utf8_from ws s" and "inner ws" and "\<And>b. utf8_from ws b \<Longrightarrow> utf8 (cur @ b)"
  shows "\<forall>t \<in> set (scan s cur). utf8 t"
  using assms
proof (induction s arbitrary: ws cur)
  case Nil
  then show ?case
    using Nil.prems(3) [of "[]"] by auto
next
  case (Cons c s)
  show ?case
  proof (cases "is_space c")
    case True
    then have sp: "ws = []" "utf8 s"
      using utf8_at_space [OF Cons.prems(1) _ Cons.prems(2)] by auto
    then have "\<forall>t \<in> set (scan s []). utf8 t"
      by (intro Cons.IH [of "[]"]) (simp_all add: utf8_def inner_def)
    moreover have "utf8 cur"
      using Cons.prems(3) [of "[]"] sp(1) by simp
    ultimately show ?thesis
      using True by auto
  next
    case False
    obtain ws' where "utf8_from ws' s" "inner ws'" "\<forall>b. utf8_from ws' b \<longrightarrow> utf8 ((cur @ [to_lower c]) @ b)"
      using utf8_next [OF Cons.prems] by blast
    then show ?thesis
      using Cons.IH [of ws' "cur @ [to_lower c]"] False by simp
  qed
qed

lemma tokenize_utf8: "utf8 s \<Longrightarrow> \<forall>t \<in> set (tokenize s). utf8 t"
  using scan_utf8 [of "[]" s "[]"] by (simp add: tokenize_scan utf8_def inner_def)

section \<open>Chunks and prompts\<close>

lemma utf8_blank: "utf8 '' ''" "utf8 newline" "utf8 ''- ''"
  by (rule utf8_ascii, simp add: newline_def)+

lemma join_words_utf8: "\<forall>t \<in> set ts. utf8 t \<Longrightarrow> utf8 (join_words ts)"
  by (induction ts rule: join_words.induct) (auto intro!: utf8_append simp: utf8_blank simp del: append_Cons append_Nil, simp add: utf8_def)

text \<open>Every chunk of a well-formed text is well-formed.\<close>

lemma chunk_text_utf8:
  assumes "utf8 text"
  shows "\<forall>c \<in> set (chunk_text text cfg). utf8 (ck_text c)"
proof
  fix c
  assume c: "c \<in> set (chunk_text text cfg)"
  let ?tokens = "tokenize text"
  have ne: "0 < length ?tokens"
    using c by (cases "?tokens = []") (simp_all add: chunk_text_def)
  then have "c \<in> set (chunk_loop cfg ?tokens 0 [])"
    using c by (auto simp: chunk_text_def)
  then obtain start where s: "c = chunk_at cfg ?tokens start" "start < length ?tokens"
    using chunk_loop_shape [OF ne, of cfg] by (auto simp: Let_def in_set_conv_nth)
  then have "ck_text c = join_words (take (chunk_window cfg) (drop start ?tokens))"
    by (simp add: chunk_at_def Let_def join_range_words min_def)
  moreover have "\<forall>t \<in> set (take (chunk_window cfg) (drop start ?tokens)). utf8 t"
    using tokenize_utf8 [OF assms] by (meson in_set_dropD in_set_takeD)
  ultimately show "utf8 (ck_text c)"
    by (simp add: join_words_utf8)
qed

lemma prompt_utf8:
  assumes "utf8 query" and "\<forall>c \<in> set cs. utf8 (rc_text c)"
  shows "utf8 (build_prompt_text budget query cs)"
proof -
  have "utf8 (entry_text c)" if "c \<in> set cs" for c
    unfolding entry_text_def by (intro utf8_append utf8_blank) (use assms(2) that in blast)
  then have "utf8 (concat (map entry_text (take n cs)))" for n
    by (intro utf8_concat) (auto dest!: in_set_takeD)
  moreover have "utf8 ''You are a helpful assistant. Answer using only the context below.''" "utf8 ''Context:''"
    "utf8 ''Question: ''" "utf8 ''Answer:''"
    by (rule utf8_ascii, simp)+
  ultimately show ?thesis
    unfolding build_prompt_text_def add_context_fitting append_Nil by (intro utf8_append utf8_blank assms(1))
qed

end
