(* ===== verification/Server.thy ===== *)
theory Server
  imports Rag_Runs Utf8_Text
begin

text \<open>
  \<^verbatim>\<open>server/server.cpp\<close>: the JSON interface over a vector engine and a RAG engine. Every handler reads its request
  without touching the engines and then works on them under one mutex, so a handler is one step on the pair of
  engines. The JSON library is a parameter, the record \<open>json_lib\<close> of the operations the handlers call; routing is
  done by the HTTP library, so a request names its endpoint and carries the body or the matched id.
\<close>

section \<open>Requests and replies\<close>

text \<open>The documents the handlers build, before they are serialised.\<close>

datatype reply =
    Stats_reply dim string string nat dim nat nat
  | Inserted_reply string internal_id
  | Hits_reply "(string \<times> score) list"
  | Existed_reply bool
  | Chunks_reply nat
  | Passages_reply "retrieved_chunk list"
  | Prompt_reply string
  | Error_reply string

text \<open>
  Where an exception comes from: the work on a request with the given body or id, or the serialisation of a reply. Its
  text, \<^verbatim>\<open>e.what()\<close>, may quote either: the JSON library puts the offending bytes of a body into its messages.
\<close>

datatype raised = In_request string | In_reply reply

text \<open>
  What the handlers use of the JSON library. Operations that throw return a result; \<open>js_dump\<close> takes the indentation,
  which is negative for the compact form, and \<open>js_what\<close> gives the text of an exception.
\<close>

record 'j json_lib =
  js_parse :: "string \<Rightarrow> 'j res"
  js_at :: "'j \<Rightarrow> string \<Rightarrow> 'j res"
  js_index :: "'j \<Rightarrow> string \<Rightarrow> 'j res"
  js_contains :: "'j \<Rightarrow> string \<Rightarrow> bool"
  js_is_string :: "'j \<Rightarrow> bool"
  js_is_boolean :: "'j \<Rightarrow> bool"
  js_is_number_integer :: "'j \<Rightarrow> bool"
  js_is_number_float :: "'j \<Rightarrow> bool"
  js_is_object :: "'j \<Rightarrow> bool"
  js_empty :: "'j \<Rightarrow> bool"
  js_items :: "'j \<Rightarrow> (string \<times> 'j) list"
  js_elements :: "'j \<Rightarrow> 'j list"
  js_get_string :: "'j \<Rightarrow> string res"
  js_get_bool :: "'j \<Rightarrow> bool res"
  js_get_int64 :: "'j \<Rightarrow> u64 res"
  js_get_double :: "'j \<Rightarrow> f64 res"
  js_get_float :: "'j \<Rightarrow> f32 res"
  js_value_size :: "'j \<Rightarrow> string \<Rightarrow> nat \<Rightarrow> nat res"
  js_dump_value :: "'j \<Rightarrow> string res"
  js_dump :: "int \<Rightarrow> reply \<Rightarrow> string res"
  js_what :: "raised \<Rightarrow> error \<Rightarrow> string"

text \<open>A response, an exception that leaves the handler, or a run into undefined behaviour.\<close>

datatype outcome = Response nat string | Escaped error | Crashed

datatype http_request =
    Options
  | Get_stats
  | Post_vectors string
  | Post_search string
  | Delete_vector string
  | Post_documents string
  | Delete_document string
  | Post_rag_search string
  | Post_rag_prompt string

section \<open>Reading JSON\<close>

definition json_to_meta_value :: "'j json_lib \<Rightarrow> 'j \<Rightarrow> meta_value res" where
  "json_to_meta_value J v =
     (if js_is_string J v then rbind (js_get_string J v) (\<lambda>s. Inr (MString s))
      else if js_is_boolean J v then rbind (js_get_bool J v) (\<lambda>b. Inr (MBool b))
      else if js_is_number_integer J v then rbind (js_get_int64 J v) (\<lambda>i. Inr (MInt i))
      else if js_is_number_float J v then rbind (js_get_double J v) (\<lambda>d. Inr (MDouble d))
      else rbind (js_dump_value J v) (\<lambda>s. Inr (MString s)))"

definition json_to_metadata :: "'j json_lib \<Rightarrow> 'j \<Rightarrow> metadata res" where
  "json_to_metadata J obj =
     (if js_is_object J obj
      then rfold (\<lambda>(k, v) m. rbind (json_to_meta_value J v) (\<lambda>x. Inr (meta_assign k x m))) (js_items J obj) []
      else Inr [])"

definition json_to_filter :: "'j json_lib \<Rightarrow> 'j \<Rightarrow> filter option res" where
  "json_to_filter J obj =
     (if \<not> js_is_object J obj \<or> js_empty J obj then Inr None
      else rbind (rfold (\<lambda>(k, v) cs. rbind (json_to_meta_value J v) (\<lambda>x. Inr (cs @ [filter_eq k x]))) (js_items J obj) [])
             (\<lambda>cs. Inr (Some (filter_all_of cs))))"

definition json_to_vector :: "'j json_lib \<Rightarrow> 'j \<Rightarrow> fvec res" where
  "json_to_vector J arr = rfold (\<lambda>x v. rbind (js_get_float J x) (\<lambda>f. Inr (v @ [f]))) (js_elements J arr) []"

section \<open>State\<close>

record server =
  sv_vec :: engine
  sv_rag :: rag_engine

definition kVecDim :: dim where
  "kVecDim = 4"

definition vec_config :: "(nat \<Rightarrow> nat) \<Rightarrow> engine_config" where
  "vec_config levels = \<lparr>cfg_dim = kVecDim, cfg_metric = L2, cfg_index = Hnsw_kind, cfg_hnsw = default_hnsw levels,
     cfg_persistence = None\<rparr>"

definition embed_model :: embedding_model where
  "embed_model = mock_model 256"

definition rag_cfg :: rag_config where
  "rag_cfg = \<lparr>rg_chunk = \<lparr>cc_window = 40, cc_overlap = 8\<rparr>, rg_metric = Cosine, rg_index = Flat_kind, rg_retrieve_k = 5,
     rg_token_budget = 512\<rparr>"

text \<open>What \<^verbatim>\<open>main\<close> constructs before it listens; the levels the two engines draw are parameters.\<close>

definition server_new :: "(nat \<Rightarrow> nat) \<Rightarrow> (nat \<Rightarrow> nat) \<Rightarrow> server res" where
  "server_new vec_levels rag_levels =
     rbind (engine_new (vec_config vec_levels) True no_disk [] no_calls) (\<lambda>e.
     rbind (rag_new rag_levels embed_model rag_cfg) (\<lambda>r. Inr \<lparr>sv_vec = e, sv_rag = r\<rparr>))"

section \<open>Handlers\<close>

text \<open>\<^verbatim>\<open>fail\<close>, and the \<^verbatim>\<open>catch (const std::exception&)\<close> of the handlers, which undefined behaviour does not reach.\<close>

definition fail :: "'j json_lib \<Rightarrow> nat \<Rightarrow> string \<Rightarrow> outcome" where
  "fail J code msg =
     (case js_dump J (- 1) (Error_reply msg) of
        Inr s \<Rightarrow> Response code s
      | Inl er' \<Rightarrow> if er' = Undefined_behaviour then Crashed else Escaped er')"

definition caught :: "'j json_lib \<Rightarrow> raised \<Rightarrow> error \<Rightarrow> outcome" where
  "caught J src er = (if er = Undefined_behaviour then Crashed else fail J 400 (js_what J src er))"

definition answer :: "'j json_lib \<Rightarrow> reply \<Rightarrow> outcome" where
  "answer J r = (case js_dump J (- 1) r of Inl er \<Rightarrow> caught J (In_reply r) er | Inr s \<Rightarrow> Response 200 s)"

definition stats_reply :: "server \<Rightarrow> reply" where
  "stats_reply sv = Stats_reply kVecDim ''l2'' (index_name (eng_index (sv_vec sv))) (vs_size (eng_store (sv_vec sv)))
     (em_dim embed_model) (document_count (sv_rag sv)) (vs_size (eng_store (re_engine (sv_rag sv))))"

text \<open>This handler has no \<^verbatim>\<open>try\<close>.\<close>

definition get_stats :: "'j json_lib \<Rightarrow> server \<Rightarrow> server \<times> outcome" where
  "get_stats J sv =
     (sv, case js_dump J 2 (stats_reply sv) of
            Inr s \<Rightarrow> Response 200 s
          | Inl er \<Rightarrow> if er = Undefined_behaviour then Crashed else Escaped er)"

definition read_vector_body :: "'j json_lib \<Rightarrow> string \<Rightarrow> (string \<times> fvec \<times> metadata) res" where
  "read_vector_body J text =
     rbind (js_parse J text) (\<lambda>body.
     rbind (rbind (js_at J body ''id'') (js_get_string J)) (\<lambda>ext.
     rbind (rbind (js_at J body ''vector'') (json_to_vector J)) (\<lambda>vec.
     rbind (if js_contains J body ''metadata'' then rbind (js_index J body ''metadata'') (json_to_metadata J) else Inr [])
       (\<lambda>meta. Inr (ext, vec, meta)))))"

definition post_vectors :: "'j json_lib \<Rightarrow> string \<Rightarrow> server \<Rightarrow> server \<times> outcome" where
  "post_vectors J text sv =
     (case read_vector_body J text of
        Inl er \<Rightarrow> (sv, caught J (In_request text) er)
      | Inr (ext, vec, meta) \<Rightarrow>
          (case engine_insert ext vec meta (sv_vec sv) of
             (e, Inl er) \<Rightarrow> (sv\<lparr>sv_vec := e\<rparr>, caught J (In_request text) er)
           | (e, Inr iid) \<Rightarrow> (sv\<lparr>sv_vec := e\<rparr>, answer J (Inserted_reply ext iid))))"

definition read_search_body :: "'j json_lib \<Rightarrow> string \<Rightarrow> (fvec \<times> nat \<times> nat \<times> filter option) res" where
  "read_search_body J text =
     rbind (js_parse J text) (\<lambda>body.
     rbind (rbind (js_at J body ''vector'') (json_to_vector J)) (\<lambda>q.
     rbind (js_value_size J body ''k'' 10) (\<lambda>k.
     rbind (js_value_size J body ''ef'' 0) (\<lambda>ef.
     rbind (if js_contains J body ''filter'' then rbind (js_index J body ''filter'') (json_to_filter J) else Inr None)
       (\<lambda>f. Inr (q, k, ef, f))))))"

definition name_hits :: "vector_store \<Rightarrow> search_result list \<Rightarrow> (string \<times> score) list res" where
  "name_hits s hits = rfold (\<lambda>h arr. rbind (external_id s (sr_id h)) (\<lambda>k. Inr (arr @ [(k, sr_score h)]))) hits []"

definition post_search :: "'j json_lib \<Rightarrow> string \<Rightarrow> server \<Rightarrow> server \<times> outcome" where
  "post_search J text sv =
     (sv, case rbind (read_search_body J text) (\<lambda>(q, k, ef, f).
                 rbind (engine_search q k f ef (sv_vec sv)) (name_hits (eng_store (sv_vec sv)))) of
            Inl er \<Rightarrow> caught J (In_request text) er
          | Inr arr \<Rightarrow> answer J (Hits_reply arr))"

definition delete_vector :: "'j json_lib \<Rightarrow> string \<Rightarrow> server \<Rightarrow> server \<times> outcome" where
  "delete_vector J ext sv =
     (case engine_erase ext (sv_vec sv) of
        (e, Inl er) \<Rightarrow> (sv\<lparr>sv_vec := e\<rparr>, caught J (In_request ext) er)
      | (e, Inr existed) \<Rightarrow> (sv\<lparr>sv_vec := e\<rparr>, answer J (Existed_reply existed)))"

definition read_document_body :: "'j json_lib \<Rightarrow> string \<Rightarrow> document res" where
  "read_document_body J text =
     rbind (js_parse J text) (\<lambda>body.
     rbind (rbind (js_at J body ''id'') (js_get_string J)) (\<lambda>ext.
     rbind (rbind (js_at J body ''text'') (js_get_string J)) (\<lambda>txt. Inr \<lparr>doc_id = ext, doc_text = txt\<rparr>)))"

definition post_documents :: "'j json_lib \<Rightarrow> string \<Rightarrow> server \<Rightarrow> server \<times> outcome" where
  "post_documents J text sv =
     (case read_document_body J text of
        Inl er \<Rightarrow> (sv, caught J (In_request text) er)
      | Inr doc \<Rightarrow>
          (case rag_ingest doc (sv_rag sv) of
             (r, Inl er) \<Rightarrow> (sv\<lparr>sv_rag := r\<rparr>, caught J (In_request text) er)
           | (r, Inr chunks) \<Rightarrow> (sv\<lparr>sv_rag := r\<rparr>, answer J (Chunks_reply chunks))))"

definition delete_document :: "'j json_lib \<Rightarrow> string \<Rightarrow> server \<Rightarrow> server \<times> outcome" where
  "delete_document J ext sv =
     (case rag_remove ext (sv_rag sv) of
        (r, Inl er) \<Rightarrow> (sv\<lparr>sv_rag := r\<rparr>, caught J (In_request ext) er)
      | (r, Inr existed) \<Rightarrow> (sv\<lparr>sv_rag := r\<rparr>, answer J (Existed_reply existed)))"

definition read_query_body :: "'j json_lib \<Rightarrow> string \<Rightarrow> ('j \<times> string) res" where
  "read_query_body J text =
     rbind (js_parse J text) (\<lambda>body.
     rbind (rbind (js_at J body ''query'') (js_get_string J)) (\<lambda>query. Inr (body, query)))"

definition rag_search :: "'j json_lib \<Rightarrow> string \<Rightarrow> server \<Rightarrow> server \<times> outcome" where
  "rag_search J text sv =
     (sv, case rbind (read_query_body J text) (\<lambda>(body, query).
                 rbind (js_value_size J body ''k'' 5) (\<lambda>k. rag_retrieve query k (sv_rag sv))) of
            Inl er \<Rightarrow> caught J (In_request text) er
          | Inr hits \<Rightarrow> answer J (Passages_reply hits))"

definition rag_prompt :: "'j json_lib \<Rightarrow> string \<Rightarrow> server \<Rightarrow> server \<times> outcome" where
  "rag_prompt J text sv =
     (sv, case rbind (read_query_body J text) (\<lambda>(_, query). rag_build_prompt query (sv_rag sv)) of
            Inl er \<Rightarrow> caught J (In_request text) er
          | Inr prompt \<Rightarrow> answer J (Prompt_reply prompt))"

text \<open>The table of handlers.\<close>

fun serve :: "'j json_lib \<Rightarrow> http_request \<Rightarrow> server \<Rightarrow> server \<times> outcome" where
  "serve J Options sv = (sv, Response 204 [])"
| "serve J Get_stats sv = get_stats J sv"
| "serve J (Post_vectors text) sv = post_vectors J text sv"
| "serve J (Post_search text) sv = post_search J text sv"
| "serve J (Delete_vector ext) sv = delete_vector J ext sv"
| "serve J (Post_documents text) sv = post_documents J text sv"
| "serve J (Delete_document ext) sv = delete_document J ext sv"
| "serve J (Post_rag_search text) sv = rag_search J text sv"
| "serve J (Post_rag_prompt text) sv = rag_prompt J text sv"

section \<open>What is assumed of the JSON library\<close>

text \<open>
  Operations of the library report misuse by an exception; \<^verbatim>\<open>operator[]\<close> needs the key to be present. A text that is
  not UTF-8 is not parsed, so the strings of a parsed body are; and a document is serialised if its strings are UTF-8.
  Nothing is assumed of \<^verbatim>\<open>value\<close> with a number for its default, whose conversion may be undefined, and of the texts of exceptions.
\<close>

fun reply_strings :: "reply \<Rightarrow> string list" where
  "reply_strings (Stats_reply _ met ind _ _ _ _) = [met, ind]"
| "reply_strings (Inserted_reply ext _) = [ext]"
| "reply_strings (Hits_reply arr) = map fst arr"
| "reply_strings (Existed_reply _) = []"
| "reply_strings (Chunks_reply _) = []"
| "reply_strings (Passages_reply hits) = map rc_doc_id hits @ map rc_text hits"
| "reply_strings (Prompt_reply prompt) = [prompt]"
| "reply_strings (Error_reply msg) = [msg]"

definition safe :: "'a res \<Rightarrow> bool" where
  "safe r \<longleftrightarrow> r \<noteq> Inl Undefined_behaviour"

definition json_ok :: "'j json_lib \<Rightarrow> bool" where
  "json_ok J \<longleftrightarrow>
     (\<forall>t. safe (js_parse J t)) \<and> (\<forall>j k. safe (js_at J j k))
   \<and> (\<forall>j k. js_contains J j k \<longrightarrow> safe (js_index J j k))
   \<and> (\<forall>j. safe (js_get_string J j)) \<and> (\<forall>j. safe (js_get_bool J j)) \<and> (\<forall>j. safe (js_get_int64 J j))
   \<and> (\<forall>j. safe (js_get_double J j)) \<and> (\<forall>j. safe (js_get_float J j))
   \<and> (\<forall>j. safe (js_dump_value J j)) \<and> (\<forall>i r. safe (js_dump J i r))
   \<and> (\<forall>t body k v s. js_parse J t = Inr body \<longrightarrow> js_at J body k = Inr v \<longrightarrow> js_get_string J v = Inr s \<longrightarrow> utf8 s)
   \<and> (\<forall>i r. list_all utf8 (reply_strings r) \<longrightarrow> (\<exists>s. js_dump J i r = Inr s))"

lemma safe_simps [simp]: "safe (Inr x)" "safe (Inl e) \<longleftrightarrow> e \<noteq> Undefined_behaviour"
  by (simp_all add: safe_def)

lemma safe_rbind: "safe m \<Longrightarrow> (\<And>x. m = Inr x \<Longrightarrow> safe (f x)) \<Longrightarrow> safe (rbind m f)"
  by (cases m) simp_all

lemma safe_rfold: "(\<And>x s. x \<in> set xs \<Longrightarrow> safe (f x s)) \<Longrightarrow> safe (rfold f xs s)"
  by (induction xs arbitrary: s) (auto intro: safe_rbind)

lemma json_ok_safe:
  assumes "json_ok J"
  shows "safe (js_parse J t)" "safe (js_at J j k)" "js_contains J j k \<Longrightarrow> safe (js_index J j k)"
    "safe (js_get_string J j)" "safe (js_get_bool J j)" "safe (js_get_int64 J j)" "safe (js_get_double J j)"
    "safe (js_get_float J j)" "safe (js_dump_value J j)" "safe (js_dump J i r)"
  using assms unfolding json_ok_def by blast+

lemma json_ok_utf8:
  assumes "json_ok J"
  shows "js_parse J t = Inr body \<Longrightarrow> js_at J body k = Inr v \<Longrightarrow> js_get_string J v = Inr s \<Longrightarrow> utf8 s"
    and "list_all utf8 (reply_strings r) \<Longrightarrow> \<exists>s. js_dump J i r = Inr s"
  using assms unfolding json_ok_def by blast+

lemma json_readers_safe:
  assumes "json_ok J"
  shows "safe (json_to_meta_value J v)" "safe (json_to_metadata J v)" "safe (json_to_filter J v)" "safe (json_to_vector J v)"
proof -
  note s = json_ok_safe [OF assms]
  show *: "safe (json_to_meta_value J v)" for v
    by (auto simp: json_to_meta_value_def intro!: safe_rbind s)
  show "safe (json_to_metadata J v)" "safe (json_to_filter J v)" "safe (json_to_vector J v)"
    by (auto simp: json_to_metadata_def json_to_filter_def json_to_vector_def intro!: safe_rbind safe_rfold s *)
qed

lemma read_bodies_safe:
  assumes "json_ok J"
  shows "safe (read_vector_body J t)" "safe (read_document_body J t)" "safe (read_query_body J t)"
  by (auto simp: read_vector_body_def read_document_body_def read_query_body_def
      intro!: safe_rbind json_ok_safe [OF assms] json_readers_safe [OF assms])

lemma rfold_preserves:
  assumes "rfold f xs s = Inr s'" and "P s" and "\<And>x s s'. x \<in> set xs \<Longrightarrow> f x s = Inr s' \<Longrightarrow> P s \<Longrightarrow> P s'"
  shows "P s'"
  using assms
proof (induction xs arbitrary: s)
  case (Cons x xs)
  then obtain t where "f x s = Inr t" "rfold f xs t = Inr s'"
    by (auto simp: rbind_eq_Inr)
  with Cons show ?case
    by (metis list.set_intros)
qed simp

lemma json_to_metadata_wf: "json_to_metadata J obj = Inr m \<Longrightarrow> meta_wf m"
  by (auto simp: json_to_metadata_def meta_wf_def meta_assign_def rbind_eq_Inr distinct_update split: if_splits
      elim!: rfold_preserves [where P = "\<lambda>m. distinct (map fst m)"])

lemma read_vector_meta_wf: "read_vector_body J t = Inr (k, v, m) \<Longrightarrow> meta_wf m"
  by (auto simp: read_vector_body_def rbind_eq_Inr json_to_metadata_wf split: if_splits) (simp add: meta_wf_def)

lemma read_strings_utf8:
  assumes "json_ok J"
  shows "read_vector_body J t = Inr (k, v, m) \<Longrightarrow> utf8 k"
    and "read_document_body J t = Inr doc \<Longrightarrow> utf8 (doc_id doc) \<and> utf8 (doc_text doc)"
    and "read_query_body J t = Inr (body, query) \<Longrightarrow> utf8 query"
  using json_ok_utf8(1) [OF assms]
  by (auto simp: read_vector_body_def read_document_body_def read_query_body_def rbind_eq_Inr)

text \<open>A reply of UTF-8 strings is sent; an exception gives status 400, unless its text is not UTF-8 and \<^verbatim>\<open>fail\<close> throws.\<close>

lemma answer_utf8: "json_ok J \<Longrightarrow> list_all utf8 (reply_strings r) \<Longrightarrow> \<exists>s. answer J r = Response 200 s"
  using json_ok_utf8(2) [of J r "- 1"] by (auto simp: answer_def)

lemma caught_outcome:
  assumes "json_ok J" and "er \<noteq> Undefined_behaviour"
  shows "(\<exists>s. caught J src er = Response 400 s) \<or> (\<not> utf8 (js_what J src er) \<and> (\<exists>er'. caught J src er = Escaped er'))"
  using json_ok_utf8(2) [OF assms(1), of "Error_reply (js_what J src er)" "- 1"]
    json_ok_safe(10) [OF assms(1), of "- 1" "Error_reply (js_what J src er)"] assms(2)
  by (auto simp: caught_def fail_def safe_def split: sum.splits)

section \<open>The server refines two maps\<close>

text \<open>The logical state: the vectors by id, and the chunks of the documents by id.\<close>

type_synonym contents = "(string \<rightharpoonup> fvec \<times> metadata) \<times> (string \<rightharpoonup> string list)"

definition server_wf :: "server \<Rightarrow> contents \<Rightarrow> bool" where
  "server_wf sv = (\<lambda>(vectors, docs).
     mem_engine (sv_vec sv) \<and> cfg_dim (eng_cfg (sv_vec sv)) = kVecDim \<and> cfg_metric (eng_cfg (sv_vec sv)) = L2
   \<and> store_abs (eng_store (sv_vec sv)) = vectors
   \<and> rag_wf (sv_rag sv) docs \<and> re_model (sv_rag sv) = embed_model \<and> re_cfg (sv_rag sv) = rag_cfg
   \<and> moderate_store (eng_store (sv_vec sv)) \<and> moderate_rag (sv_rag sv))"

definition doc_chunks :: "string \<Rightarrow> string list" where
  "doc_chunks text = map ck_text (chunk_text text (rg_chunk rag_cfg))"

lemma length_doc_chunks: "length (doc_chunks text) = length (chunk_text text (rg_chunk rag_cfg))"
  by (simp add: doc_chunks_def)

text \<open>What a request means for the logical state.\<close>

fun request_effect :: "'j json_lib \<Rightarrow> http_request \<Rightarrow> contents \<Rightarrow> contents" where
  "request_effect J (Post_vectors text) (V, D) =
     (case read_vector_body J text of
        Inl _ \<Rightarrow> (V, D)
      | Inr (k, v, m) \<Rightarrow> (if length v = 4 then V(k \<mapsto> (v, m)) else V, D))"
| "request_effect J (Delete_vector k) (V, D) = (V(k := None), D)"
| "request_effect J (Post_documents text) (V, D) =
     (case read_document_body J text of
        Inl _ \<Rightarrow> (V, D)
      | Inr doc \<Rightarrow> (V, D(doc_id doc := (if doc_chunks (doc_text doc) = [] then None else Some (doc_chunks (doc_text doc))))))"
| "request_effect J (Delete_document d) (V, D) = (V, D(d := None))"
| "request_effect J _ (V, D) = (V, D)"

text \<open>The ids and the texts the server may have to send.\<close>

definition contents_utf8 :: "contents \<Rightarrow> bool" where
  "contents_utf8 = (\<lambda>(V, D). (\<forall>k \<in> dom V. utf8 k) \<and> (\<forall>d ts. D d = Some ts \<longrightarrow> utf8 d \<and> (\<forall>t \<in> set ts. utf8 t)))"

lemma request_effect_utf8:
  assumes J: "json_ok J" and c: "contents_utf8 c"
  shows "contents_utf8 (request_effect J req c)"
proof -
  obtain V D where VD: "c = (V, D)" by (cases c)
  have chunks: "\<forall>t \<in> set (doc_chunks w). utf8 t" if "utf8 w" for w
    using chunk_text_utf8 [OF that] by (auto simp: doc_chunks_def)
  show ?thesis
  proof (cases req)
    case (Post_vectors t)
    show ?thesis
    proof (cases "read_vector_body J t")
      case (Inr x)
      then show ?thesis
        using c read_strings_utf8(1) [OF J, of t] by (cases x) (auto simp: VD Post_vectors contents_utf8_def)
    qed (use c in \<open>simp add: VD Post_vectors\<close>)
  next
    case (Post_documents t)
    then show ?thesis
      using c read_strings_utf8(2) [OF J, of t] chunks
      by (cases "read_document_body J t") (auto simp: VD contents_utf8_def)
  qed (use c in \<open>auto simp: VD contents_utf8_def\<close>)
qed

text \<open>
  The limits under which a request is considered: ids and vector lengths fit 32 bits, the vectors a client
  sends have components of magnitude at most \<open>2 ^ 50\<close>, so that no distance is NaN, and the numbers \<^verbatim>\<open>k\<close> and \<^verbatim>\<open>ef\<close> of a
  request are in the range of \<^verbatim>\<open>std::size_t\<close>, so that their conversion is defined.
\<close>

fun sane :: "'j json_lib \<Rightarrow> http_request \<Rightarrow> server \<Rightarrow> bool" where
  "sane J (Post_vectors text) sv =
     (case read_vector_body J text of
        Inl _ \<Rightarrow> True
      | Inr (k, v, m) \<Rightarrow> length v < 2 ^ 32 \<and> moderate v \<and> 0 < store_room (eng_store (sv_vec sv)))"
| "sane J (Post_search text) sv =
     (case read_search_body J text of Inl er \<Rightarrow> er \<noteq> Undefined_behaviour | Inr (q, _) \<Rightarrow> moderate q)"
| "sane J (Post_documents text) sv =
     (case read_document_body J text of
        Inl _ \<Rightarrow> True
      | Inr doc \<Rightarrow> length (doc_chunks (doc_text doc)) \<le> store_room (eng_store (re_engine (sv_rag sv))))"
| "sane J (Post_rag_search text) sv =
     (case read_query_body J text of Inl _ \<Rightarrow> True | Inr (body, _) \<Rightarrow> js_value_size J body ''k'' 5 \<noteq> Inl Undefined_behaviour)"
| "sane J _ sv = True"

lemma embed_model_seam: "embedding_seam embed_model"
  using mock_model_seam [of 256] by (simp add: embed_model_def)

interpretation served: embedding_seam embed_model
  by (rule embed_model_seam)

lemma server_wfD:
  assumes "server_wf sv (V, D)"
  shows "mem_engine (sv_vec sv)" "cfg_dim (eng_cfg (sv_vec sv)) = kVecDim" "cfg_metric (eng_cfg (sv_vec sv)) = L2"
    "store_abs (eng_store (sv_vec sv)) = V" "rag_wf (sv_rag sv) D" "re_model (sv_rag sv) = embed_model" "re_cfg (sv_rag sv) = rag_cfg"
    "moderate_store (eng_store (sv_vec sv))" "moderate_rag (sv_rag sv)"
  using assms by (simp_all add: server_wf_def)

lemma server_wf_vec:
  assumes "server_wf sv (V, D)" and "mem_engine e" and "eng_cfg e = eng_cfg (sv_vec sv)" and "store_abs (eng_store e) = V'"
    and "moderate_store (eng_store e)"
  shows "server_wf (sv\<lparr>sv_vec := e\<rparr>) (V', D)"
  using assms by (simp add: server_wf_def)

lemma server_wf_rag:
  assumes "server_wf sv (V, D)" and "rag_wf r D'" and "re_model r = re_model (sv_rag sv)" and "re_cfg r = re_cfg (sv_rag sv)"
    and "moderate_rag r"
  shows "server_wf (sv\<lparr>sv_rag := r\<rparr>) (V, D')"
  using assms by (simp add: server_wf_def)

lemma server_new_ok: "\<exists>sv. server_new lv lr = Inr sv \<and> server_wf sv (Map.empty, Map.empty)
    \<and> store_room (eng_store (sv_vec sv)) = 2 ^ 32 - 1 \<and> store_room (eng_store (re_engine (sv_rag sv))) = 2 ^ 32 - 1"
proof -
  obtain r where r: "rag_new lr embed_model rag_cfg = Inr r" "re_model r = embed_model" "re_cfg r = rag_cfg" "rag_wf r Map.empty"
    "store_room (eng_store (re_engine r)) = 2 ^ 32 - 1"
    using rag_new_ok [OF served.dim_pos] by blast
  have mod: "moderate_rag r"
    using rag_inv_new [of 256 lr rag_cfg r] r(1) by (simp add: embed_model_def rag_inv_def)
  let ?cfg = "vec_config lv"
  let ?e = "\<lparr>eng_cfg = ?cfg, eng_store = vs_empty kVecDim, eng_index = make_index ?cfg, eng_wal = None, eng_blobs = None\<rparr>"
  have "engine_new ?cfg True no_disk [] no_calls = Inr ?e"
    by (simp add: engine_new_def vs_new_def vec_config_def kVecDim_def Let_def)
  moreover have "mem_engine ?e"
    using fresh_memory [of ?cfg]
    by (simp add: mem_engine_def engine_wf_def vec_config_def kVecDim_def hnsw_config_ok_def params_ok_def default_hnsw_def)
  ultimately show ?thesis
    using r mod by (simp add: server_new_def server_wf_def vec_config_def vs_empty_wf(2) store_room_def)
qed

text \<open>The form in which every handler but the first two ends: an answer, or an exception without an effect.\<close>

definition ends_well :: "'j json_lib \<Rightarrow> raised \<Rightarrow> server \<Rightarrow> server \<times> outcome \<Rightarrow> bool" where
  "ends_well J src sv = (\<lambda>(sv', resp).
     (\<exists>s. resp = Response 200 s) \<or> (\<exists>er. er \<noteq> Undefined_behaviour \<and> resp = caught J src er \<and> sv' = sv))"

lemma ends_wellI:
  assumes "json_ok J"
  shows "list_all utf8 (reply_strings r) \<Longrightarrow> ends_well J src sv (sv', answer J r)"
    and "er \<noteq> Undefined_behaviour \<Longrightarrow> ends_well J src sv (sv, caught J src er)"
  using answer_utf8 [OF assms] by (auto simp: ends_well_def)

lemma post_vectors_ok:
  assumes J: "json_ok J" and sv: "server_wf sv (V, D)" and s: "sane J (Post_vectors t) sv"
  shows "\<exists>sv' resp. post_vectors J t sv = (sv', resp) \<and> server_wf sv' (request_effect J (Post_vectors t) (V, D))
    \<and> ends_well J (In_request t) sv (sv', resp)"
proof (cases "read_vector_body J t")
  case (Inl er)
  then show ?thesis
    using read_bodies_safe(1) [OF J, of t] sv ends_wellI(2) [OF J] by (simp add: post_vectors_def)
next
  case (Inr x)
  then obtain k v m where x: "read_vector_body J t = Inr (k, v, m)"
    by (cases x) auto
  note D = server_wfD [OF sv]
  show ?thesis
  proof (cases "length v = 4")
    case True
    then obtain e i where e: "engine_insert k v m (sv_vec sv) = (e, Inr i)" "mem_engine e" "eng_cfg e = eng_cfg (sv_vec sv)"
      "store_abs (eng_store e) = V(k \<mapsto> (v, m))"
      using insert_memory [OF D(1) _ read_vector_meta_wf [OF x], of v k] s x D(2,4) by (auto simp: kVecDim_def)
    then show ?thesis
      using x True server_wf_vec [OF sv e(2-4)] insert_moderate [OF e(1) D(8)] s
        ends_wellI(1) [OF J, of "Inserted_reply k i"] read_strings_utf8(1) [OF J x] by (simp add: post_vectors_def)
  next
    case False
    then have "engine_insert k v m (sv_vec sv) = (sv_vec sv, Inl Invalid_argument)"
      using wrong_dim_rejected [of L2 "(eng_store (sv_vec sv), eng_index (sv_vec sv))"
          "\<lparr>op_type = Insert, op_ext_id = k, op_vec = v, op_meta = Some m\<rparr>"] D(1-3) s x
      by (simp add: engine_insert_def apply_op_def log_op_def mem_engine_def engine_wf_def mem_dim_def kVecDim_def)
    then show ?thesis
      using x False sv ends_wellI(2) [OF J] by (simp add: post_vectors_def)
  qed
qed

lemma delete_vector_ok:
  assumes sv: "server_wf sv (V, D)"
  shows "\<exists>sv'. delete_vector J k sv = (sv', answer J (Existed_reply (V k \<noteq> None))) \<and> server_wf sv' (V(k := None), D)"
proof -
  note D = server_wfD [OF sv]
  obtain e where e: "engine_erase k (sv_vec sv) = (e, Inr (V k \<noteq> None))" "mem_engine e" "eng_cfg e = eng_cfg (sv_vec sv)"
    "store_abs (eng_store e) = V(k := None)"
    using erase_memory [OF D(1), of k] D(4) by auto
  then show ?thesis
    using server_wf_vec [OF sv e(2-4)] erase_moderate [OF e(1) D(8)] by (simp add: delete_vector_def)
qed

lemma post_documents_ok:
  assumes J: "json_ok J" and sv: "server_wf sv (V, D)" and s: "sane J (Post_documents t) sv"
  shows "\<exists>sv' resp. post_documents J t sv = (sv', resp) \<and> server_wf sv' (request_effect J (Post_documents t) (V, D))
    \<and> ends_well J (In_request t) sv (sv', resp)"
proof (cases "read_document_body J t")
  case (Inl er)
  then show ?thesis
    using read_bodies_safe(2) [OF J, of t] sv ends_wellI(2) [OF J] by (simp add: post_documents_def)
next
  case (Inr doc)
  note W = server_wfD [OF sv]
  obtain r n where r: "rag_ingest doc (sv_rag sv) = (r, Inr n)"
    "rag_wf r (D(doc_id doc := (if doc_chunks (doc_text doc) = [] then None else Some (doc_chunks (doc_text doc)))))"
    using served.ingest_ok [OF W(5,6), of doc, unfolded W(7) Let_def, folded doc_chunks_def] s Inr 
    by (auto simp: length_doc_chunks)
  then have "server_wf (sv\<lparr>sv_rag := r\<rparr>) (request_effect J (Post_documents t) (V, D))"
    using server_wf_rag [OF sv r(2)] rag_ingest_keeps [of doc "sv_rag sv"] rag_ingest_moderate [OF W(9), of doc] Inr by simp
  then show ?thesis
    using r(1) Inr ends_wellI(1) [OF J, of "Chunks_reply n"] by (simp add: post_documents_def)
qed

lemma delete_document_ok:
  assumes sv: "server_wf sv (V, D)"
  shows "\<exists>sv'. delete_document J d sv = (sv', answer J (Existed_reply (D d \<noteq> None))) \<and> server_wf sv' (V, D(d := None))"
proof -
  obtain r where r: "rag_remove d (sv_rag sv) = (r, Inr (D d \<noteq> None))" "rag_wf r (D(d := None))"
    using rag_remove_ok [OF server_wfD(5) [OF sv], of d] by blast
  then show ?thesis
    using server_wf_rag [OF sv r(2)] rag_remove_keeps [of d "sv_rag sv"] rag_remove_moderate [OF server_wfD(9) [OF sv], of d]
    by (simp add: delete_document_def)
qed

text \<open>A search names the hits of the engine.\<close>

lemma name_hits_ok:
  assumes "\<forall>h \<in> set hits. \<exists>k. external_id s (sr_id h) = Inr k"
  shows "\<exists>arr. name_hits s hits = Inr arr \<and> list_all2 (\<lambda>h (k, x). external_id s (sr_id h) = Inr k \<and> x = sr_score h) hits arr"
proof -
  have "\<exists>arr. rfold (\<lambda>h arr. rbind (external_id s (sr_id h)) (\<lambda>k. Inr (arr @ [(k, sr_score h)]))) hits acc = Inr (acc @ arr)
      \<and> list_all2 (\<lambda>h (k, x). external_id s (sr_id h) = Inr k \<and> x = sr_score h) hits arr" for acc
    using assms
  proof (induction hits arbitrary: acc)
    case (Cons h hits)
    then obtain k where k: "external_id s (sr_id h) = Inr k"
      by auto
    from Cons.IH [of "acc @ [(k, sr_score h)]"] Cons.prems obtain arr where
      "rfold (\<lambda>h arr. rbind (external_id s (sr_id h)) (\<lambda>k. Inr (arr @ [(k, sr_score h)]))) hits (acc @ [(k, sr_score h)])
         = Inr (acc @ (k, sr_score h) # arr)"
      "list_all2 (\<lambda>h (k, x). external_id s (sr_id h) = Inr k \<and> x = sr_score h) hits arr"
      by auto
    with k show ?case
      by (intro exI [of _ "(k, sr_score h) # arr"]) simp
  qed simp
  from this [of "[]"] show ?thesis
    by (simp add: name_hits_def)
qed

definition search_answer :: "fvec \<Rightarrow> nat \<Rightarrow> filter option \<Rightarrow> (string \<rightharpoonup> fvec \<times> metadata) \<Rightarrow> (string \<times> score) list \<Rightarrow> bool" where
  "search_answer q k f V arr \<longleftrightarrow>
     length arr \<le> k \<and> distinct (map fst arr) \<and> sorted_wrt (\<lambda>a b. f32_key (snd a) \<le> f32_key (snd b)) arr
   \<and> (\<forall>(ext, x) \<in> set arr. \<exists>v m. V ext = Some (v, m) \<and> x = metric_value L2 q v \<and> filter_ok f m)"

lemma named_hits_answer:
  assumes named: "list_all2 (\<lambda>h (k, x). external_id s (sr_id h) = Inr k \<and> x = sr_score h) hits arr"
    and hits: "length hits \<le> k" "distinct (map sr_id hits)" "sorted_wrt (\<lambda>g h. hit_key g \<le> hit_key h) hits"
      "\<forall>h \<in> set hits. describes s L2 q f h"
    and wf: "store_wf s"
  shows "search_answer q k f (store_abs s) arr"
proof -
  have len: "length arr = length hits"
    using named by (simp add: list_all2_lengthD)
  have nth: "external_id s (sr_id (hits ! i)) = Inr (fst (arr ! i))" "snd (arr ! i) = sr_score (hits ! i)" if "i < length arr" for i
    using list_all2_nthD2 [OF named that] by (auto split: prod.splits)
  have inj: "i = j" if "external_id s i = Inr key" "external_id s j = Inr key" for i j key
    using that store_wfD(8) [OF wf, of key i] store_wfD(8) [OF wf, of key j] by (auto simp: external_id_def vget_eq_Inr)
  have "distinct (map fst arr)"
    using nth(1) inj hits(2) len by (auto simp: distinct_conv_nth) (metis nth(1))
  moreover have "sorted_wrt (\<lambda>a b. f32_key (snd a) \<le> f32_key (snd b)) arr"
    using hits(3) nth(2) len by (simp add: sorted_wrt_iff_nth_less hit_key_def)
  moreover have "\<exists>v m. store_abs s (fst (arr ! i)) = Some (v, m) \<and> snd (arr ! i) = metric_value L2 q v \<and> filter_ok f m"
    if "i < length arr" for i
    using nth [OF that] hits(4) that len unfolding describes_def by (metis nth_mem sum.inject(2))
  ultimately show ?thesis
    using hits(1) len by (auto simp: search_answer_def in_set_conv_nth) (metis fst_conv snd_conv)+
qed

lemma post_search_hits:
  assumes sv: "server_wf sv (V, D)" and body: "read_search_body J t = Inr (q, k, ef, f)" and s: "sane J (Post_search t) sv"
    and q: "length q = 4"
  shows "\<exists>arr. post_search J t sv = (sv, answer J (Hits_reply arr)) \<and> search_answer q k f V arr"
proof -
  note D = server_wfD [OF sv]
  let ?s = "eng_store (sv_vec sv)"
  have wf: "engine_wf (sv_vec sv)"
    using D(1) by (simp add: mem_engine_def)
  have "nan_free ?s L2 q"
    using moderate_nan_free [OF engine_wfD(1) [OF wf] D(8), of q] s body q D(2) engine_wfD(4) [OF wf] by (simp add: kVecDim_def)
  then obtain hits where hits: "engine_search q k f ef (sv_vec sv) = Inr hits" "length hits \<le> k" "distinct (map sr_id hits)"
    "sorted_wrt (\<lambda>g h. hit_key g \<le> hit_key h) hits" "\<forall>h \<in> set hits. describes ?s L2 q f h"
    using engine_search_ok [OF wf, of q k f ef] q D(2,3) by (auto simp: kVecDim_def)
  then obtain arr where arr: "name_hits ?s hits = Inr arr"
    "list_all2 (\<lambda>h (k, x). external_id ?s (sr_id h) = Inr k \<and> x = sr_score h) hits arr"
    using name_hits_ok [of hits ?s] unfolding describes_def by blast
  have "search_answer q k f V arr"
    using named_hits_answer [OF arr(2) hits(2-5) engine_wfD(1) [OF wf]] D(4) by simp
  then show ?thesis
    using body hits(1) arr(1) by (intro exI [of _ arr]) (simp add: post_search_def)
qed

lemma post_search_dim:
  assumes "server_wf sv (V, D)" and "read_search_body J t = Inr (q, k, ef, f)" and "length q \<noteq> 4"
  shows "post_search J t sv = (sv, caught J (In_request t) Invalid_argument)"
  using assms engine_wfD(4) [of "sv_vec sv"] server_wfD [OF assms(1)]
  by (simp add: post_search_def engine_search_def mem_engine_def kVecDim_def)

lemma search_ends_well:
  assumes J: "json_ok J" and sv: "server_wf sv (V, D)" and s: "sane J (Post_search t) sv" and u: "contents_utf8 (V, D)"
  shows "ends_well J (In_request t) sv (post_search J t sv)"
proof (cases "read_search_body J t")
  case (Inl er)
  then show ?thesis
    using s ends_wellI(2) [OF J] by (simp add: post_search_def)
next
  case (Inr x)
  then obtain q k ef f where x: "read_search_body J t = Inr (q, k, ef, f)"
    by (cases x) auto
  show ?thesis
  proof (cases "length q = 4")
    case True
    from post_search_hits [OF sv x s True] obtain arr where arr: "post_search J t sv = (sv, answer J (Hits_reply arr))" "search_answer q k f V arr"
      by blast
    have "utf8 (fst y)" if "y \<in> set arr" for y
      using arr(2) that u by (cases y) (fastforce simp: search_answer_def contents_utf8_def)
    then have "list_all utf8 (map fst arr)"
      by (simp add: list_all_iff)
    then show ?thesis
      using arr(1) ends_wellI(1) [OF J, of "Hits_reply arr"] by simp
  next
    case False
    then show ?thesis
      using post_search_dim [OF sv x] ends_wellI(2) [OF J] by simp
  qed
qed

lemma retrieve_utf8:
  assumes "server_wf sv (V, D)" and "contents_utf8 (V, D)"
  shows "\<exists>cs. rag_retrieve query k (sv_rag sv) = Inr cs \<and> (\<forall>c \<in> set cs. utf8 (rc_doc_id c) \<and> utf8 (rc_text c))"
proof -
  have "rag_inv 256 rag_cfg D (sv_rag sv)"
    using server_wfD [OF assms(1)] by (simp add: rag_inv_def embed_model_def)
  from rag_inv_retrieve [OF this, of query k] obtain cs
    where "rag_retrieve query k (sv_rag sv) = Inr cs" "\<forall>c \<in> set cs. \<exists>ts. D (rc_doc_id c) = Some ts \<and> rc_text c \<in> set ts"
    by fastforce
  then show ?thesis
    using assms(2) by (fastforce simp: contents_utf8_def)
qed

lemma rag_queries_end_well:
  assumes J: "json_ok J" and sv: "server_wf sv (V, D)" and u: "contents_utf8 (V, D)"
  shows "sane J (Post_rag_search t) sv \<Longrightarrow> ends_well J (In_request t) sv (rag_search J t sv)"
    and "ends_well J (In_request t) sv (rag_prompt J t sv)"
proof -
  consider (bad) er where "read_query_body J t = Inl er" "er \<noteq> Undefined_behaviour"
    | (good) body query where "read_query_body J t = Inr (body, query)" "utf8 query"
    using read_bodies_safe(3) [OF J, of t] read_strings_utf8(3) [OF J, of t] by (cases "read_query_body J t") auto
  then have "(sane J (Post_rag_search t) sv \<longrightarrow> ends_well J (In_request t) sv (rag_search J t sv))
      \<and> ends_well J (In_request t) sv (rag_prompt J t sv)"
  proof cases
    case bad
    then show ?thesis
      using ends_wellI(2) [OF J] by (simp add: rag_search_def rag_prompt_def)
  next
    case good
    have "ends_well J (In_request t) sv (rag_search J t sv)" if "sane J (Post_rag_search t) sv"
    proof (cases "js_value_size J body ''k'' 5")
      case (Inl er)
      then show ?thesis
        using good(1) that ends_wellI(2) [OF J] by (simp add: rag_search_def)
    next
      case (Inr k)
      obtain cs where "rag_retrieve query k (sv_rag sv) = Inr cs" "\<forall>c \<in> set cs. utf8 (rc_doc_id c) \<and> utf8 (rc_text c)"
        using retrieve_utf8 [OF sv u] by blast
      moreover from this(2) have "list_all utf8 (reply_strings (Passages_reply cs))"
        by (auto simp: list_all_iff)
      ultimately show ?thesis
        using good(1) Inr ends_wellI(1) [OF J, of "Passages_reply cs"] by (simp add: rag_search_def)
    qed
    moreover obtain cs where "rag_retrieve query (rg_retrieve_k (re_cfg (sv_rag sv))) (sv_rag sv) = Inr cs"
      "\<forall>c \<in> set cs. utf8 (rc_text c)"
      using retrieve_utf8 [OF sv u] by blast
    then have "ends_well J (In_request t) sv (rag_prompt J t sv)"
      using good ends_wellI(1) [OF J, of "Prompt_reply _"] prompt_utf8 [of query cs] by (simp add: rag_prompt_def rag_build_prompt_def)
    ultimately show ?thesis
      by blast
  qed
  then show "sane J (Post_rag_search t) sv \<Longrightarrow> ends_well J (In_request t) sv (rag_search J t sv)"
    and "ends_well J (In_request t) sv (rag_prompt J t sv)"
    by blast+
qed

text \<open>The statistics hold no text of a client.\<close>

lemma vec_index_name: "server_wf sv (V, D) \<Longrightarrow> index_name (eng_index (sv_vec sv)) = ''l2''"
  using engine_wfD [of "sv_vec sv"] by (auto simp: server_wf_def mem_engine_def index_name_def)

lemma get_stats_ok:
  assumes "json_ok J" and "server_wf sv (V, D)"
  shows "\<exists>s. get_stats J sv = (sv, Response 200 s)"
proof -
  have "utf8 ''l2''"
    by (rule utf8_ascii) simp
  then have "list_all utf8 (reply_strings (stats_reply sv))"
    using vec_index_name [OF assms(2)] by (simp add: stats_reply_def)
  from json_ok_utf8(2) [OF assms(1) this, of 2] show ?thesis
    by (auto simp: get_stats_def)
qed

text \<open>What a request carries: its body or the id of its path.\<close>

fun request_text :: "http_request \<Rightarrow> string" where
  "request_text Options = []"
| "request_text Get_stats = []"
| "request_text (Post_vectors text) = text"
| "request_text (Post_search text) = text"
| "request_text (Delete_vector ext) = ext"
| "request_text (Post_documents text) = text"
| "request_text (Delete_document ext) = ext"
| "request_text (Post_rag_search text) = text"
| "request_text (Post_rag_prompt text) = text"

text \<open>Every request ends well and has its effect.\<close>

lemma serve_ok:
  assumes J: "json_ok J" and sv: "server_wf sv c" and s: "sane J req sv" and u: "contents_utf8 c"
  shows "server_wf (fst (serve J req sv)) (request_effect J req c)"
    and "req = Options \<or> ends_well J (In_request (request_text req)) sv (serve J req sv)"
proof -
  obtain V D where c: "c = (V, D)" by (cases c)
  note sv' = sv [unfolded c] and u' = u [unfolded c]
  have "server_wf (fst (serve J req sv)) (request_effect J req (V, D))
      \<and> (req = Options \<or> ends_well J (In_request (request_text req)) sv (serve J req sv))"
  proof (cases req)
    case Get_stats
    with get_stats_ok [OF J sv'] sv' show ?thesis
      by (auto simp: ends_well_def)
  next
    case (Post_vectors t)
    with post_vectors_ok [OF J sv', of t] s show ?thesis
      by auto
  next
    case (Post_search t)
    with search_ends_well [OF J sv', of t] s sv' u' show ?thesis
      by (simp add: post_search_def)
  next
    case (Delete_vector k)
    with delete_vector_ok [OF sv', of J k] ends_wellI(1) [OF J, of "Existed_reply _"] show ?thesis
      by auto
  next
    case (Post_documents t)
    with post_documents_ok [OF J sv', of t] s show ?thesis
      by auto
  next
    case (Delete_document d)
    with delete_document_ok [OF sv', of J d] ends_wellI(1) [OF J, of "Existed_reply _"] show ?thesis
      by auto
  next
    case (Post_rag_search t)
    with rag_queries_end_well(1) [OF J sv' u', of t] sv' s show ?thesis
      by (simp add: rag_search_def)
  next
    case (Post_rag_prompt t)
    with rag_queries_end_well(2) [OF J sv' u', of t] sv' show ?thesis
      by (simp add: rag_prompt_def)
  qed (simp add: sv')
  then show "server_wf (fst (serve J req sv)) (request_effect J req c)"
    and "req = Options \<or> ends_well J (In_request (request_text req)) sv (serve J req sv)"
    by (simp_all add: c)
qed

section \<open>Runs of the server\<close>

text \<open>The states a server reaches, with the requests in the order in which they take the mutex.\<close>

inductive served_run :: "'j json_lib \<Rightarrow> http_request list \<Rightarrow> server \<Rightarrow> bool" for J where
  start: "server_new lv lr = Inr sv \<Longrightarrow> served_run J [] sv"
| step: "\<lbrakk>served_run J reqs sv; sane J req sv; serve J req sv = (sv', resp)\<rbrakk> \<Longrightarrow> served_run J (reqs @ [req]) sv'"

lemma effects_utf8:
  assumes "json_ok J"
  shows "contents_utf8 (fold (request_effect J) reqs (Map.empty, Map.empty))"
proof (induction reqs rule: rev_induct)
  case (snoc req reqs)
  then show ?case
    using request_effect_utf8 [OF assms] by simp
qed (simp add: contents_utf8_def)

lemma served_run_wf:
  assumes "served_run J reqs sv" and "json_ok J"
  shows "server_wf sv (fold (request_effect J) reqs (Map.empty, Map.empty))"
  using assms(1)
proof (induction rule: served_run.induct)
  case (start lv lr sv)
  then show ?case
    using server_new_ok [of lv lr] by auto
next
  case (step reqs sv req sv' resp)
  then show ?case
    using serve_ok(1) [OF assms(2) step.IH step.hyps(2) effects_utf8 [OF assms(2)]] by simp
qed

section \<open>Filters from JSON\<close>

text \<open>A filter object asks for every one of its keys to have a value that compares equal.\<close>

lemma json_filter_matches:
  assumes "json_to_filter J obj = Inr (Some f)"
  shows "matches f m \<longleftrightarrow> (\<forall>(k, v) \<in> set (js_items J obj). \<exists>x y. json_to_meta_value J v = Inr x \<and> meta_find m k = Some y \<and> compare y x = Some 0)"
proof -
  let ?ok = "\<lambda>(k, v). \<exists>x y. json_to_meta_value J v = Inr x \<and> meta_find m k = Some y \<and> compare y x = Some 0"
  have loop: "list_all (\<lambda>c. matches c m) cs' \<longleftrightarrow> list_all (\<lambda>c. matches c m) cs \<and> (\<forall>i \<in> set items. ?ok i)"
    if "rfold (\<lambda>(k, v) cs. rbind (json_to_meta_value J v) (\<lambda>x. Inr (cs @ [filter_eq k x]))) items cs = Inr cs'" for items cs cs'
    using that
  proof (induction items arbitrary: cs)
    case (Cons i items)
    obtain k v where i: "i = (k, v)" by (cases i)
    with Cons.prems obtain x where x: "json_to_meta_value J v = Inr x"
      by (auto simp: rbind_eq_Inr)
    have "matches (filter_eq k x) m \<longleftrightarrow> ?ok i"
      using x by (auto simp: i filter_eq_def filter_cmp_def split: option.splits)
    with Cons.IH [of "cs @ [filter_eq k x]"] Cons.prems x show ?case
      by (auto simp: i)
  qed simp
  obtain cs where "rfold (\<lambda>(k, v) cs. rbind (json_to_meta_value J v) (\<lambda>x. Inr (cs @ [filter_eq k x]))) (js_items J obj) [] = Inr cs"
    "f = filter_all_of cs"
    using assms by (auto simp: json_to_filter_def rbind_eq_Inr split: if_splits)
  with loop [of "js_items J obj" "[]" cs] show ?thesis
    by (simp add: filter_all_of_def)
qed

section \<open>Properties\<close>

text \<open>C18: The server implements two maps and never runs into undefined behaviour. Whatever requests it served, in whatever
  order they took the mutex, it holds exactly the vectors and the chunks of the documents that the requests put and did
  not delete. The next request is answered with status 200 or 204, or its handler catches an exception, and then the
  state is as it was: the answer is status 400 if the text of the exception is UTF-8; if it is not, the handler of the
  exception may itself throw, and the HTTP library is left to answer. Every other text that the server has to send is
  UTF-8, because it goes back to a body that was parsed. Clients send vectors of moderate size and numbers in the range
  of their types; texts are arbitrary, and the JSON library reports misuse by exceptions.\<close>

theorem server_refines:
  assumes "served_run J reqs sv" and "json_ok J"
  shows "server_wf sv (fold (request_effect J) reqs (Map.empty, Map.empty))
    \<and> (\<forall>req. sane J req sv \<longrightarrow>
         (\<exists>sv' resp. serve J req sv = (sv', resp) \<and>
           ((\<exists>st body. resp = Response st body \<and> st \<in> {200, 204})
          \<or> sv' = sv \<and> (\<exists>body. resp = Response 400 body)
          \<or> sv' = sv \<and> (\<exists>er. resp = Escaped er) \<and> (\<exists>er. \<not> utf8 (js_what J (In_request (request_text req)) er)))))"
proof (intro conjI allI impI)
  show wf: "server_wf sv (fold (request_effect J) reqs (Map.empty, Map.empty))"
    by (rule served_run_wf [OF assms])
  fix req assume s: "sane J req sv"
  obtain sv' resp where r: "serve J req sv = (sv', resp)"
    by (cases "serve J req sv")
  consider "req = Options" | body where "resp = Response 200 body"
    | er where "er \<noteq> Undefined_behaviour" "resp = caught J (In_request (request_text req)) er" "sv' = sv"
    using serve_ok(2) [OF assms(2) wf s effects_utf8 [OF assms(2)]] r by (auto simp: ends_well_def)
  then show "\<exists>sv' resp. serve J req sv = (sv', resp) \<and>
           ((\<exists>st body. resp = Response st body \<and> st \<in> {200, 204})
          \<or> sv' = sv \<and> (\<exists>body. resp = Response 400 body)
          \<or> sv' = sv \<and> (\<exists>er. resp = Escaped er) \<and> (\<exists>er. \<not> utf8 (js_what J (In_request (request_text req)) er)))"
  proof cases
    case 3
    with caught_outcome [OF assms(2) 3(1), of "In_request (request_text req)"] r show ?thesis
      by auto
  qed (use r in auto)
qed

text \<open>C29: A search request answers with at most \<open>k\<close> entries in order of distance, each once, under the id it was stored
  with, with its distance from the query, and satisfying the filter; a query of another dimension is refused.\<close>

theorem server_search_grounded:
  assumes "server_wf sv (V, D)" and "read_search_body J t = Inr (q, k, ef, f)" and "moderate q"
  shows "if length q = 4 then \<exists>arr. serve J (Post_search t) sv = (sv, answer J (Hits_reply arr)) \<and> search_answer q k f V arr
    else serve J (Post_search t) sv = (sv, fail J 400 (js_what J (In_request t) Invalid_argument))"
  using post_search_hits [OF assms(1,2)] post_search_dim [OF assms(1,2)] assms(2,3) by (simp add: caught_def)

text \<open>C30: The statistics count the entries and the documents that are stored now, and the chunks of all documents.
  The index field holds the name of the metric, not the kind of the index.\<close>

theorem server_stats:
  assumes "server_wf sv (V, D)"
  shows "stats_reply sv = Stats_reply 4 ''l2'' ''l2'' (card (dom V)) 256 (card (dom D)) (\<Sum>d \<in> dom D. length (the (D d)))"
proof -
  note W = server_wfD [OF assms]
  have "vs_size (eng_store (sv_vec sv)) = card (dom V)"
    using W(1,4) engine_wfD(1) [of "sv_vec sv"] size_card [of "eng_store (sv_vec sv)"] by (simp add: mem_engine_def)
  then show ?thesis
    using rag_wf_counts [OF W(5)] vec_index_name [OF assms] by (simp add: stats_reply_def kVecDim_def embed_model_def mock_model_def)
qed

section \<open>A concrete run\<close>

text \<open>A JSON library for the values of the example: it knows the texts of a few documents.\<close>

datatype demo_json = JStr string | JNum f32 | JArr "demo_json list" | JObj "(string \<times> demo_json) list"

fun demo_member :: "demo_json \<Rightarrow> string \<Rightarrow> demo_json res" where
  "demo_member (JObj ms) k = (case map_of ms k of None \<Rightarrow> Inl Json_exception | Some v \<Rightarrow> Inr v)"
| "demo_member _ k = Inl Json_exception"

fun demo_elements :: "demo_json \<Rightarrow> demo_json list" where
  "demo_elements (JArr xs) = xs"
| "demo_elements (JObj ms) = map snd ms"
| "demo_elements v = [v]"

definition demo_point :: "string \<times> demo_json" where
  "demo_point = (''vector'', JArr (replicate 4 (JNum f32_zero)))"

definition demo_parse :: "string \<Rightarrow> demo_json res" where
  "demo_parse t =
     (if t = ''v'' then Inr (JObj [(''id'', JStr ''a''), demo_point])
      else if t = ''q'' then Inr (JObj [demo_point])
      else if t = ''d'' then Inr (JObj [(''id'', JStr ''n''), (''text'', JStr ''red fox'')])
      else Inl Json_exception)"

definition demo_lib :: "demo_json json_lib" where
  "demo_lib = \<lparr>js_parse = demo_parse, js_at = demo_member, js_index = demo_member,
     js_contains = (\<lambda>j k. demo_member j k \<noteq> Inl Json_exception),
     js_is_string = (\<lambda>j. case j of JStr _ \<Rightarrow> True | _ \<Rightarrow> False), js_is_boolean = (\<lambda>_. False),
     js_is_number_integer = (\<lambda>_. False), js_is_number_float = (\<lambda>j. case j of JNum _ \<Rightarrow> True | _ \<Rightarrow> False),
     js_is_object = (\<lambda>j. case j of JObj _ \<Rightarrow> True | _ \<Rightarrow> False),
     js_empty = (\<lambda>j. case j of JArr xs \<Rightarrow> xs = [] | JObj ms \<Rightarrow> ms = [] | _ \<Rightarrow> False),
     js_items = (\<lambda>j. case j of JObj ms \<Rightarrow> ms | _ \<Rightarrow> []), js_elements = demo_elements,
     js_get_string = (\<lambda>j. case j of JStr s \<Rightarrow> Inr s | _ \<Rightarrow> Inl Json_exception),
     js_get_bool = (\<lambda>_. Inl Json_exception), js_get_int64 = (\<lambda>_. Inl Json_exception),
     js_get_double = (\<lambda>j. case j of JNum x \<Rightarrow> Inr (f64_of_f32 x) | _ \<Rightarrow> Inl Json_exception),
     js_get_float = (\<lambda>j. case j of JNum x \<Rightarrow> Inr x | _ \<Rightarrow> Inl Json_exception),
     js_value_size = (\<lambda>_ _ n. Inr n), js_dump_value = (\<lambda>_. Inr ''null''), 
     js_dump = (\<lambda>_ r. if list_all utf8 (reply_strings r) then Inr ''{}'' else Inl Json_exception),
     js_what = (\<lambda>src er. case src of In_request t \<Rightarrow> t | In_reply _ \<Rightarrow> ''invalid UTF-8 byte'')\<rparr>"

lemma demo_member_strings:
  assumes "demo_parse t = Inr j" and "demo_member j k = Inr (JStr s)"
  shows "utf8 s"
proof -
  have "utf8 ''a''" "utf8 ''n''" "utf8 ''red fox''"
    by (rule utf8_ascii, simp)+
  then show ?thesis
    using assms by (auto simp: demo_parse_def demo_point_def split: if_splits option.splits)
qed

lemma demo_lib_ok: "json_ok demo_lib"
proof -
  have "safe (demo_member j k)" for j k
    by (cases j) (auto split: option.split)
  moreover have "safe (demo_parse t)" for t
    by (simp add: demo_parse_def)
  moreover have "utf8 s" if "demo_parse t = Inr body" "demo_member body k = Inr v"
    "(case v of JStr s \<Rightarrow> Inr s | _ \<Rightarrow> Inl Json_exception) = (Inr s :: string res)" for t body k v s
    using that demo_member_strings by (cases v) auto
  ultimately show ?thesis
    unfolding json_ok_def by (intro conjI allI impI) (simp_all add: demo_lib_def split: demo_json.split)
qed

lemma demo_bodies:
  "read_vector_body demo_lib ''v'' = Inr (''a'', replicate 4 f32_zero, [])"
  "read_search_body demo_lib ''q'' = Inr (replicate 4 f32_zero, 10, 0, None)"
  "read_document_body demo_lib ''d'' = Inr \<lparr>doc_id = ''n'', doc_text = ''red fox''\<rparr>"
  by (simp_all add: read_vector_body_def read_search_body_def read_document_body_def demo_lib_def demo_parse_def demo_point_def
      json_to_vector_def numeral_eq_Suc)

lemma demo_doc_chunks: "doc_chunks ''red fox'' = [''red fox'']"
  by (simp add: doc_chunks_def rag_cfg_def chunk_text_def Let_def tokenize_scan is_space_def to_lower_def chunk_loop.simps
      chunk_window_def chunk_step_def chunk_overlap_def join_range_def)

lemma demo_moderate: "moderate (replicate 4 f32_zero)"
  by (simp add: moderate_def list_all_iff f32_zero_def unpack32_def)

lemma demo_one_put:
  "\<exists>sv. served_run demo_lib [Post_vectors ''v''] sv \<and> server_wf sv ([''a'' \<mapsto> (replicate 4 f32_zero, [])], Map.empty)
     \<and> store_room (eng_store (re_engine (sv_rag sv))) = 2 ^ 32 - 1"
proof -
  obtain sv where sv: "server_new (\<lambda>_. 0) (\<lambda>_. 0) = Inr sv" "server_wf sv (Map.empty, Map.empty)"
    "store_room (eng_store (sv_vec sv)) = 2 ^ 32 - 1" "store_room (eng_store (re_engine (sv_rag sv))) = 2 ^ 32 - 1"
    using server_new_ok by blast
  note W = server_wfD [OF sv(2)]
  obtain e i where e: "engine_insert ''a'' (replicate 4 f32_zero) [] (sv_vec sv) = (e, Inr i)"
    using insert_memory [OF W(1), of "replicate 4 f32_zero" "[]" "''a''"] W(2) sv(3) by (auto simp: kVecDim_def meta_wf_def)
  have sane: "sane demo_lib (Post_vectors ''v'') sv"
    using sv(3) demo_moderate by (simp add: demo_bodies)
  let ?sv = "sv\<lparr>sv_vec := e\<rparr>"
  have "serve demo_lib (Post_vectors ''v'') sv = (?sv, answer demo_lib (Inserted_reply ''a'' i))"
    using e by (simp add: post_vectors_def demo_bodies)
  with served_run.step [OF served_run.start [OF sv(1)] sane] have run: "served_run demo_lib [Post_vectors ''v''] ?sv"
    by simp
  from served_run_wf [OF this demo_lib_ok] run sv(4) show ?thesis
    by (intro exI [of _ ?sv]) (simp add: demo_bodies)
qed

lemma demo_two_puts:
  "\<exists>sv. served_run demo_lib [Post_vectors ''v'', Post_documents ''d''] sv
     \<and> server_wf sv ([''a'' \<mapsto> (replicate 4 f32_zero, [])], [''n'' \<mapsto> [''red fox'']])"
proof -
  obtain sv where sv: "served_run demo_lib [Post_vectors ''v''] sv" "store_room (eng_store (re_engine (sv_rag sv))) = 2 ^ 32 - 1"
    using demo_one_put by blast
  have "sane demo_lib (Post_documents ''d'') sv"
    using sv(2) by (simp add: demo_bodies demo_doc_chunks)
  from served_run.step [OF sv(1) this] obtain sv' where
    run: "served_run demo_lib [Post_vectors ''v'', Post_documents ''d''] sv'"
    by (cases "serve demo_lib (Post_documents ''d'') sv") auto
  from served_run_wf [OF run demo_lib_ok] run show ?thesis
    by (intro exI [of _ sv']) (simp add: demo_bodies demo_doc_chunks)
qed

text \<open>The library of the example quotes the request in its messages, so a body that is not UTF-8 is not even answered
  with status 400; the byte \<open>0xFF\<close> begins no character.\<close>

lemma demo_fail_throws: "serve demo_lib (Post_vectors [CHR 0xFF]) sv = (sv, Escaped Json_exception)"
  by (simp add: post_vectors_def read_vector_body_def demo_lib_def demo_parse_def caught_def fail_def utf8_def followers_def)

theorem server_refines_witness:
  "\<exists>sv sv' st body. served_run demo_lib [Post_vectors ''v'', Post_documents ''d''] sv
     \<and> server_wf sv ([''a'' \<mapsto> (replicate 4 f32_zero, [])], [''n'' \<mapsto> [''red fox'']])
     \<and> serve demo_lib (Delete_vector ''a'') sv = (sv', Response st body) \<and> st \<in> {200, 204, 400}
     \<and> serve demo_lib (Post_vectors [CHR 0xFF]) sv = (sv, Escaped Json_exception)"
proof -
  obtain sv where sv: "served_run demo_lib [Post_vectors ''v'', Post_documents ''d''] sv"
    using demo_two_puts by blast
  have "utf8 ''a''"
    by (rule utf8_ascii) simp
  then have what: "utf8 (js_what demo_lib (In_request (request_text (Delete_vector ''a''))) er)" for er
    by (simp add: demo_lib_def)
  note refines = server_refines [OF sv demo_lib_ok]
  have "server_wf sv ([''a'' \<mapsto> (replicate 4 f32_zero, [])], [''n'' \<mapsto> [''red fox'']])"
    using refines by (simp add: demo_bodies demo_doc_chunks)
  moreover obtain sv' st body where "serve demo_lib (Delete_vector ''a'') sv = (sv', Response st body)" "st \<in> {200, 204, 400}"
    using conjunct2 [OF refines, THEN spec [of _ "Delete_vector ''a''"]] what by fastforce
  ultimately show ?thesis
    using sv demo_fail_throws by blast
qed

theorem server_stats_witness:
  "\<exists>sv. served_run demo_lib [Post_vectors ''v'', Post_documents ''d''] sv
     \<and> stats_reply sv = Stats_reply 4 ''l2'' ''l2'' 1 256 1 1"
proof -
  obtain sv where sv: "served_run demo_lib [Post_vectors ''v'', Post_documents ''d''] sv"
    "server_wf sv ([''a'' \<mapsto> (replicate 4 f32_zero, [])], [''n'' \<mapsto> [''red fox'']])"
    using demo_two_puts by blast
  from server_stats [OF sv(2)] sv(1) show ?thesis
    by auto
qed

theorem server_search_grounded_witness:
  "\<exists>sv arr. served_run demo_lib [Post_vectors ''v''] sv
     \<and> serve demo_lib (Post_search ''q'') sv = (sv, answer demo_lib (Hits_reply arr)) \<and> (\<forall>(k, x) \<in> set arr. k = ''a'')"
proof -
  obtain sv where sv: "served_run demo_lib [Post_vectors ''v''] sv"
    "server_wf sv ([''a'' \<mapsto> (replicate 4 f32_zero, [])], Map.empty)"
    using demo_one_put by blast
  obtain arr where "serve demo_lib (Post_search ''q'') sv = (sv, answer demo_lib (Hits_reply arr))"
    "search_answer (replicate 4 f32_zero) 10 None [''a'' \<mapsto> (replicate 4 f32_zero, [])] arr"
    using server_search_grounded [OF sv(2) demo_bodies(2) demo_moderate] by auto
  with sv(1) show ?thesis
    by (intro exI [of _ sv] exI [of _ arr]) (auto simp: search_answer_def split: if_splits)
qed

end
