(* ===== verification/Number_Text.thy ===== *)
theory Number_Text
  imports Rag_Engine
begin

text \<open>
  Numbers on the command line, as \<^verbatim>\<open>std::strtoul\<close> and \<^verbatim>\<open>std::atoi\<close> read them: white space, a sign, decimal digits, and
  anything after that. The benchmark reads its sizes with the first, the server its port with the second. A number
  that was printed by \<^verbatim>\<open>std::to_string\<close> is read back.
\<close>

section \<open>Digits\<close>

definition is_digit :: "char \<Rightarrow> bool" where
  "is_digit c \<longleftrightarrow> 48 \<le> (of_char c :: nat) \<and> of_char c \<le> (57 :: nat)"

definition digits_value :: "string \<Rightarrow> nat" where
  "digits_value s = fold (\<lambda>c v. 10 * v + (of_char c - 48)) s 0"

text \<open>The sign and the digits after leading white space.\<close>

definition signed_digits :: "string \<Rightarrow> bool \<times> nat" where
  "signed_digits s =
     (let s1 = dropWhile is_space s;
          neg = (s1 \<noteq> [] \<and> hd s1 = CHR ''-'');
          s2 = (if s1 \<noteq> [] \<and> (hd s1 = CHR ''-'' \<or> hd s1 = CHR ''+'') then tl s1 else s1)
      in (neg, digits_value (takeWhile is_digit s2)))"

section \<open>The two functions of the library\<close>

text \<open>Too large a number becomes \<^verbatim>\<open>ULONG_MAX\<close>, a minus sign negates modulo \<open>2 ^ 64\<close>.\<close>

definition strtoul :: "string \<Rightarrow> nat" where
  "strtoul s = (case signed_digits s of (neg, v) \<Rightarrow>
     if 2 ^ 64 \<le> v then 2 ^ 64 - 1 else if neg then (2 ^ 64 - v) mod 2 ^ 64 else v)"

text \<open>The behaviour is undefined if the number is not an \<^verbatim>\<open>int\<close>.\<close>

definition atoi :: "string \<Rightarrow> int res" where
  "atoi s = (case signed_digits s of (neg, v) \<Rightarrow>
     let n = (if neg then - int v else int v)
     in if - (2 ^ 31) \<le> n \<and> n < 2 ^ 31 then Inr n else Inl Undefined_behaviour)"

section \<open>Numbers are read back\<close>

lemma to_string_digits: "\<forall>c \<in> set (to_string n). is_digit c"
proof (induction n rule: to_string.induct)
  case (1 n)
  have "is_digit (char_of (48 + k))" if "k < 10" for k :: nat
    using that by (simp add: is_digit_def)
  with 1 show ?case
    by (subst to_string.simps) auto
qed

lemma digits_value_to_string: "digits_value (to_string n) = n"
proof (induction n rule: to_string.induct)
  case (1 n)
  have digit: "of_char (char_of (48 + k)) - (48 :: nat) = k" if "k < 10" for k :: nat
    using that by simp
  show ?case
  proof (cases "n < 10")
    case True
    then show ?thesis
      using digit [of n] by (subst to_string.simps) (simp add: digits_value_def)
  next
    case False
    with 1 have "digits_value (to_string n) = 10 * (n div 10) + n mod 10"
      using digit [of "n mod 10"] by (subst to_string.simps) (simp add: digits_value_def)
    then show ?thesis
      by simp
  qed
qed

lemma to_string_not_empty: "to_string n \<noteq> []"
  by (subst to_string.simps) simp

lemma signed_digits_to_string: "signed_digits (to_string n) = (False, n)"
proof -
  obtain c cs where s: "to_string n = c # cs"
    using to_string_not_empty by (cases "to_string n") auto
  then have "is_digit c"
    using to_string_digits [of n] by simp
  then have "\<not> is_space c" "c \<noteq> CHR ''-''" "c \<noteq> CHR ''+''"
    by (auto simp: is_digit_def is_space_def)
  moreover have "takeWhile is_digit (to_string n) = to_string n"
    using to_string_digits by (simp add: takeWhile_eq_all_conv)
  ultimately show ?thesis
    using digits_value_to_string [of n] unfolding signed_digits_def s by simp
qed

lemma strtoul_to_string: "n < 2 ^ 64 \<Longrightarrow> strtoul (to_string n) = n"
  by (simp add: strtoul_def signed_digits_to_string)

lemma atoi_to_string: "n < 2 ^ 31 \<Longrightarrow> atoi (to_string n) = Inr (int n)"
  by (simp add: atoi_def signed_digits_to_string)

text \<open>Text without a number is read as zero.\<close>

lemma atoi_no_number: "takeWhile is_digit s = [] \<Longrightarrow> s = [] \<or> \<not> is_space (hd s) \<and> hd s \<notin> {CHR ''-'', CHR ''+''} \<Longrightarrow> atoi s = Inr 0"
  by (cases s) (auto simp: atoi_def signed_digits_def digits_value_def)

end
