(* ===== verification/Server_Main.thy ===== *)
theory Server_Main
  imports Server Number_Text
begin

text \<open>
  The program of \<^verbatim>\<open>server/server.cpp\<close>: it reads the port from its command line, builds the engines, and hands the
  handlers to the HTTP library, which calls them until it stops. The library is a parameter, the function that binds an
  address and a port; it returns the requests it dispatched, in the order in which their handlers took the mutex, or
  nothing if it could not bind.
\<close>

section \<open>The program\<close>

definition server_port :: "string list \<Rightarrow> int res" where
  "server_port argv = (if 1 < length argv then atoi (argv ! 1) else Inr 8080)"

text \<open>The headers every response is sent with.\<close>

definition default_headers :: "(string \<times> string) list" where
  "default_headers =
     [(''Access-Control-Allow-Origin'', ''*''), (''Access-Control-Allow-Methods'', ''GET, POST, DELETE, OPTIONS''),
      (''Access-Control-Allow-Headers'', ''Content-Type'')]"

record http_response =
  rs_status :: nat
  rs_headers :: "(string \<times> string) list"
  rs_body :: string

text \<open>What the client gets of a handler that returns; an exception that leaves it is answered by the library.\<close>

definition http_send :: "outcome \<Rightarrow> http_response option" where
  "http_send r = (case r of Response st body \<Rightarrow> Some \<lparr>rs_status = st, rs_headers = default_headers, rs_body = body\<rparr> | _ \<Rightarrow> None)"

fun serve_all :: "'j json_lib \<Rightarrow> http_request list \<Rightarrow> server \<Rightarrow> server \<times> outcome list" where
  "serve_all J [] sv = (sv, [])"
| "serve_all J (req # reqs) sv =
     (case serve J req sv of (sv1, r) \<Rightarrow> case serve_all J reqs sv1 of (sv2, rs) \<Rightarrow> (sv2, r # rs))"

definition print_int :: "int \<Rightarrow> string" where
  "print_int n = (if n < 0 then ''-'' @ to_string (nat (- n)) else to_string (nat n))"

record server_exit =
  se_status :: int
  se_out :: string
  se_err :: string
  se_server :: server
  se_outcomes :: "outcome list"

definition server_main ::
  "'j json_lib \<Rightarrow> (string \<Rightarrow> int \<Rightarrow> http_request list option) \<Rightarrow> (nat \<Rightarrow> nat) \<Rightarrow> (nat \<Rightarrow> nat) \<Rightarrow> string list \<Rightarrow> server_exit res" where
  "server_main J listen lv lr argv =
     rbind (server_port argv) (\<lambda>port.
     rbind (server_new lv lr) (\<lambda>sv.
       let out = ''toy-vector-db server listening on http://localhost:'' @ print_int port @ [CHR 0x0A]
       in case listen ''0.0.0.0'' port of
            None \<Rightarrow> Inr \<lparr>se_status = 1, se_out = out, se_err = ''failed to bind port '' @ print_int port @ [CHR 0x0A],
                     se_server = sv, se_outcomes = []\<rparr>
          | Some reqs \<Rightarrow>
              (case serve_all J reqs sv of (sv', rs) \<Rightarrow>
                 Inr \<lparr>se_status = 0, se_out = out, se_err = [], se_server = sv', se_outcomes = rs\<rparr>)))"

section \<open>A run of the program\<close>

fun sane_all :: "'j json_lib \<Rightarrow> http_request list \<Rightarrow> server \<Rightarrow> bool" where
  "sane_all J [] sv = True"
| "sane_all J (req # reqs) sv \<longleftrightarrow> sane J req sv \<and> sane_all J reqs (fst (serve J req sv))"

text \<open>A handler answered, and the client may call from another origin.\<close>

definition answered :: "outcome \<Rightarrow> bool" where
  "answered r \<longleftrightarrow> (\<exists>h. http_send r = Some h \<and> rs_status h \<in> {200, 204, 400} \<and> rs_headers h = default_headers)"

text \<open>What the HTTP library is left with: a response, or an exception for which it answers itself.\<close>

definition handled :: "outcome \<Rightarrow> bool" where
  "handled r \<longleftrightarrow> answered r \<or> (\<exists>er. r = Escaped er)"

lemma serve_handled:
  assumes "json_ok J" and "server_wf sv c" and "sane J req sv" and "contents_utf8 c"
  shows "handled (snd (serve J req sv))"
proof -
  have sent: "answered (Response st body)" if "st = 200 \<or> st = 204 \<or> st = 400" for st body
    using that by (simp add: answered_def http_send_def)
  have err: "er \<noteq> Undefined_behaviour \<Longrightarrow> handled (caught J src er)" for src er
    using caught_outcome [OF assms(1), of er src] sent by (auto simp: handled_def)
  consider "req = Options" | "ends_well J (In_request (request_text req)) sv (serve J req sv)"
    using serve_ok(2) [OF assms] by blast
  then show ?thesis
    by cases (use sent err in \<open>auto simp: ends_well_def handled_def split: prod.splits\<close>)
qed

lemma serve_all_ok:
  assumes "json_ok J"
  shows "server_wf sv c \<Longrightarrow> contents_utf8 c \<Longrightarrow> sane_all J reqs sv \<Longrightarrow> serve_all J reqs sv = (sv', rs) \<Longrightarrow>
    server_wf sv' (fold (request_effect J) reqs c) \<and> length rs = length reqs \<and> (\<forall>r \<in> set rs. handled r)"
proof (induction reqs arbitrary: sv c rs)
  case (Cons req reqs)
  obtain sv1 r rs1 where r: "serve J req sv = (sv1, r)" and rs: "serve_all J reqs sv1 = (sv', rs1)" "rs = r # rs1"
    using Cons.prems(4) by (auto split: prod.splits)
  have s: "sane J req sv" "sane_all J reqs sv1"
    using Cons.prems(3) r by simp_all
  show ?case
    using Cons.IH [OF _ _ s(2) rs(1)] serve_ok(1) [OF assms Cons.prems(1) s(1) Cons.prems(2)]
      serve_handled [OF assms Cons.prems(1) s(1) Cons.prems(2)] request_effect_utf8 [OF assms Cons.prems(2)] r rs(2)
    by simp
qed simp

text \<open>
  Started without an argument or with a number as port, the program runs. If the library binds the port, the program exits
  with status 0 after every request was answered with the headers that let other origins call it, or left to the
  library because the text of an exception could not be sent, and its engines hold
  what the requests describe; otherwise it reports the port, exits with status 1 and has served nothing.
\<close>

lemma server_main_ok:
  assumes "json_ok J" and "length argv \<le> 1 \<and> port = 8080 \<or> 1 < length argv \<and> argv ! 1 = to_string n \<and> n < 2 ^ 31 \<and> port = int n"
    and "\<And>sv reqs. server_new lv lr = Inr sv \<Longrightarrow> listen ''0.0.0.0'' port = Some reqs \<Longrightarrow> sane_all J reqs sv"
  shows "\<exists>r. server_main J listen lv lr argv = Inr r \<and>
    (case listen ''0.0.0.0'' port of
       None \<Rightarrow> se_status r = 1 \<and> server_wf (se_server r) (Map.empty, Map.empty) \<and> se_outcomes r = []
     | Some reqs \<Rightarrow> se_status r = 0 \<and> server_wf (se_server r) (fold (request_effect J) reqs (Map.empty, Map.empty))
         \<and> length (se_outcomes r) = length reqs \<and> list_all handled (se_outcomes r))"
proof -
  have port: "server_port argv = Inr port"
    using assms(2) atoi_to_string [of n] by (auto simp: server_port_def)
  obtain sv where sv: "server_new lv lr = Inr sv" "server_wf sv (Map.empty, Map.empty)"
    using server_new_ok [of lv lr] by blast
  show ?thesis
  proof (cases "listen ''0.0.0.0'' port")
    case None
    with port sv show ?thesis
      by (simp add: server_main_def Let_def)
  next
    case (Some reqs)
    obtain sv' rs where "serve_all J reqs sv = (sv', rs)"
      by (cases "serve_all J reqs sv")
    with serve_all_ok [OF assms(1) sv(2) _ assms(3) [OF sv(1) Some]] port sv(1) Some show ?thesis
      by (simp add: server_main_def Let_def list_all_iff contents_utf8_def)
  qed
qed

end
