(* ===== verification/Recall_Harness.thy ===== *)
theory Recall_Harness
  imports Rag_Runs
begin

text \<open>
  The functions of \<^verbatim>\<open>bench/recall_harness.cpp\<close>, the program that measures the recall of the HNSW index
  against the exact one, and the data it builds: synthetic vectors, the two engines that index them, recall
  and percentiles. The random draws are parameters. The lemmas show that the two engines number their entries
  alike, so that comparing internal ids is sound, and that a recall is always a number between zero and one, in
  spite of its floating-point sums. The program itself follows in theory \<open>Bench_Program\<close>.
\<close>

section \<open>The functions of the harness\<close>

definition random_vector :: "(nat \<Rightarrow> f32) \<Rightarrow> dim \<Rightarrow> fvec" where
  "random_vector draw d = map draw [0..<unat d]"

definition clustered_vector :: "(nat \<Rightarrow> f32) \<Rightarrow> fvec list \<Rightarrow> nat \<Rightarrow> fvec res" where
  "clustered_vector noise centroids which =
     rbind (vget centroids which) (\<lambda>c. Inr (map (\<lambda>d. f32_add (c ! d) (noise d)) [0..<length c]))"

text \<open>A set of ids stands for \<^verbatim>\<open>std::unordered_set<InternalId>\<close>.\<close>

definition count_hits :: "internal_id set \<Rightarrow> search_result list \<Rightarrow> nat" where
  "count_hits truth got = fold (\<lambda>r hit. if sr_id r \<in> truth then Suc hit else hit) got 0"

definition recall_step ::
  "internal_id set list \<Rightarrow> search_result list list \<Rightarrow> nat \<Rightarrow> nat \<Rightarrow> f64 \<Rightarrow> f64 res" where
  "recall_step truth got k q acc =
     rbind (vget got q) (\<lambda>g. rbind (vget truth q) (\<lambda>t.
       Inr (f64_add acc (f64_div (f64_of_int (int (count_hits t g))) (f64_of_int (int k))))))"

definition recall_at_k :: "internal_id set list \<Rightarrow> search_result list list \<Rightarrow> nat \<Rightarrow> f64 res" where
  "recall_at_k truth got k =
     rbind (rfold (recall_step truth got k) [0..<length truth] 0) (\<lambda>acc.
       Inr (if truth = [] then 0 else f64_div acc (f64_of_int (int (length truth)))))"

text \<open>\<^verbatim>\<open>static_cast<std::size_t>\<close> of a double truncates; a value outside the range of the type is undefined.\<close>

definition f64_to_size :: "f64 \<Rightarrow> nat res" where
  "f64_to_size a =
     (let x = unpack64 a; v = mag binary64 (snd x) div 2 ^ 1074
      in if inf_bits binary64 \<le> snd x \<or> 2 ^ 64 \<le> v \<or> (fst x \<and> 0 < v) then Inl Undefined_behaviour else Inr v)"

definition percentile :: "f64 list \<Rightarrow> f64 \<Rightarrow> f64 res" where
  "percentile xs p =
     (if xs = [] then Inr 0
      else let ys = sort_by f64_lt xs
           in rbind (f64_to_size (f64_mul p (f64_of_int (int (length ys - 1))))) (vget ys))"

section \<open>The data and the engines\<close>

text \<open>The random numbers, by the number of the vector and the component.\<close>

record draws =
  dr_centroid :: "nat \<Rightarrow> nat \<Rightarrow> f32"
  dr_noise :: "nat \<Rightarrow> nat \<Rightarrow> f32"
  dr_pick :: "nat \<Rightarrow> nat"
  dr_query :: "nat \<Rightarrow> nat \<Rightarrow> f32"

definition num_clusters :: nat where
  "num_clusters = 100"

definition make_centroids :: "draws \<Rightarrow> dim \<Rightarrow> fvec list" where
  "make_centroids dr d = map (\<lambda>c. random_vector (dr_centroid dr c) d) [0..<num_clusters]"

definition make_data :: "draws \<Rightarrow> fvec list \<Rightarrow> nat \<Rightarrow> fvec list res" where
  "make_data dr centroids n =
     rfold (\<lambda>i out. rbind (clustered_vector (dr_noise dr i) centroids (i mod num_clusters)) (\<lambda>v. Inr (out @ [v]))) [0..<n] []"

definition make_queries :: "draws \<Rightarrow> fvec list \<Rightarrow> nat \<Rightarrow> fvec list res" where
  "make_queries dr centroids q =
     rfold (\<lambda>i out. rbind (clustered_vector (dr_query dr i) centroids (dr_pick dr i)) (\<lambda>v. Inr (out @ [v]))) [0..<q] []"

definition bench_config :: "(nat \<Rightarrow> nat) \<Rightarrow> dim \<Rightarrow> index_kind \<Rightarrow> engine_config" where
  "bench_config levels d ik = \<lparr>cfg_dim = d, cfg_metric = L2, cfg_index = ik, cfg_hnsw = default_hnsw levels, cfg_persistence = None\<rparr>"

definition vec_name :: "nat \<Rightarrow> string" where
  "vec_name i = ''v'' @ to_string i"

definition build :: "fvec list \<Rightarrow> engine \<Rightarrow> engine \<times> unit res" where
  "build xs e = eloop (\<lambda>i. engine_insert (vec_name i) (xs ! i) []) [0..<length xs] e"

section \<open>Doubles that hold counts\<close>

text \<open>\<open>at_most x m\<close>: a non-negative double not above the whole number \<open>m\<close>.\<close>

definition count_fp :: "nat \<Rightarrow> fp" where
  "count_fp m = fp_of_int binary64 (int m)"

definition at_most :: "fp \<Rightarrow> nat \<Rightarrow> bool" where
  "at_most x m \<longleftrightarrow> \<not> fst x \<and> snd x \<le> snd (count_fp m)"

lemma count_fp_bits:
  assumes "m \<le> 2 ^ 53"
  shows "\<not> fst (count_fp m)" "snd (count_fp m) < inf_bits binary64" "mag binary64 (snd (count_fp m)) = m * 2 ^ 1074"
    "snd (count_fp m) = round_units binary64 (m * 2 ^ 1074) 1"
proof -
  have m: "\<bar>int m\<bar> \<le> 2 ^ 53"
    using assms by simp
  show f: "\<not> fst (count_fp m)" and "snd (count_fp m) = round_units binary64 (m * 2 ^ 1074) 1"
    by (simp_all add: count_fp_def fp_of_int_def)
  show "snd (count_fp m) < inf_bits binary64"
    using sval_of_int_exact(1) [OF m] by (simp add: count_fp_def)
  have "int (mag binary64 (snd (count_fp m))) = int m * 2 ^ 1074"
    using sval_of_int_exact(2) [OF m] f unfolding sval_def count_fp_def by simp
  then show "mag binary64 (snd (count_fp m)) = m * 2 ^ 1074"
    by (simp only: of_nat_eq_iff [where 'a = int, symmetric] of_nat_mult of_nat_power of_nat_numeral)
qed

lemma at_most_finite: "at_most x m \<Longrightarrow> m \<le> 2 ^ 53 \<Longrightarrow> snd x < inf_bits binary64 \<and> mag binary64 (snd x) \<le> m * 2 ^ 1074"
  using count_fp_bits [of m] mag_mono [of "snd x" "snd (count_fp m)" binary64] by (simp add: at_most_def)

lemma at_most_count: "m \<le> 2 ^ 53 \<Longrightarrow> at_most (count_fp m) m"
  by (simp add: at_most_def count_fp_bits)

lemma at_most_add:
  assumes x: "at_most x m" and y: "at_most y n" and bound: "m + n \<le> 2 ^ 53"
  shows "at_most (fp_add binary64 x y) (m + n)"
proof -
  have mx: "snd x < inf_bits binary64" "mag binary64 (snd x) \<le> m * 2 ^ 1074" "\<not> fst x"
    and my: "snd y < inf_bits binary64" "mag binary64 (snd y) \<le> n * 2 ^ 1074" "\<not> fst y"
    using at_most_finite [OF x] at_most_finite [OF y] x y bound by (simp_all add: at_most_def)
  let ?v = "mag binary64 (snd x) + mag binary64 (snd y)"
  have "?v \<le> (m + n) * 2 ^ 1074"
    using mx(2) my(2) unfolding add_mult_distrib by (rule add_mono)
  then have "round_units binary64 ?v 1 \<le> snd (count_fp (m + n))"
    unfolding count_fp_bits(4) [OF bound] by (intro round_units_mono) simp_all
  then show ?thesis
    using fp_add_pos [OF mx(3) my(3) mx(1) my(1) refl] fp_add_zeros [OF mx(3) my(3) mx(1) my(1)]
    by (cases "?v = 0") (simp_all add: at_most_def)
qed

lemma at_most_div:
  assumes x: "at_most x m" and m: "0 < m" "m \<le> 2 ^ 53"
  shows "at_most (fp_div binary64 x (count_fp m)) 1"
proof -
  note c = count_fp_bits [OF m(2)]
  have mx: "snd x < inf_bits binary64" "mag binary64 (snd x) \<le> m * 2 ^ 1074" "\<not> fst x"
    using at_most_finite [OF x m(2)] x by (simp_all add: at_most_def)
  have pos: "0 < mag binary64 (snd (count_fp m))"
    unfolding c(3) using m(1) by simp
  have "mag binary64 (snd x) * 2 ^ 1074 \<le> 2 ^ 1074 * mag binary64 (snd (count_fp m))"
    using mult_le_mono1 [OF mx(2), of "2 ^ 1074"] unfolding c(3) by (simp only: ac_simps)
  then have "round_units binary64 (mag binary64 (snd x) * 2 ^ 1074) (mag binary64 (snd (count_fp m)))
      \<le> round_units binary64 (2 ^ 1074 * mag binary64 (snd (count_fp m))) (mag binary64 (snd (count_fp m)))"
    using pos by (intro round_units_mono) simp_all
  also have "\<dots> = snd (count_fp 1)"
    unfolding round_units_cancel [OF pos] by (subst count_fp_bits(4)) simp_all
  finally show ?thesis
    using fp_div_pos [OF mx(3) c(1) mx(1) c(2) pos] by (simp add: at_most_def)
qed

lemma at_most_mul:
  assumes x: "at_most x 1" and m: "m \<le> 2 ^ 53"
  shows "at_most (fp_mul binary64 x (count_fp m)) m"
proof -
  note c = count_fp_bits [OF m]
  have mx: "snd x < inf_bits binary64" "mag binary64 (snd x) \<le> 1 * 2 ^ 1074" "\<not> fst x"
    using at_most_finite [OF x] x by (simp_all add: at_most_def)
  have "mag binary64 (snd x) * mag binary64 (snd (count_fp m)) \<le> m * 2 ^ 1074 * 2 ^ 1074"
    using mult_le_mono1 [OF mx(2), of "m * 2 ^ 1074"] unfolding c(3) by (simp only: ac_simps mult_1)
  then have "round_units binary64 (mag binary64 (snd x) * mag binary64 (snd (count_fp m))) (2 ^ 1074)
      \<le> round_units binary64 (m * 2 ^ 1074 * 2 ^ 1074) (2 ^ 1074)"
    by (intro round_units_mono) simp_all
  also have "\<dots> = snd (count_fp m)"
    unfolding c(4) by (rule round_units_cancel) simp
  finally show ?thesis
    using fp_mul_pos [OF mx(3) c(1) mx(1) c(2)] by (simp add: at_most_def)
qed

text \<open>Whole numbers are added and divided exactly.\<close>

lemma count_add:
  assumes "m + n \<le> 2 ^ 53" and "0 < m + n"
  shows "fp_add binary64 (count_fp m) (count_fp n) = count_fp (m + n)"
proof -
  have "m \<le> 2 ^ 53" "n \<le> 2 ^ 53"
    using assms(1) by simp_all
  note cm = count_fp_bits [OF this(1)] and cn = count_fp_bits [OF this(2)] and c = count_fp_bits [OF assms(1)]
  have "0 < (m + n) * (2 :: nat) ^ 1074"
    using assms(2) by simp
  then have "fp_add binary64 (count_fp m) (count_fp n) = (False, round_units binary64 ((m + n) * 2 ^ 1074) 1)"
    by (intro fp_add_pos cm(1,2) cn(1,2)) (simp only: cm(3) cn(3) add_mult_distrib)
  then show ?thesis
    using c(1,4) by (simp add: prod_eq_iff)
qed

lemma count_div:
  assumes "0 < m" and "m \<le> 2 ^ 53"
  shows "fp_div binary64 (count_fp m) (count_fp m) = count_fp 1"
proof -
  note c = count_fp_bits [OF assms(2)]
  have pos: "0 < mag binary64 (snd (count_fp m))"
    unfolding c(3) using assms(1) by simp
  have "round_units binary64 (mag binary64 (snd (count_fp m)) * 2 ^ 1074) (mag binary64 (snd (count_fp m))) = snd (count_fp 1)"
    using round_units_cancel [OF pos, of binary64 "2 ^ 1074"] count_fp_bits(4) [of 1] by (simp add: mult.commute)
  then show ?thesis
    using fp_div_pos [OF c(1) c(1) c(2) c(2) pos] count_fp_bits(1) [of 1] by (simp add: prod_eq_iff)
qed

section \<open>Recall is a ratio\<close>

definition between :: "f64 \<Rightarrow> nat \<Rightarrow> bool" where
  "between a m \<longleftrightarrow> at_most (unpack64 a) m"

lemma fits_at_most: "at_most x m \<Longrightarrow> m \<le> 2 ^ 53 \<Longrightarrow> fits64 x"
  using at_most_finite [of x m] by (simp add: fits64_def)

lemma unpack_count: "unpack64 (f64_of_int (int m)) = count_fp m"
  by (simp add: unpack_f64_of_int count_fp_def)

lemma between_zero [simp]: "between 0 m"
  by (simp add: between_def at_most_def unpack64_def)

lemma between_count: "m \<le> n \<Longrightarrow> n \<le> 2 ^ 53 \<Longrightarrow> between (f64_of_int (int m)) n"
proof -
  assume b: "m \<le> n" "n \<le> 2 ^ 53"
  then have "round_units binary64 (m * 2 ^ 1074) 1 \<le> round_units binary64 (n * 2 ^ 1074) 1"
    by (intro round_units_mono mult_le_mono1) simp_all
  then show ?thesis
    using count_fp_bits(1,4) [of m] count_fp_bits(4) [of n] b unfolding between_def unpack_count at_most_def by simp
qed

lemma between_add: "between a m \<Longrightarrow> between b n \<Longrightarrow> m + n \<le> 2 ^ 53 \<Longrightarrow> between (f64_add a b) (m + n)"
  using at_most_add [of "unpack64 a" m "unpack64 b" n] fits_at_most [of _ "m + n"]
  by (simp add: between_def f64_add_def unpack_pack64)

lemma between_div: "between a m \<Longrightarrow> 0 < m \<Longrightarrow> m \<le> 2 ^ 53 \<Longrightarrow> between (f64_div a (f64_of_int (int m))) 1"
  using at_most_div [of "unpack64 a" m] fits_at_most [of _ 1]
  by (simp add: between_def f64_div_def unpack_count unpack_pack64)

lemma between_mul: "between a 1 \<Longrightarrow> m \<le> 2 ^ 53 \<Longrightarrow> between (f64_mul a (f64_of_int (int m))) m"
  using at_most_mul [of "unpack64 a" m] fits_at_most [of _ m]
  by (simp add: between_def f64_mul_def unpack_count unpack_pack64)

lemma f64_counts:
  shows "m + n \<le> 2 ^ 53 \<Longrightarrow> 0 < m + n \<Longrightarrow> f64_add (f64_of_int (int m)) (f64_of_int (int n)) = f64_of_int (int (m + n))"
    and "0 < m \<Longrightarrow> m \<le> 2 ^ 53 \<Longrightarrow> f64_div (f64_of_int (int m)) (f64_of_int (int m)) = f64_of_int 1"
proof -
  show "f64_add (f64_of_int (int m)) (f64_of_int (int n)) = f64_of_int (int (m + n))" if "m + n \<le> 2 ^ 53" "0 < m + n"
    using count_add [OF that] unfolding f64_add_def unpack_count by (simp only: count_fp_def f64_of_int_def)
  show "f64_div (f64_of_int (int m)) (f64_of_int (int m)) = f64_of_int 1" if "0 < m" "m \<le> 2 ^ 53"
    using count_div [OF that] unfolding f64_div_def unpack_count by (simp only: count_fp_def f64_of_int_def of_nat_1)
qed

lemma f64_of_one: "f64_of_int 1 = f64_one"
proof -
  have m: "mag binary64 0x3FF0000000000000 = 1 * 2 ^ 1074"
    by (simp add: mag_def)
  have "round_units binary64 (1 * 2 ^ 1074) 1 = 0x3FF0000000000000"
    unfolding m [symmetric] by (rule round_units_mag) simp_all
  then have "fp_of_int binary64 1 = (False, 0x3FF0000000000000)"
    unfolding fp_of_int_def binary64_simps by simp
  then show ?thesis
    by (simp add: f64_of_int_def pack64_def f64_one_def)
qed

definition ratio :: "f64 \<Rightarrow> bool" where
  "ratio r \<longleftrightarrow> \<not> f64_is_nan r \<and> \<not> f64_lt r 0 \<and> \<not> f64_lt f64_one r"

lemma between_ratio: "between a 1 \<Longrightarrow> ratio a"
proof -
  assume a: "between a 1"
  have "unpack64 f64_one = count_fp 1"
    using unpack_count [of 1] f64_of_one by simp
  moreover have "unpack64 0 = (False, 0)"
    by (simp add: unpack64_def)
  ultimately show ?thesis
    using a at_most_finite [of "unpack64 a" 1] count_fp_bits(1) [of 1]
    by (simp add: ratio_def between_def at_most_def f64_is_nan_def f64_lt_def fp_lt_def fp_is_nan_def fp_key_def)
qed

lemma count_hits_filter: "count_hits t g = length (List.filter (\<lambda>r. sr_id r \<in> t) g)"
proof -
  have "fold (\<lambda>r hit. if sr_id r \<in> t then Suc hit else hit) g n = n + length (List.filter (\<lambda>r. sr_id r \<in> t) g)" for n
    by (induction g arbitrary: n) simp_all
  then show ?thesis
    by (simp add: count_hits_def)
qed

lemma recall_between:
  assumes len: "length got = length truth" and hits: "\<forall>g \<in> set got. length g \<le> k" and k: "0 < k" "k \<le> 2 ^ 53" and q: "length truth \<le> 2 ^ 53"
  shows "\<exists>r. recall_at_k truth got k = Inr r \<and> between r 1"
proof -
  have step: "\<exists>s. recall_step truth got k i acc = Inr s \<and> between s (Suc i)"
    if "i < length truth" "between acc i" for i acc
  proof -
    have "count_hits (truth ! i) (got ! i) \<le> k"
      using hits len that(1) nth_mem [of i got] by (auto simp: count_hits_filter intro: le_trans [OF length_filter_le])
    then have "between (f64_div (f64_of_int (int (count_hits (truth ! i) (got ! i)))) (f64_of_int (int k))) 1"
      using k by (intro between_div between_count) simp_all
    from between_add [OF that(2) this] show ?thesis
      using that(1) len q by (simp add: recall_step_def vec_simps)
  qed
  have "\<exists>s. rfold (recall_step truth got k) [0..<n] 0 = Inr s \<and> between s n" if "n \<le> length truth" for n
    using that
  proof (induction n)
    case (Suc n)
    then obtain s where s: "rfold (recall_step truth got k) [0..<n] 0 = Inr s" "between s n"
      by auto
    with step [of n s] Suc.prems show ?case
      by (auto simp: rfold_append)
  qed simp
  from this [of "length truth"] obtain s where "rfold (recall_step truth got k) [0..<length truth] 0 = Inr s" "between s (length truth)"
    by blast
  with between_div [of s "length truth"] q show ?thesis
    by (auto simp: recall_at_k_def)
qed

lemma recall_perfect:
  assumes len: "length got = length truth" and hits: "\<forall>i < length truth. count_hits (truth ! i) (got ! i) = k"
    and k: "0 < k" "k \<le> 2 ^ 53" and q: "0 < length truth" "length truth \<le> 2 ^ 53"
  shows "recall_at_k truth got k = Inr f64_one"
proof -
  have "rfold (recall_step truth got k) [0..<n] 0 = Inr (f64_of_int (int n))" if "n \<le> length truth" for n
    using that
  proof (induction n)
    case 0
    show ?case
      by (simp add: f64_of_int_def fp_of_int_def pack64_def round_units_def rne_def)
  next
    case (Suc n)
    have "recall_step truth got k n (f64_of_int (int n)) = Inr (f64_of_int (int (Suc n)))"
      using Suc.prems hits len q(2) f64_counts(2) [OF k] f64_counts(1) [of n 1] by (simp add: recall_step_def vec_simps)
    with Suc show ?case
      by (simp add: rfold_append)
  qed
  from this [of "length truth"] show ?thesis
    using f64_counts(2) [OF q] f64_of_one q(1) by (auto simp: recall_at_k_def)
qed

lemma f64_to_size_between:
  assumes "between a m" and "m \<le> 2 ^ 53"
  shows "\<exists>v \<le> m. f64_to_size a = Inr v"
proof -
  define x v where "x = unpack64 a" and "v = mag binary64 (snd x) div 2 ^ 1074"
  have f: "snd x < inf_bits binary64" "mag binary64 (snd x) \<le> m * 2 ^ 1074" "\<not> fst x"
    using at_most_finite [of x m] assms by (simp_all add: x_def between_def at_most_def)
  have "v \<le> m * 2 ^ 1074 div 2 ^ 1074"
    unfolding v_def by (rule div_le_mono [OF f(2)])
  also have "\<dots> = m"
    by (rule nonzero_mult_div_cancel_right) simp
  finally have v: "v \<le> m" .
  moreover have "f64_to_size a = Inr v"
    using f(1,3) v assms(2) unfolding f64_to_size_def Let_def x_def [symmetric] v_def [symmetric] by simp
  ultimately show ?thesis
    by blast
qed

lemma percentile_in:
  assumes "between p 1" and "xs \<noteq> []" and "length xs \<le> 2 ^ 53"
  shows "\<exists>x \<in> set xs. percentile xs p = Inr x"
proof -
  have "between (f64_mul p (f64_of_int (int (length xs - 1)))) (length xs - 1)"
    using assms(3) by (intro between_mul assms(1)) simp
  then obtain v where v: "f64_to_size (f64_mul p (f64_of_int (int (length xs - 1)))) = Inr v" "v \<le> length xs - 1"
    using f64_to_size_between [OF _ le_trans [OF diff_le_self assms(3)]] by blast
  then have "v < length (sort_by f64_lt xs)"
    using assms(2) by (cases xs) simp_all
  with v(1) assms(2) nth_mem [OF this] show ?thesis
    by (auto simp: percentile_def Let_def vec_simps)
qed

text \<open>The fractions of a run time are non-negative and can only become smaller.\<close>

lemma at_most_shrink:
  assumes x: "at_most x m" and m: "m \<le> 2 ^ 53" and c: "0 < c" "c \<le> 2 ^ 53"
  shows "at_most (fp_div binary64 x (count_fp c)) m"
proof -
  note b = count_fp_bits [OF c(2)]
  have mx: "snd x < inf_bits binary64" "mag binary64 (snd x) \<le> m * 2 ^ 1074" "\<not> fst x"
    using at_most_finite [OF x m] x by (simp_all add: at_most_def)
  have pos: "0 < mag binary64 (snd (count_fp c))"
    unfolding b(3) using c(1) by simp
  have "mag binary64 (snd x) * 2 ^ 1074 \<le> m * 2 ^ 1074 * mag binary64 (snd (count_fp c))"
    unfolding b(3) using mx(2) c(1) by (intro mult_le_mono) simp_all
  then have "round_units binary64 (mag binary64 (snd x) * 2 ^ 1074) (mag binary64 (snd (count_fp c))) \<le> snd (count_fp m)"
    unfolding count_fp_bits(4) [OF m] round_units_cancel [OF pos, symmetric] using pos by (intro round_units_mono) simp_all
  then show ?thesis
    using fp_div_pos [OF mx(3) b(1) mx(1) b(2) pos] by (simp add: at_most_def)
qed

lemma between_shrink: "between a m \<Longrightarrow> m \<le> 2 ^ 53 \<Longrightarrow> 0 < c \<Longrightarrow> c \<le> 2 ^ 53 \<Longrightarrow> between (f64_div a (f64_of_int (int c))) m"
  using at_most_shrink [of "unpack64 a" m c] by (simp add: between_def unpack_f64_op unpack_count)

lemma between_mono: "between a m \<Longrightarrow> m \<le> n \<Longrightarrow> n \<le> 2 ^ 53 \<Longrightarrow> between a n"
  using between_count [of m n] by (simp add: between_def at_most_def unpack_count)

definition f64_key :: "f64 \<Rightarrow> int" where
  "f64_key a = fp_key (unpack64 a)"

text \<open>\<open>sound a\<close>: a number, finite or not, that is not negative.\<close>

definition sound :: "f64 \<Rightarrow> bool" where
  "sound a \<longleftrightarrow> \<not> f64_is_nan a \<and> \<not> f64_lt a 0"

lemma sound_iff: "sound a \<longleftrightarrow> \<not> f64_is_nan a \<and> 0 \<le> f64_key a"
  by (auto simp: sound_def f64_lt_def fp_lt_def f64_is_nan_def f64_key_def unpack64_def fp_key_def fp_is_nan_def)

lemma sound_pos: "\<not> fst (unpack64 a) \<Longrightarrow> snd (unpack64 a) \<le> inf_bits binary64 \<Longrightarrow> sound a"
  by (simp add: sound_iff f64_is_nan_def fp_is_nan_def f64_key_def fp_key_def)

lemma between_sound: "between a m \<Longrightarrow> m \<le> 2 ^ 53 \<Longrightarrow> sound a"
  using at_most_finite [of "unpack64 a" m] by (intro sound_pos) (simp_all add: between_def at_most_def)

text \<open>\<^verbatim>\<open>std::sort\<close> of latencies: they are ordered by their keys.\<close>

interpretation latency_order: keyed_order f64_lt "\<lambda>a. \<not> f64_is_nan a" f64_key
  by unfold_locales (simp add: f64_lt_def fp_lt_def f64_is_nan_def f64_key_def)

lemma f64_to_size_mono:
  assumes "between a m" "between b m" "m \<le> 2 ^ 53" and "snd (unpack64 a) \<le> snd (unpack64 b)" and "f64_to_size a = Inr i" "f64_to_size b = Inr j"
  shows "i \<le> j"
proof -
  have "snd (unpack64 b) < inf_bits binary64"
    using at_most_finite [of "unpack64 b" m] assms(2,3) by (simp add: between_def)
  then have "mag binary64 (snd (unpack64 a)) div 2 ^ 1074 \<le> mag binary64 (snd (unpack64 b)) div 2 ^ 1074"
    using assms(4) by (intro div_le_mono mag_mono) simp_all
  then show ?thesis
    using assms(5,6) by (simp add: f64_to_size_def Let_def split: if_splits)
qed

lemma mul_key_mono:
  assumes "between p 1" "between p' 1" "snd (unpack64 p) \<le> snd (unpack64 p')" and "m \<le> 2 ^ 53"
  shows "snd (unpack64 (f64_mul p (f64_of_int (int m)))) \<le> snd (unpack64 (f64_mul p' (f64_of_int (int m))))"
proof -
  note c = count_fp_bits [OF assms(4)]
  have p: "\<not> fst (unpack64 p)" "snd (unpack64 p) < inf_bits binary64" and p': "\<not> fst (unpack64 p')" "snd (unpack64 p') < inf_bits binary64"
    using at_most_finite [of "unpack64 p" 1] at_most_finite [of "unpack64 p'" 1] assms(1,2) by (simp_all add: between_def at_most_def)
  have "mag binary64 (snd (unpack64 p)) \<le> mag binary64 (snd (unpack64 p'))"
    using assms(3) p'(2) by (intro mag_mono) simp_all
  then have "round_units binary64 (mag binary64 (snd (unpack64 p)) * mag binary64 (snd (count_fp m))) (2 ^ unit_exp binary64)
      \<le> round_units binary64 (mag binary64 (snd (unpack64 p')) * mag binary64 (snd (count_fp m))) (2 ^ unit_exp binary64)"
    by (intro round_units_mono mult_le_mono1) simp_all
  then show ?thesis
    unfolding unpack_f64_op unpack_count fp_mul_pos [OF p(1) c(1) p(2) c(2)] fp_mul_pos [OF p'(1) c(1) p'(2) c(2)] by simp
qed

text \<open>A higher percentile of the same sample is not smaller.\<close>

lemma percentile_mono:
  assumes p: "between p 1" "between p' 1" "snd (unpack64 p) \<le> snd (unpack64 p')" and xs: "\<forall>x \<in> set xs. sound x" "length xs \<le> 2 ^ 53"
    and r: "percentile xs p = Inr a" "percentile xs p' = Inr b"
  shows "f64_key a \<le> f64_key b"
proof (cases "xs = []")
  case False
  let ?m = "length xs - 1" and ?ys = "sort_by f64_lt xs"
  have m: "?m \<le> 2 ^ 53"
    using xs(2) by simp
  note b = between_mul [OF p(1) m] between_mul [OF p(2) m]
  obtain i j where ij: "f64_to_size (f64_mul p (f64_of_int (int ?m))) = Inr i" "i \<le> ?m" "f64_to_size (f64_mul p' (f64_of_int (int ?m))) = Inr j" "j \<le> ?m"
    using f64_to_size_between [OF b(1) m] f64_to_size_between [OF b(2) m] by blast
  have "i \<le> j"
    using f64_to_size_mono [OF b m mul_key_mono [OF p m] ij(1,3)] .
  moreover have "sorted_wrt (\<lambda>a b. f64_key a \<le> f64_key b) ?ys"
    using xs(1) by (intro latency_order.sort_by_sorted) (simp add: sound_def)
  moreover have "i < length ?ys" "j < length ?ys"
    using ij(2,4) False by (cases xs; simp)+
  moreover have "a = ?ys ! i" "b = ?ys ! j"
    using r ij False calculation(3,4) by (simp_all add: percentile_def Let_def vec_simps)
  ultimately show ?thesis
    by (cases "i = j") (simp_all add: sorted_wrt_iff_nth_less)
qed (use r in \<open>simp add: percentile_def\<close>)

section \<open>The engines of the harness\<close>

text \<open>An engine in memory after the first \<open>i\<close> vectors: the entry of vector \<open>j\<close> has the internal id \<open>j\<close>, whatever the index.\<close>

lemma vec_name_eq: "vec_name i = vec_name j \<longleftrightarrow> i = j"
  using to_string_inj [of i j] by (auto simp: vec_name_def)

definition holds_prefix :: "fvec list \<Rightarrow> nat \<Rightarrow> engine \<Rightarrow> bool" where
  "holds_prefix xs i e \<longleftrightarrow>
     mem_engine e \<and> ext_ids (eng_store e) = map vec_name [0..<i]
   \<and> store_abs (eng_store e) = map_of (map (\<lambda>j. (vec_name j, xs ! j, [])) [0..<i])"

lemma insert_next:
  assumes e: "holds_prefix xs i e" and i: "i < length xs" "i < 2 ^ 32 - 1" and x: "length (xs ! i) = unat (cfg_dim (eng_cfg e))"
  shows "\<exists>e' k. engine_insert (vec_name i) (xs ! i) [] e = (e', Inr k) \<and> holds_prefix xs (Suc i) e' \<and> eng_cfg e' = eng_cfg e"
proof -
  let ?s = "eng_store e" and ?p = "\<lparr>op_type = Insert, op_ext_id = vec_name i, op_vec = xs ! i, op_meta = Some []\<rparr>"
  have W: "mem_engine e" "engine_wf e" "eng_wal e = None" "ext_ids ?s = map vec_name [0..<i]"
    "store_abs ?s = map_of (map (\<lambda>j. (vec_name j, xs ! j, [])) [0..<i])"
    using e by (simp_all add: holds_prefix_def mem_engine_def)
  note D = engine_wfD [OF W(2)]
  have new: "ext_to_int ?s (vec_name i) = None"
  proof (rule ccontr)
    assume "ext_to_int ?s (vec_name i) \<noteq> None"
    then obtain j where j: "ext_to_int ?s (vec_name i) = Some j" by blast
    have "unat j < length (ext_ids ?s)" "ext_ids ?s ! unat j = vec_name i"
      using ext_to_int_bound [OF D(1) j] by simp_all
    then show False
      by (simp add: W(4) vec_name_eq)
  qed
  have room: "has_room ?s"
    using i(2) W(4) by (simp add: has_room_def)
  have ok: "op_ok (vs_dim ?s) ?p"
    using x D(4) by (simp add: op_ok_def meta_wf_def)
  obtain k s' x' where a: "apply_mem ?p (?s, eng_index e) = Inr (k, s', x')" "store_wf s'" "coupled s' x'" "vs_dim s' = vs_dim ?s"
    "store_abs s' = spec_apply ?p (store_abs ?s)" "index_metric x' = index_metric (eng_index e)" "ext_ids s' = ext_ids ?s @ [vec_name i]"
    using apply_insert [OF D(1,2) ok _ room] new by auto
  have "store_abs s' = map_of (map (\<lambda>j. (vec_name j, xs ! j, [])) [0..<Suc i])"
    using a(5) W(5) by (auto simp: spec_apply_def fun_eq_iff map_add_def vec_name_eq split: option.split dest!: map_of_SomeD)
  then show ?thesis
    using a W D
    by (simp add: engine_insert_def apply_op_def log_op_def holds_prefix_def mem_engine_def engine_wf_def mem_wf_def)
qed

lemma build_ok:
  assumes "holds_prefix xs 0 e" and "length xs \<le> 2 ^ 32 - 1" and "\<forall>x \<in> set xs. length x = unat (cfg_dim (eng_cfg e))"
  shows "\<exists>e'. build xs e = (e', Inr ()) \<and> holds_prefix xs (length xs) e' \<and> eng_cfg e' = eng_cfg e"
  unfolding build_def
proof (rule eloop_upto [where P = "\<lambda>i e'. holds_prefix xs i e' \<and> eng_cfg e' = eng_cfg e"])
  fix i e' assume "i < length xs" and "holds_prefix xs i e' \<and> eng_cfg e' = eng_cfg e"
  then show "\<exists>e2 k. engine_insert (vec_name i) (xs ! i) [] e' = (e2, Inr k) \<and> holds_prefix xs (Suc i) e2 \<and> eng_cfg e2 = eng_cfg e"
    using insert_next [of xs i e'] assms(2,3) by simp
qed (use assms(1) in simp)

lemma bench_engine:
  assumes "d \<noteq> 0"
  shows "\<exists>e. engine_new (bench_config levels d ik) True no_disk [] no_calls = Inr e \<and> holds_prefix xs 0 e
    \<and> eng_cfg e = bench_config levels d ik"
  using assms fresh_memory [of "bench_config levels d ik"]
  by (simp add: engine_new_def vs_new_def bench_config_def Let_def holds_prefix_def mem_engine_def engine_wf_def
      hnsw_config_ok_def params_ok_def default_hnsw_def vs_empty_wf(2))

lemma holds_prefix_slot:
  assumes e: "holds_prefix xs n e" and i: "unat i < n"
  shows "external_id (eng_store e) i = Inr (vec_name (unat i))" and "slot_vec (eng_store e) i = xs ! unat i"
proof -
  let ?s = "eng_store e"
  have W: "store_wf ?s" "ext_ids ?s = map vec_name [0..<n]" "store_abs ?s = map_of (map (\<lambda>j. (vec_name j, xs ! j, [])) [0..<n])"
    using e engine_wfD(1) [of e] by (simp_all add: holds_prefix_def mem_engine_def)
  show "external_id ?s i = Inr (vec_name (unat i))"
    using i W(2) by (simp add: external_id_def vec_simps)
  have "ext_to_int ?s (vec_name (unat i)) = Some i"
    using store_wfD(8) [OF W(1), of "vec_name (unat i)" i] i W(2) by simp
  moreover have "store_abs ?s (vec_name (unat i)) = Some (xs ! unat i, [])"
    unfolding W(3) using i by (intro map_of_is_SomeI) (auto simp: comp_def distinct_map inj_on_def vec_name_eq)
  ultimately show "slot_vec ?s i = xs ! unat i"
    by (simp add: store_abs_def split: if_splits)
qed

lemma holds_prefix_search:
  assumes e: "holds_prefix xs (length xs) e" "eng_cfg e = bench_config levels d ik" and q: "length q = unat d"
    and nan: "\<forall>x \<in> set xs. \<not> f32_is_nan (metric_value L2 q x)"
  shows "nan_free (eng_store e) L2 q"
    and "\<exists>hits. engine_search q k None ef e = Inr hits \<and> length hits \<le> k \<and> distinct (map sr_id hits)
      \<and> (\<forall>h \<in> set hits. external_id (eng_store e) (sr_id h) = Inr (vec_name (unat (sr_id h))))"
proof -
  have n: "slot_count (eng_store e) = length xs"
    using e(1) by (simp add: holds_prefix_def slot_count_def)
  show nf: "nan_free (eng_store e) L2 q"
    using nan holds_prefix_slot(2) [OF e(1)] by (simp add: nan_free_def n)
  have wf: "engine_wf e"
    using e(1) by (simp add: holds_prefix_def mem_engine_def)
  obtain hits where hits: "engine_search q k None ef e = Inr hits" "length hits \<le> k" "distinct (map sr_id hits)"
    "\<forall>h \<in> set hits. describes (eng_store e) L2 q None h"
    using engine_search_ok [OF wf, of q k None ef] q nf by (auto simp: e(2) bench_config_def)
  have "external_id (eng_store e) (sr_id h) = Inr (vec_name (unat (sr_id h)))" if h: "h \<in> set hits" for h
  proof -
    obtain key where "external_id (eng_store e) (sr_id h) = Inr key"
      using hits(4) h unfolding describes_def by blast
    then have "unat (sr_id h) < slot_count (eng_store e)"
      by (simp add: external_id_def slot_count_def vget_eq_Inr)
    with n have "unat (sr_id h) < length xs"
      by simp
    then show ?thesis
      by (rule holds_prefix_slot(1) [OF e(1)])
  qed
  with hits show "\<exists>hits. engine_search q k None ef e = Inr hits \<and> length hits \<le> k \<and> distinct (map sr_id hits)
      \<and> (\<forall>h \<in> set hits. external_id (eng_store e) (sr_id h) = Inr (vec_name (unat (sr_id h))))"
    by blast
qed

text \<open>Since both engines number the vectors alike, the hits that are counted are those both engines name.\<close>

definition hit_names :: "engine \<Rightarrow> search_result list \<Rightarrow> string set" where
  "hit_names e hits = {key. \<exists>h \<in> set hits. external_id (eng_store e) (sr_id h) = Inr key}"

lemma count_hits_names:
  assumes "\<forall>h \<in> set fh. external_id (eng_store flat) (sr_id h) = Inr (vec_name (unat (sr_id h)))"
    and "\<forall>h \<in> set gh. external_id (eng_store hnsw) (sr_id h) = Inr (vec_name (unat (sr_id h)))"
    and "distinct (map sr_id gh)"
  shows "count_hits (set (map sr_id fh)) gh = card (hit_names flat fh \<inter> hit_names hnsw gh)"
proof -
  let ?name = "\<lambda>i :: internal_id. vec_name (unat i)"
  have inj: "inj ?name"
    by (simp add: inj_def vec_name_eq)
  have "hit_names flat fh = ?name ` sr_id ` set fh" "hit_names hnsw gh = ?name ` sr_id ` set gh"
    using assms(1,2) by (auto simp: hit_names_def)
  then have "card (hit_names flat fh \<inter> hit_names hnsw gh) = card (?name ` (sr_id ` set fh \<inter> sr_id ` set gh))"
    using inj by (simp add: image_Int)
  also have "\<dots> = card (sr_id ` set fh \<inter> sr_id ` set gh)"
    using inj by (simp add: card_image inj_on_subset)
  also have "sr_id ` set fh \<inter> sr_id ` set gh = set (map sr_id (List.filter (\<lambda>r. sr_id r \<in> sr_id ` set fh) gh))"
    by (auto simp: image_iff) metis
  also have "card \<dots> = length (List.filter (\<lambda>r. sr_id r \<in> sr_id ` set fh) gh)"
    using assms(3) by (subst distinct_card) (simp_all add: distinct_map_filter)
  finally show ?thesis
    by (simp add: count_hits_filter)
qed

section \<open>The vectors\<close>

lemma rfold_collect:
  assumes "\<forall>x \<in> set xs. f x = Inr (g x)"
  shows "rfold (\<lambda>x out. rbind (f x) (\<lambda>y. Inr (out @ [y]))) xs acc = Inr (acc @ map g xs)"
  using assms by (induction xs arbitrary: acc) simp_all

definition data_vec :: "draws \<Rightarrow> dim \<Rightarrow> nat \<Rightarrow> fvec" where
  "data_vec dr d i = map (\<lambda>c. f32_add (dr_centroid dr (i mod num_clusters) c) (dr_noise dr i c)) [0..<unat d]"

definition query_vec :: "draws \<Rightarrow> dim \<Rightarrow> nat \<Rightarrow> fvec" where
  "query_vec dr d j = map (\<lambda>c. f32_add (dr_centroid dr (dr_pick dr j) c) (dr_query dr j c)) [0..<unat d]"

lemma clustered_ok:
  assumes "which < num_clusters"
  shows "clustered_vector noise (make_centroids dr d) which = Inr (map (\<lambda>c. f32_add (dr_centroid dr which c) (noise c)) [0..<unat d])"
  using assms by (simp add: clustered_vector_def make_centroids_def random_vector_def vec_simps)

lemma make_data_ok: "make_data dr (make_centroids dr d) n = Inr (map (data_vec dr d) [0..<n])"
  unfolding make_data_def data_vec_def by (subst rfold_collect [OF ballI [OF clustered_ok]]) (simp_all add: num_clusters_def)

lemma make_queries_ok:
  assumes "\<forall>i < q. dr_pick dr i < num_clusters"
  shows "make_queries dr (make_centroids dr d) q = Inr (map (query_vec dr d) [0..<q])"
  unfolding make_queries_def query_vec_def by (subst rfold_collect [OF ballI [OF clustered_ok]]) (simp_all add: assms)

text \<open>What the distributions of the standard library promise: centroids lie between minus one and one, picks name a
  centroid, and the normal noise is a number, of any size.\<close>

definition draws_ok :: "draws \<Rightarrow> bool" where
  "draws_ok dr \<longleftrightarrow> (\<forall>c j. within 149 (dr_centroid dr c j)) \<and> (\<forall>i j. f32_finite (dr_noise dr i j))
     \<and> (\<forall>i j. f32_finite (dr_query dr i j)) \<and> (\<forall>i. dr_pick dr i < num_clusters)"

lemma draws_finite:
  assumes "draws_ok dr"
  shows "\<forall>x \<in> set (data_vec dr d i). f32_finite x" and "\<forall>x \<in> set (query_vec dr d i). f32_finite x"
  using assms finite_add_unit by (auto simp: data_vec_def query_vec_def draws_ok_def)

end
