(* ===== verification/Bench_Program.thy ===== *)
theory Bench_Program
  imports Recall_Harness Number_Text
begin

text \<open>
  The program of \<^verbatim>\<open>bench/recall_harness.cpp\<close>: it reads its command line, builds the two engines, takes the
  hits of the exact engine as the truth, measures recall, latencies and throughput of HNSW for several search
  breadths, and runs a batch of queries on several threads. The random draws, the readings of the steady clock,
  the schedule of the workers and the hardware concurrency are parameters; the result is the record of all
  numbers that the program prints. It is shown that the program runs to its end, and what the numbers can be.
\<close>

section \<open>The command line\<close>

record bench_args =
  ba_n :: nat
  ba_dim :: dim
  ba_q :: nat
  ba_k :: nat

text \<open>\<open>argv\<close> holds the name of the program first.\<close>

definition argument :: "string list \<Rightarrow> nat \<Rightarrow> nat \<Rightarrow> nat" where
  "argument argv i dflt = (if i < length argv then strtoul (argv ! i) else dflt)"

definition parse_args :: "string list \<Rightarrow> bench_args" where
  "parse_args argv =
     \<lparr>ba_n = argument argv 1 20000, ba_dim = of_nat (argument argv 2 128), ba_q = argument argv 3 200, ba_k = argument argv 4 10\<rparr>"

section \<open>The clock\<close>

text \<open>The readings of \<^verbatim>\<open>Clock::now()\<close> in nanoseconds, in the order of the calls. Every measurement takes two of
  them; \<^verbatim>\<open>std::chrono::duration<double, P>\<close> converts the difference and divides by the number of ticks.\<close>

type_synonym clock = "nat \<Rightarrow> int"

definition elapsed :: "clock \<Rightarrow> nat \<Rightarrow> int" where
  "elapsed clk m = clk (2 * m + 1) - clk (2 * m)"

definition duration :: "nat \<Rightarrow> clock \<Rightarrow> nat \<Rightarrow> f64" where
  "duration ticks clk m = f64_div (f64_of_int (elapsed clk m)) (f64_of_int (int ticks))"

abbreviation millis :: "clock \<Rightarrow> nat \<Rightarrow> f64" where
  "millis \<equiv> duration 1000000"

abbreviation micros :: "clock \<Rightarrow> nat \<Rightarrow> f64" where
  "micros \<equiv> duration 1000"

abbreviation seconds :: "clock \<Rightarrow> nat \<Rightarrow> f64" where
  "seconds \<equiv> duration 1000000000"

section \<open>The measurements\<close>

text \<open>The loops number their measurements from \<open>m\<close>.\<close>

definition truth_step ::
  "engine \<Rightarrow> nat \<Rightarrow> fvec list \<Rightarrow> clock \<Rightarrow> nat \<Rightarrow> nat \<Rightarrow> internal_id set list \<times> f64 list \<Rightarrow> (internal_id set list \<times> f64 list) res" where
  "truth_step flat k queries clk m i acc =
     rbind (vget queries i) (\<lambda>v. rbind (engine_search v k None 0 flat) (\<lambda>hits.
       Inr (fst acc @ [set (map sr_id hits)], snd acc @ [micros clk (m + i)])))"

definition ground_truth ::
  "engine \<Rightarrow> nat \<Rightarrow> nat \<Rightarrow> fvec list \<Rightarrow> clock \<Rightarrow> nat \<Rightarrow> (internal_id set list \<times> f64 list) res" where
  "ground_truth flat k q queries clk m = rfold (truth_step flat k queries clk m) [0..<q] ([], [])"

definition sweep_step ::
  "engine \<Rightarrow> nat \<Rightarrow> nat \<Rightarrow> fvec list \<Rightarrow> clock \<Rightarrow> nat \<Rightarrow> nat \<Rightarrow> search_result list list \<times> f64 list
     \<Rightarrow> (search_result list list \<times> f64 list) res" where
  "sweep_step hnsw k ef queries clk m i acc =
     rbind (vget queries i) (\<lambda>v. rbind (engine_search v k None ef hnsw) (\<lambda>hits.
       Inr (fst acc @ [hits], snd acc @ [micros clk (m + i)])))"

definition mean_latency :: "f64 list \<Rightarrow> f64" where
  "mean_latency lat =
     f64_div (fold (\<lambda>x mean. f64_add mean x) lat 0) (f64_of_int (int (if lat = [] then 1 else length lat)))"

definition queries_per_second :: "f64 \<Rightarrow> f64" where
  "queries_per_second mean = (if f64_lt 0 mean then f64_div (f64_of_int 1000000) mean else 0)"

text \<open>The literals \<open>0.50\<close> and \<open>0.95\<close>.\<close>

definition p50 :: f64 where
  "p50 = 0x3FE0000000000000"

definition p95 :: f64 where
  "p95 = 0x3FEE666666666666"

record sweep_row =
  sw_ef :: nat
  sw_recall :: f64
  sw_p50 :: f64
  sw_p95 :: f64
  sw_qps :: f64

definition sweep_point ::
  "engine \<Rightarrow> nat \<Rightarrow> nat \<Rightarrow> fvec list \<Rightarrow> internal_id set list \<Rightarrow> clock \<Rightarrow> nat \<Rightarrow> nat \<Rightarrow> sweep_row res" where
  "sweep_point hnsw k q queries truth clk m ef =
     rbind (rfold (sweep_step hnsw k ef queries clk m) [0..<q] ([], [])) (\<lambda>(got, lat).
     rbind (recall_at_k truth got k) (\<lambda>recall.
     rbind (percentile lat p50) (\<lambda>a.
     rbind (percentile lat p95) (\<lambda>b.
       Inr \<lparr>sw_ef = ef, sw_recall = recall, sw_p50 = a, sw_p95 = b, sw_qps = queries_per_second (mean_latency lat)\<rparr>))))"

definition ef_grid :: "nat list" where
  "ef_grid = [10, 20, 40, 80, 160, 320]"

definition ef_sweep ::
  "engine \<Rightarrow> nat \<Rightarrow> nat \<Rightarrow> fvec list \<Rightarrow> internal_id set list \<Rightarrow> clock \<Rightarrow> nat \<Rightarrow> (nat \<times> sweep_row list) res" where
  "ef_sweep hnsw k q queries truth clk m =
     rfold (\<lambda>ef acc. rbind (sweep_point hnsw k q queries truth clk (fst acc) ef) (\<lambda>row. Inr (fst acc + q, snd acc @ [row])))
       ef_grid (m, [])"

text \<open>\<^verbatim>\<open>queries[i % q]\<close> divides by zero when there is no query.\<close>

definition replicated :: "nat \<Rightarrow> fvec list \<Rightarrow> fvec list res" where
  "replicated q queries =
     rfold (\<lambda>i out. if q = 0 then Inl Undefined_behaviour else rbind (vget queries (i mod q)) (\<lambda>v. Inr (out @ [v])))
       [0..<max q 4000] []"

record thread_row =
  tr_threads :: nat
  tr_qps :: f64
  tr_speedup :: f64

definition thread_grid :: "nat list" where
  "thread_grid = [1, 2, 4, 8]"

definition bench_ef :: nat where
  "bench_ef = 80"

definition batch_qps :: "nat \<Rightarrow> f64 \<Rightarrow> f64" where
  "batch_qps n secs = (if f64_lt 0 secs then f64_div (f64_of_int (int n)) secs else 0)"

definition speedup :: "f64 \<Rightarrow> f64 \<Rightarrow> f64" where
  "speedup qps single = (if f64_lt 0 single then f64_div qps single else f64_one)"

text \<open>The state of the loop: the number of the measurement, the rate of one thread and the rows.\<close>

definition thread_step ::
  "((nat \<times> nat) list \<Rightarrow> nat list) \<Rightarrow> nat \<Rightarrow> engine \<Rightarrow> nat \<Rightarrow> fvec list \<Rightarrow> clock \<Rightarrow> nat
     \<Rightarrow> nat \<times> f64 \<times> thread_row list \<Rightarrow> (nat \<times> f64 \<times> thread_row list) res" where
  "thread_step schedule hardware hnsw k batch clk t st =
     (case st of (m, single, rows) \<Rightarrow>
        rbind (search_batch schedule hardware batch k None bench_ef t hnsw) (\<lambda>out.
          let qps = batch_qps (length out) (seconds clk m);
              single' = (if t = 1 then qps else single)
          in Inr (Suc m, single', rows @ [\<lparr>tr_threads = t, tr_qps = qps, tr_speedup = speedup qps single'\<rparr>])))"

definition concurrency_sweep ::
  "((nat \<times> nat) list \<Rightarrow> nat list) \<Rightarrow> nat \<Rightarrow> engine \<Rightarrow> nat \<Rightarrow> fvec list \<Rightarrow> clock \<Rightarrow> nat \<Rightarrow> thread_row list res" where
  "concurrency_sweep schedule hardware hnsw k batch clk m =
     rbind (rfold (thread_step schedule hardware hnsw k batch clk) thread_grid (m, 0, [])) (\<lambda>st. Inr (snd (snd st)))"

section \<open>The program\<close>

text \<open>The numbers the program prints.\<close>

record bench_report =
  br_args :: bench_args
  br_flat_build_ms :: f64
  br_hnsw_build_ms :: f64
  br_flat_p50 :: f64
  br_rows :: "sweep_row list"
  br_hardware :: nat
  br_batch :: nat
  br_threads :: "thread_row list"

definition harness_main ::
  "string list \<Rightarrow> draws \<Rightarrow> clock \<Rightarrow> (nat \<Rightarrow> nat) \<Rightarrow> ((nat \<times> nat) list \<Rightarrow> nat list) \<Rightarrow> nat \<Rightarrow> bench_report res" where
  "harness_main argv dr clk levels schedule hardware =
     (let a = parse_args argv; n = ba_n a; d = ba_dim a; q = ba_q a; k = ba_k a; centroids = make_centroids dr d
      in rbind (make_data dr centroids n) (\<lambda>xs.
         rbind (engine_new (bench_config levels d Flat_kind) True no_disk [] no_calls) (\<lambda>flat0.
         rbind (engine_new (bench_config levels d Hnsw_kind) True no_disk [] no_calls) (\<lambda>hnsw0.
           case build xs flat0 of
             (_, Inl er) \<Rightarrow> Inl er
           | (flat, Inr _) \<Rightarrow>
               (case build xs hnsw0 of
                  (_, Inl er) \<Rightarrow> Inl er
                | (hnsw, Inr _) \<Rightarrow>
                    rbind (make_queries dr centroids q) (\<lambda>queries.
                    rbind (ground_truth flat k q queries clk 2) (\<lambda>(truth, flat_latencies).
                    rbind (percentile flat_latencies p50) (\<lambda>flat_p50.
                    rbind (ef_sweep hnsw k q queries truth clk (2 + q)) (\<lambda>(m, rows).
                    rbind (replicated q queries) (\<lambda>batch.
                    rbind (concurrency_sweep schedule hardware hnsw k batch clk m) (\<lambda>threads.
                      Inr \<lparr>br_args = a, br_flat_build_ms = millis clk 0, br_hnsw_build_ms = millis clk 1, br_flat_p50 = flat_p50,
                        br_rows = rows, br_hardware = max 1 hardware, br_batch = max q 4000, br_threads = threads\<rparr>)))))))))))"

section \<open>The command line is read back\<close>

lemma parse_args_given:
  assumes "n < 2 ^ 64" "d < 2 ^ 64" "q < 2 ^ 64" "k < 2 ^ 64"
  shows "parse_args [prog, to_string n, to_string d, to_string q, to_string k] = \<lparr>ba_n = n, ba_dim = of_nat d, ba_q = q, ba_k = k\<rparr>"
  using assms by (simp add: parse_args_def argument_def strtoul_to_string)

section \<open>Times and rates\<close>

text \<open>A steady clock does not go back; the run takes at most \<open>2 ^ 53\<close> nanoseconds, some hundred days.\<close>

definition clock_ok :: "clock \<Rightarrow> bool" where
  "clock_ok clk \<longleftrightarrow> mono clk \<and> (\<forall>r. clk r - clk 0 \<le> 2 ^ 53)"

lemma clock_span: "clock_ok clk \<Longrightarrow> a \<le> b \<Longrightarrow> 0 \<le> clk b - clk a \<and> clk b - clk a \<le> 2 ^ 53"
  using monoD [of clk a b] monoD [of clk 0 a] unfolding clock_ok_def by (smt (verit) le0)

lemma duration_between:
  assumes "clock_ok clk" and "0 < ticks" "ticks \<le> 2 ^ 53"
  shows "between (duration ticks clk m) (nat (elapsed clk m))"
proof -
  have e: "0 \<le> elapsed clk m" "elapsed clk m \<le> 2 ^ 53"
    using clock_span [OF assms(1), of "2 * m" "2 * m + 1"] by (simp_all add: elapsed_def)
  then have "between (f64_of_int (elapsed clk m)) (nat (elapsed clk m))"
    using between_count [of "nat (elapsed clk m)" "nat (elapsed clk m)"] by simp
  then show ?thesis
    unfolding duration_def using e by (intro between_shrink assms(2,3)) simp_all
qed

lemma span_nat: "clock_ok clk \<Longrightarrow> a \<le> b \<Longrightarrow> nat (clk b - clk a) \<le> 2 ^ 53"
  using clock_span [of clk a b] by (simp add: nat_le_iff)

lemma duration_sound: "clock_ok clk \<Longrightarrow> 0 < ticks \<Longrightarrow> ticks \<le> 2 ^ 53 \<Longrightarrow> sound (duration ticks clk m)"
  using between_sound [OF duration_between span_nat [of clk "2 * m" "2 * m + 1", folded elapsed_def]] by simp

lemma latency_total:
  assumes "clock_ok clk"
  shows "between (fold (\<lambda>x mean. f64_add mean x) (map (\<lambda>i. micros clk (m + i)) [0..<n]) 0) (nat (clk (2 * (m + n)) - clk (2 * m)))"
proof (induction n)
  case (Suc n)
  let ?r = "\<lambda>i. clk (2 * (m + i))"
  have s: "0 \<le> elapsed clk (m + n)" "?r n + elapsed clk (m + n) \<le> ?r (Suc n)"
    using clock_span [OF assms, of "2 * (m + n)" "2 * (m + n) + 1"] clock_span [OF assms, of "2 * (m + n) + 1" "2 * (m + Suc n)"]
    by (simp_all add: elapsed_def)
  have r: "?r 0 \<le> ?r n" "?r (Suc n) - ?r 0 \<le> 2 ^ 53"
    using clock_span [OF assms, of "2 * m" "2 * (m + n)"] clock_span [OF assms, of "2 * m" "2 * (m + Suc n)"] by simp_all
  have "between (f64_add (fold (\<lambda>x mean. f64_add mean x) (map (\<lambda>i. micros clk (m + i)) [0..<n]) 0) (micros clk (m + n)))
      (nat (?r n - ?r 0) + nat (elapsed clk (m + n)))"
    using Suc.IH duration_between [OF assms, of 1000 "m + n"] s r by (intro between_add) simp_all
  then have "between (f64_add (fold (\<lambda>x mean. f64_add mean x) (map (\<lambda>i. micros clk (m + i)) [0..<n]) 0) (micros clk (m + n)))
      (nat (?r (Suc n) - ?r 0))"
    by (rule between_mono) (use s r in simp_all)
  then show ?case
    by simp
qed simp

lemma mean_latency_between:
  assumes "clock_ok clk" and "n \<le> 2 ^ 53"
  shows "between (mean_latency (map (\<lambda>i. micros clk (m + i)) [0..<n])) (nat (clk (2 * (m + n)) - clk (2 * m)))"
  unfolding mean_latency_def using assms(2)
  by (intro between_shrink latency_total [OF assms(1)] span_nat [OF assms(1)]) simp_all

text \<open>\<open>plain a\<close>: finite and not negative, minus zero excluded.\<close>

definition plain :: "f64 \<Rightarrow> bool" where
  "plain a \<longleftrightarrow> \<not> fst (unpack64 a) \<and> snd (unpack64 a) < inf_bits binary64"

lemma between_plain: "between a m \<Longrightarrow> m \<le> 2 ^ 53 \<Longrightarrow> plain a"
  using at_most_finite [of "unpack64 a" m] by (simp add: plain_def between_def at_most_def)

lemma plain_sound: "plain a \<Longrightarrow> sound a"
  by (intro sound_pos) (simp_all add: plain_def)

lemma plain_div:
  assumes "plain a" and "plain b" and "f64_lt 0 b"
  shows "0 < mag binary64 (snd (unpack64 b))"
    and "unpack64 (f64_div a b) = (False, round_units binary64 (mag binary64 (snd (unpack64 a)) * 2 ^ 1074) (mag binary64 (snd (unpack64 b))))"
proof -
  have z: "unpack64 0 = (False, 0)"
    by (simp add: unpack64_def)
  have "mag binary64 0 < mag binary64 (snd (unpack64 b))"
    using assms(2,3) by (intro mag_strict_mono) (simp_all add: plain_def f64_lt_def fp_lt_def fp_key_def z)
  then show pos: "0 < mag binary64 (snd (unpack64 b))"
    by simp
  show "unpack64 (f64_div a b) = (False, round_units binary64 (mag binary64 (snd (unpack64 a)) * 2 ^ 1074) (mag binary64 (snd (unpack64 b))))"
    using fp_div_pos [OF _ _ _ _ pos, of "unpack64 a"] assms(1,2) by (simp add: unpack_f64_op plain_def)
qed

lemma plain_div_sound: "plain a \<Longrightarrow> plain b \<Longrightarrow> f64_lt 0 b \<Longrightarrow> sound (f64_div a b)"
  by (rule sound_pos) (simp_all only: plain_div(2) round_units_le_inf fst_conv snd_conv not_False_eq_True)

lemma qps_sound: "plain mean \<Longrightarrow> sound (queries_per_second mean)"
  using plain_div_sound [OF between_plain [OF between_count [of 1000000 1000000]], of mean] between_sound [OF between_zero, of 0]
  by (simp add: queries_per_second_def)

lemma sound_one: "sound f64_one"
  using between_sound [OF between_count [of 1 1]] f64_of_one by simp

lemma speedup_sound: "plain a \<Longrightarrow> plain b \<Longrightarrow> sound (speedup a b)"
  using plain_div_sound sound_one by (simp add: speedup_def)

lemma speedup_self:
  assumes "plain a"
  shows "speedup a a = f64_one"
proof (cases "f64_lt 0 a")
  case True
  have fin: "\<not> fst (unpack64 a)" "snd (unpack64 a) < inf_bits binary64"
    using assms by (simp_all add: plain_def)
  note pos = plain_div(1) [OF assms assms True]
  have "round_units binary64 (mag binary64 (snd (unpack64 a)) * 2 ^ unit_exp binary64) (mag binary64 (snd (unpack64 a)))
      = snd (count_fp 1)"
    using round_units_cancel [OF pos, of binary64 "2 ^ 1074"] count_fp_bits(4) [of 1] by (simp add: mult.commute)
  then have "fp_div binary64 (unpack64 a) (unpack64 a) = count_fp 1"
    using fp_div_pos [OF fin(1,1,2,2) pos] count_fp_bits(1) [of 1] by (simp add: prod_eq_iff)
  then have "f64_div a a = f64_one"
    using f64_of_one by (simp add: f64_div_def count_fp_def f64_of_int_def)
  with True show ?thesis
    by (simp add: speedup_def)
qed (simp add: speedup_def)

text \<open>A measured time is zero or at least a nanosecond, so the rate of a batch is finite.\<close>

lemma seconds_lower:
  assumes clk: "clock_ok clk" and pos: "f64_lt 0 (seconds clk m)"
  shows "2 ^ 1044 \<le> mag binary64 (snd (unpack64 (seconds clk m)))"
proof -
  define dt where "dt = nat (elapsed clk m)"
  have dt: "elapsed clk m = int dt" "dt \<le> 2 ^ 53"
    using clock_span [OF clk, of "2 * m" "2 * m + 1"] span_nat [OF clk, of "2 * m" "2 * m + 1"] by (simp_all add: elapsed_def dt_def)
  have z: "unpack64 0 = (False, 0)"
    by (simp add: unpack64_def)
  have "count_fp 0 = (False, 0)"
    by (simp add: count_fp_def fp_of_int_def round_units_def rne_def)
  then have "dt \<noteq> 0"
    using duration_between [OF clk, of 1000000000 m] pos
    by (cases "dt = 0") (auto simp: dt_def [symmetric] between_def at_most_def f64_lt_def fp_lt_def fp_key_def z)
  then have le: "2 ^ 1044 * (1000000000 * 2 ^ 1074) \<le> dt * 2 ^ 1074 * (2 ^ 1074 :: nat)"
  proof -
    have "2 ^ 1044 * 1000000000 \<le> (2 :: nat) ^ 1044 * 2 ^ 30"
      by (intro mult_le_mono2) simp
    also have "\<dots> = 1 * 2 ^ 1074"
      by (simp flip: power_add)
    also have "\<dots> \<le> dt * 2 ^ 1074"
      using \<open>dt \<noteq> 0\<close> by (intro mult_le_mono1) simp
    finally show ?thesis
      unfolding mult.assoc [symmetric] by (rule mult_le_mono1)
  qed
  note c = count_fp_bits [OF dt(2)] and b = count_fp_bits [of 1000000000]
  have b_pos: "0 < mag binary64 (snd (count_fp 1000000000))"
    using b(3) by simp
  have "round_units binary64 (2 ^ 1044) 1 \<le> round_units binary64 (dt * 2 ^ 1074 * 2 ^ 1074) (mag binary64 (snd (count_fp 1000000000)))"
    unfolding round_units_cancel [OF b_pos, symmetric] using le b(3) b_pos by (intro round_units_mono) simp_all
  moreover have "unpack64 (seconds clk m) = (False, round_units binary64 (dt * 2 ^ 1074 * 2 ^ 1074) (mag binary64 (snd (count_fp 1000000000))))"
    using fp_div_pos [OF c(1) b(1) c(2) b(2) b_pos] unfolding duration_def unpack_f64_op dt(1) unpack_count c(3) by simp
  moreover have "plain (seconds clk m)"
    using between_plain [OF duration_between [OF clk] span_nat [OF clk, of "2 * m" "2 * m + 1", folded elapsed_def]] by simp
  ultimately show ?thesis
    using mag_mono [of "round_units binary64 (2 ^ 1044) 1" "snd (unpack64 (seconds clk m))" binary64] representable64 [of 1044]
    by (simp add: plain_def representable_def)
qed

lemma batch_qps_plain:
  assumes clk: "clock_ok clk" and n: "n \<le> 2 ^ 53"
  shows "plain (batch_qps n (seconds clk m))"
proof (cases "f64_lt 0 (seconds clk m)")
  case True
  let ?s = "mag binary64 (snd (unpack64 (seconds clk m)))"
  have s: "plain (seconds clk m)"
    using between_plain [OF duration_between [OF clk] span_nat [OF clk, of "2 * m" "2 * m + 1", folded elapsed_def]] by simp
  have p: "plain (f64_of_int (int n))"
    by (rule between_plain [OF between_count [OF order_refl n] n])
  note d = plain_div [OF p s True]
  have "n * 2 ^ 1074 * 2 ^ 1074 \<le> 2 ^ 53 * 2 ^ 1074 * (2 ^ 1074 :: nat)"
    using n by (intro mult_le_mono1)
  also have "\<dots> = 2 ^ 1157 * 2 ^ 1044"
    by (simp only: power_add [symmetric]) simp
  also have "\<dots> \<le> 2 ^ 1157 * ?s"
    using seconds_lower [OF clk True] by (rule mult_le_mono2)
  finally have "bounded binary64 (2 ^ 1157) (False, round_units binary64 (n * 2 ^ 1074 * 2 ^ 1074) ?s)"
    using d(1) representable64 [of 1157] by (intro bounded_round) simp_all
  then show ?thesis
    using True d(2) unfolding plain_def bounded_def unpack_count count_fp_bits(3) [OF n] batch_qps_def by simp
qed (use between_plain [OF between_zero, of 0] in \<open>simp add: batch_qps_def\<close>)

section \<open>The loops\<close>

definition bench_queries :: "fvec list \<Rightarrow> dim \<Rightarrow> fvec list \<Rightarrow> bool" where
  "bench_queries xs d queries \<longleftrightarrow>
     (\<forall>q \<in> set queries. length q = unat d \<and> (\<forall>x \<in> set xs. \<not> f32_is_nan (metric_value L2 q x)))"

lemma latencies_set: "set (map (\<lambda>i. micros clk (m + i)) [0..<n]) = micros clk ` {m..<m + n}"
  using image_image [of "micros clk" "(+) m" "{0..<n}"] image_add_atLeastLessThan [of m 0 n] by (simp add: add.commute)

text \<open>A loop over the queries collects, for each, a result and the time of its measurement.\<close>

lemma timed_loop:
  assumes "\<And>i acc. i < n \<Longrightarrow> \<exists>y. f i acc = Inr (fst acc @ [y], snd acc @ [micros clk (m + i)]) \<and> P y"
  shows "\<exists>ys. rfold f [0..<n] ([], []) = Inr (ys, map (\<lambda>i. micros clk (m + i)) [0..<n]) \<and> length ys = n \<and> (\<forall>y \<in> set ys. P y)"
  using assms
proof (induction n)
  case (Suc n)
  then obtain ys where ys: "rfold f [0..<n] ([], []) = Inr (ys, map (\<lambda>i. micros clk (m + i)) [0..<n])" "length ys = n" "\<forall>y \<in> set ys. P y"
    by fastforce
  moreover obtain y where "f n (ys, map (\<lambda>i. micros clk (m + i)) [0..<n]) = Inr (ys @ [y], map (\<lambda>i. micros clk (m + i)) [0..<Suc n])" "P y"
    using Suc.prems [of n "(ys, map (\<lambda>i. micros clk (m + i)) [0..<n])"] by auto
  ultimately show ?case
    by (intro exI [of _ "ys @ [y]"]) (auto simp: rfold_append)
qed simp

lemma ground_truth_ok:
  assumes e: "holds_prefix xs (length xs) e" "eng_cfg e = bench_config levels d ik" and q: "bench_queries xs d queries"
  shows "\<exists>truth. ground_truth e k (length queries) queries clk m = Inr (truth, map (\<lambda>i. micros clk (m + i)) [0..<length queries])
    \<and> length truth = length queries"
  unfolding ground_truth_def
proof -
  have "\<exists>t. truth_step e k queries clk m i acc = Inr (fst acc @ [t], snd acc @ [micros clk (m + i)]) \<and> True" if i: "i < length queries" for i acc
  proof -
    obtain hits where "engine_search (queries ! i) k None 0 e = Inr hits"
      using holds_prefix_search(2) [OF e, of "queries ! i" k 0] q nth_mem [OF i] unfolding bench_queries_def by blast
    then show ?thesis
      using i by (simp add: truth_step_def vec_simps)
  qed
  from timed_loop [where P = "\<lambda>_. True", OF this]
  show "\<exists>truth. rfold (truth_step e k queries clk m) [0..<length queries] ([], []) = Inr (truth, map (\<lambda>i. micros clk (m + i)) [0..<length queries])
    \<and> length truth = length queries"
    by blast
qed

lemma sweep_loop_ok:
  assumes e: "holds_prefix xs (length xs) e" "eng_cfg e = bench_config levels d ik" and q: "bench_queries xs d queries"
  shows "\<exists>got. rfold (sweep_step e k ef queries clk m) [0..<length queries] ([], []) = Inr (got, map (\<lambda>i. micros clk (m + i)) [0..<length queries])
    \<and> length got = length queries \<and> (\<forall>g \<in> set got. length g \<le> k)"
proof (rule timed_loop)
  fix i acc assume i: "i < length queries"
  obtain hits where "engine_search (queries ! i) k None ef e = Inr hits" "length hits \<le> k"
    using holds_prefix_search(2) [OF e, of "queries ! i" k ef] q nth_mem [OF i] unfolding bench_queries_def by blast
  then show "\<exists>y. sweep_step e k ef queries clk m i acc = Inr (fst acc @ [y], snd acc @ [micros clk (m + i)]) \<and> length y \<le> k"
    using i by (simp add: sweep_step_def vec_simps)
qed

lemma percentile_consts: "between p50 1" "between p95 1" "snd (unpack64 p50) \<le> snd (unpack64 p95)"
proof -
  have one: "unpack64 f64_one = count_fp 1"
    using unpack_count [of 1] f64_of_one by simp
  have "snd (count_fp 1) = 0x3FF0000000000000"
    unfolding one [symmetric] by (simp add: f64_one_def unpack64_def)
  then show "between p50 1" "between p95 1" "snd (unpack64 p50) \<le> snd (unpack64 p95)"
    by (simp_all add: between_def at_most_def p50_def p95_def unpack64_def)
qed

text \<open>What a row of the table reports, for measurements from \<open>m\<close> on.\<close>

definition row_ok :: "clock \<Rightarrow> nat \<Rightarrow> nat \<Rightarrow> nat \<Rightarrow> sweep_row \<Rightarrow> bool" where
  "row_ok clk q m ef r \<longleftrightarrow>
     sw_ef r = ef \<and> ratio (sw_recall r) \<and> sw_p50 r \<in> micros clk ` {m..<m + q} \<and> sw_p95 r \<in> micros clk ` {m..<m + q}
   \<and> \<not> f64_lt (sw_p95 r) (sw_p50 r) \<and> sound (sw_qps r)"

lemma sweep_point_ok:
  assumes e: "holds_prefix xs (length xs) e" "eng_cfg e = bench_config levels d ik" and q: "bench_queries xs d queries"
    and k: "0 < k" "k \<le> 2 ^ 53" and t: "length truth = length queries" "queries \<noteq> []" "length queries \<le> 2 ^ 53" and clk: "clock_ok clk"
  shows "\<exists>row. sweep_point e k (length queries) queries truth clk m ef = Inr row \<and> row_ok clk (length queries) m ef row"
proof -
  let ?lat = "map (\<lambda>i. micros clk (m + i)) [0..<length queries]"
  obtain got where got: "rfold (sweep_step e k ef queries clk m) [0..<length queries] ([], []) = Inr (got, ?lat)"
    "length got = length queries" "\<forall>g \<in> set got. length g \<le> k"
    using sweep_loop_ok [OF e q] by blast
  obtain r where r: "recall_at_k truth got k = Inr r" "ratio r"
    using recall_between [of got truth k] got k t between_ratio by auto
  have lat: "?lat \<noteq> []" "length ?lat \<le> 2 ^ 53" "\<forall>x \<in> set ?lat. sound x"
    using t duration_sound [OF clk] by simp_all
  obtain a b where p: "percentile ?lat p50 = Inr a" "a \<in> set ?lat" "percentile ?lat p95 = Inr b" "b \<in> set ?lat"
    using percentile_in [OF percentile_consts(1) lat(1,2)] percentile_in [OF percentile_consts(2) lat(1,2)] by blast
  have "f64_key a \<le> f64_key b"
    by (rule percentile_mono [OF percentile_consts lat(3,2) p(1,3)])
  then have "\<not> f64_lt b a"
    by (simp add: f64_lt_def fp_lt_def f64_key_def)
  moreover have "sound (queries_per_second (mean_latency ?lat))"
    by (rule qps_sound [OF between_plain [OF mean_latency_between [OF clk t(3)] span_nat [OF clk]]]) simp
  ultimately show ?thesis
    using got(1) r p latencies_set [of clk m "length queries"] by (simp add: sweep_point_def row_ok_def)
qed

lemma sweep_rows:
  assumes "\<And>m ef. \<exists>row. point m ef = Inr row \<and> G m ef row"
  shows "\<exists>rows. rfold (\<lambda>ef acc. rbind (point (fst acc) ef) (\<lambda>row. Inr (fst acc + q, snd acc @ [row]))) efs (m, out) = Inr (m + length efs * q, out @ rows)
    \<and> length rows = length efs \<and> (\<forall>i < length efs. G (m + i * q) (efs ! i) (rows ! i))"
proof (induction efs arbitrary: m out)
  case (Cons ef efs)
  obtain row where row: "point m ef = Inr row" "G m ef row"
    using assms by blast
  obtain rows where rows: "rfold (\<lambda>ef acc. rbind (point (fst acc) ef) (\<lambda>row. Inr (fst acc + q, snd acc @ [row]))) efs (m + q, out @ [row])
      = Inr (m + q + length efs * q, (out @ [row]) @ rows)" "length rows = length efs" "\<forall>i < length efs. G (m + q + i * q) (efs ! i) (rows ! i)"
    using Cons.IH by blast
  have "G (m + i * q) ((ef # efs) ! i) ((row # rows) ! i)" if "i < Suc (length efs)" for i
    using that row(2) rows(3) by (cases i) (simp_all add: add.assoc)
  with row(1) rows(1,2) show ?case
    by (intro exI [of _ "row # rows"]) (simp add: add.assoc)
qed simp

lemma ef_sweep_ok:
  assumes e: "holds_prefix xs (length xs) e" "eng_cfg e = bench_config levels d ik" and q: "bench_queries xs d queries"
    and k: "0 < k" "k \<le> 2 ^ 53" and t: "length truth = length queries" "queries \<noteq> []" "length queries \<le> 2 ^ 53" and clk: "clock_ok clk"
  shows "\<exists>rows. ef_sweep e k (length queries) queries truth clk m = Inr (m + 6 * length queries, rows) \<and> length rows = 6
    \<and> (\<forall>i < 6. row_ok clk (length queries) (m + i * length queries) (ef_grid ! i) (rows ! i))"
proof -
  have "length ef_grid = 6"
    by (simp add: ef_grid_def)
  with sweep_rows [of "sweep_point e k (length queries) queries truth clk" "row_ok clk (length queries)" "length queries" ef_grid m "[]",
      OF sweep_point_ok [OF assms]] show ?thesis
    by (simp add: ef_sweep_def)
qed

lemma replicated_ok:
  assumes "queries \<noteq> []"
  shows "replicated (length queries) queries = Inr (map (\<lambda>i. queries ! (i mod length queries)) [0..<max (length queries) 4000])"
proof -
  have "\<forall>i \<in> set [0..<max (length queries) 4000]. vget queries (i mod length queries) = Inr (queries ! (i mod length queries))"
    using assms by (simp add: vec_simps)
  from rfold_collect [OF this, of "[]"] show ?thesis
    using assms by (simp add: replicated_def)
qed

text \<open>Without a query the program divides by zero when it replicates the queries.\<close>

lemma replicated_empty: "replicated 0 queries = Inl Undefined_behaviour"
  using upt_conv_Cons [of 0 4000] by (simp add: replicated_def)

lemma concurrency_sweep_ok:
  assumes e: "holds_prefix xs (length xs) e" "eng_cfg e = bench_config levels d ik" and q: "bench_queries xs d batch" "length batch \<le> 2 ^ 53"
    and sched: "\<And>ranges. mset (schedule ranges) = mset (concat (map (\<lambda>(lo, hi). [lo..<hi]) ranges))" and clk: "clock_ok clk"
  shows "\<exists>rows. concurrency_sweep schedule hw e k batch clk m = Inr rows \<and> map tr_threads rows = thread_grid
    \<and> tr_speedup (hd rows) = f64_one \<and> (\<forall>r \<in> set rows. sound (tr_qps r) \<and> sound (tr_speedup r))"
proof -
  have wf: "engine_wf e"
    using e(1) by (simp add: holds_prefix_def mem_engine_def)
  have "\<forall>q \<in> set batch. length q = unat (cfg_dim (eng_cfg e)) \<and> nan_free (eng_store e) (cfg_metric (eng_cfg e)) q"
    using holds_prefix_search(1) [OF e] q(1) by (auto simp: bench_queries_def e(2) bench_config_def)
  from search_batch_ok [OF wf this sched] have "\<exists>rs. search_batch schedule hw batch k None bench_ef t e = Inr rs \<and> length rs = length batch" for t
    by blast
  then obtain rs where "\<And>t. search_batch schedule hw batch k None bench_ef t e = Inr (rs t) \<and> length (rs t) = length batch"
    by metis
  then have step: "thread_step schedule hw e k batch clk t (n, single, rows) =
      (let qps = batch_qps (length batch) (seconds clk n); single' = (if t = 1 then qps else single)
       in Inr (Suc n, single', rows @ [\<lparr>tr_threads = t, tr_qps = qps, tr_speedup = speedup qps single'\<rparr>]))" for t n single rows
    by (simp add: thread_step_def)
  have p: "plain (batch_qps (length batch) (seconds clk n))" for n
    by (rule batch_qps_plain [OF clk q(2)])
  show ?thesis
    by (simp add: concurrency_sweep_def thread_grid_def step Let_def speedup_self p speedup_sound sound_one plain_sound)
qed

lemma bench_built:
  fixes dr :: draws
  assumes "d \<noteq> 0" and "n \<le> 2 ^ 32 - 1"
  defines "xs \<equiv> map (data_vec dr d) [0..<n]"
  shows "\<exists>e0 e. engine_new (bench_config levels d ik) True no_disk [] no_calls = Inr e0 \<and> build xs e0 = (e, Inr ())
    \<and> holds_prefix xs (length xs) e \<and> eng_cfg e = bench_config levels d ik"
proof -
  obtain e0 where e0: "engine_new (bench_config levels d ik) True no_disk [] no_calls = Inr e0" "holds_prefix xs 0 e0"
    "eng_cfg e0 = bench_config levels d ik"
    using bench_engine [OF assms(1)] by blast
  have "\<forall>x \<in> set xs. length x = unat d" "length xs \<le> 2 ^ 32 - 1"
    using assms(2) by (auto simp: xs_def data_vec_def)
  with build_ok [OF e0(2)] e0 show ?thesis
    by (auto simp: bench_config_def)
qed

section \<open>Properties\<close>

text \<open>C31: Called with at least one query, at most \<open>2 ^ 53\<close> of them, a positive \<open>k\<close> up to the same bound, a positive
  dimension and fewer than \<open>2 ^ 32\<close> vectors, the benchmark runs to its end, without undefined behaviour or an exception,
  for all centroids between minus one and one, all finite noise, and every steady clock over at most \<open>2 ^ 53\<close> ticks. Row by row, the recall is a
  number between zero and one in spite of its rounded sums, both percentiles are latencies measured in that row's own
  loop with the median not above the other, and the rate is a non-negative number. The batch is answered on every number
  of threads; one thread has the speedup one, and no rate or speedup is negative or NaN.\<close>

theorem recall_harness_ok:
  assumes "parse_args argv = \<lparr>ba_n = n, ba_dim = d, ba_q = q, ba_k = k\<rparr>"
    and "d \<noteq> 0" and "n \<le> 2 ^ 32 - 1" and "0 < q" "q \<le> 2 ^ 53" and "0 < k" "k \<le> 2 ^ 53"
    and "draws_ok dr" and "clock_ok clk"
    and "\<And>ranges. mset (schedule ranges) = mset (concat (map (\<lambda>(lo, hi). [lo..<hi]) ranges))"
  shows "\<exists>r. harness_main argv dr clk levels schedule hw = Inr r
    \<and> br_flat_p50 r \<in> micros clk ` {2..<2 + q}
    \<and> length (br_rows r) = 6 \<and> (\<forall>i < 6. row_ok clk q (2 + q + i * q) (ef_grid ! i) (br_rows r ! i))
    \<and> br_batch r = max q 4000 \<and> map tr_threads (br_threads r) = thread_grid \<and> tr_speedup (hd (br_threads r)) = f64_one
    \<and> (\<forall>t \<in> set (br_threads r). sound (tr_qps t) \<and> sound (tr_speedup t))"
proof -
  note args = assms(1) and clk = assms(9) and sched = assms(10)
  let ?xs = "map (data_vec dr d) [0..<n]" and ?qs = "map (query_vec dr d) [0..<q]"
  note built = bench_built [OF assms(2,3), where dr = dr and levels = levels]
  from built [where ik = Flat_kind] obtain flat0 flat where flat: "engine_new (bench_config levels d Flat_kind) True no_disk [] no_calls = Inr flat0"
    "build ?xs flat0 = (flat, Inr ())" "holds_prefix ?xs (length ?xs) flat" "eng_cfg flat = bench_config levels d Flat_kind"
    by blast
  from built [where ik = Hnsw_kind] obtain hnsw0 hnsw where hnsw: "engine_new (bench_config levels d Hnsw_kind) True no_disk [] no_calls = Inr hnsw0"
    "build ?xs hnsw0 = (hnsw, Inr ())" "holds_prefix ?xs (length ?xs) hnsw" "eng_cfg hnsw = bench_config levels d Hnsw_kind"
    by blast
  have qs: "bench_queries ?xs d ?qs"
    using l2_finite_not_nan [OF draws_finite(2) [OF assms(8)] draws_finite(1) [OF assms(8)]]
    by (auto simp: bench_queries_def query_vec_def data_vec_def simp del: metric_value.simps)
  have ne: "?qs \<noteq> []" and len: "length ?qs = q"
    using assms(4) by simp_all
  obtain truth where truth: "ground_truth flat k q ?qs clk 2 = Inr (truth, map (\<lambda>i. micros clk (2 + i)) [0..<q])" "length truth = q"
    using ground_truth_ok [OF flat(3,4) qs, of k clk 2] unfolding len by blast
  let ?lat = "map (\<lambda>i. micros clk (2 + i)) [0..<q]"
  have "?lat \<noteq> []" "length ?lat \<le> 2 ^ 53"
    using assms(4,5) by simp_all
  then obtain p where p: "percentile ?lat p50 = Inr p" "p \<in> micros clk ` {2..<2 + q}"
    using percentile_in [OF percentile_consts(1), of ?lat] unfolding latencies_set by blast
  obtain rows where rows: "ef_sweep hnsw k q ?qs truth clk (2 + q) = Inr (2 + q + 6 * q, rows)" "length rows = 6"
    "\<forall>i < 6. row_ok clk q (2 + q + i * q) (ef_grid ! i) (rows ! i)"
    using ef_sweep_ok [OF hnsw(3,4) qs assms(6,7) _ ne _ clk, of truth "2 + q"] truth(2) assms(5) unfolding len by blast
  let ?batch = "map (\<lambda>i. ?qs ! (i mod q)) [0..<max q 4000]"
  have batch: "replicated q ?qs = Inr ?batch"
    using replicated_ok [OF ne] unfolding len .
  have "set ?batch \<subseteq> set ?qs"
    using assms(4) by (auto simp: nth_mem)
  then have "bench_queries ?xs d ?batch"
    using qs unfolding bench_queries_def by blast
  moreover have "length ?batch \<le> 2 ^ 53"
    using assms(5) by simp
  ultimately obtain threads where threads: "concurrency_sweep schedule hw hnsw k ?batch clk (2 + q + 6 * q) = Inr threads"
    "map tr_threads threads = thread_grid" "tr_speedup (hd threads) = f64_one" "\<forall>t \<in> set threads. sound (tr_qps t) \<and> sound (tr_speedup t)"
    using concurrency_sweep_ok [OF hnsw(3,4) _ _ sched clk] by blast
  have picks: "\<forall>i < q. dr_pick dr i < num_clusters"
    using assms(8) by (simp add: draws_ok_def)
  have "harness_main argv dr clk levels schedule hw = Inr \<lparr>br_args = parse_args argv, br_flat_build_ms = millis clk 0,
      br_hnsw_build_ms = millis clk 1, br_flat_p50 = p, br_rows = rows, br_hardware = max 1 hw, br_batch = max q 4000, br_threads = threads\<rparr>"
    using flat(1,2) hnsw(1,2) truth(1) p(1) rows(1) batch threads(1) make_data_ok make_queries_ok [OF picks]
    unfolding harness_main_def by (simp add: args)
  with p(2) rows(2,3) threads(2-4) show ?thesis
    by simp
qed

definition demo_draws :: draws where
  "demo_draws = \<lparr>dr_centroid = (\<lambda>_ _. f32_one), dr_noise = (\<lambda>_ _. f32_zero), dr_pick = (\<lambda>i. i mod num_clusters), dr_query = (\<lambda>_ _. f32_zero)\<rparr>"

definition demo_clock :: clock where
  "demo_clock r = int (min (r * 250) 1000000)"

text \<open>The program without arguments.\<close>

theorem recall_harness_ok_witness:
  "\<exists>r. harness_main [''recall_harness''] demo_draws demo_clock (\<lambda>_. 0) (\<lambda>ranges. concat (map (\<lambda>(lo, hi). [lo..<hi]) ranges)) 4 = Inr r
     \<and> length (br_rows r) = 6 \<and> br_batch r = 4000 \<and> tr_speedup (hd (br_threads r)) = f64_one"
proof -
  have "within 149 f32_one"
    by (simp add: within_def bounded_def f32_one_def unpack32_def mag_def)
  moreover have "f32_finite f32_zero"
    by (simp add: f32_finite_def f32_zero_def unpack32_def)
  ultimately have "draws_ok demo_draws"
    by (simp add: draws_ok_def demo_draws_def num_clusters_def)
  moreover have "clock_ok demo_clock"
    by (auto simp: clock_ok_def demo_clock_def mono_def)
  moreover have "parse_args [''recall_harness''] = \<lparr>ba_n = 20000, ba_dim = 128, ba_q = 200, ba_k = 10\<rparr>"
    by (simp add: parse_args_def argument_def)
  ultimately show ?thesis
    using recall_harness_ok [of "[''recall_harness'']" 20000 128 200 10 demo_draws demo_clock
        "\<lambda>ranges. concat (map (\<lambda>(lo, hi). [lo..<hi]) ranges)" "\<lambda>_. 0" 4]
    by auto
qed

end
