(* ===== verification/Rag_Exact.thy ===== *)
theory Rag_Exact
  imports Rag_Runs Index_Kind
begin

text \<open>
  Retrieval with the flat index, the default of \<^verbatim>\<open>RagConfig\<close>. The index of an engine stays the kind it was built
  as, so every state that a run of the RAG engine reaches answers exactly: as many chunks as there are, at most
  \<open>k\<close>, and none that is left out is closer than one that is returned.
\<close>

section \<open>The index keeps its kind\<close>

lemma erase_chunks_flat: "erase_chunks d n e = (e', r) \<Longrightarrow> is_flat (eng_index e) \<Longrightarrow> is_flat (eng_index e')"
  unfolding erase_chunks_def by (erule eloop_keeps [where P = "\<lambda>e. is_flat (eng_index e)"]) (auto dest: erase_flat)

lemma insert_chunks_flat: "eloop (insert_chunk m d cs) xs e = (e', r) \<Longrightarrow> is_flat (eng_index e) \<Longrightarrow> is_flat (eng_index e')"
  by (erule eloop_keeps [where P = "\<lambda>e. is_flat (eng_index e)"]) (auto simp: insert_chunk_def split: sum.splits dest: insert_flat)

lemma rag_perform_flat:
  assumes "is_flat (eng_index (re_engine r))"
  shows "is_flat (eng_index (re_engine (rag_perform req r)))"
proof (cases req)
  case (Ingest doc)
  with assms show ?thesis
    by (auto simp: rag_ingest_def Let_def split: prod.split sum.split option.split dest: erase_chunks_flat insert_chunks_flat)
next
  case (Remove d)
  with assms show ?thesis
    by (auto simp: rag_remove_def split: prod.split sum.split option.split dest: erase_chunks_flat)
qed

lemma rag_new_flat: "rag_new levels m cfg = Inr r \<Longrightarrow> rg_index cfg = Flat_kind \<Longrightarrow> is_flat (eng_index (re_engine r))"
  by (auto simp: rag_new_def engine_new_def make_index_def is_flat_def Let_def res_simps split: if_splits)

lemma rag_run_flat:
  assumes "rag_run d cfg reqs r" and "rg_index cfg = Flat_kind"
  shows "is_flat (eng_index (re_engine r))"
  using assms(1) by (induction rule: rag_run.induct) (use rag_new_flat assms(2) rag_perform_flat in blast)+

section \<open>Exact retrieval\<close>

lemma matching_none: "matching s None = dom (store_abs s)"
  by (auto simp: matching_def filter_ok_def)

lemma rag_retrieve_flat:
  assumes inv: "rag_inv d cfg D r" "d \<noteq> 0" and flat: "is_flat (eng_index (re_engine r))" and qv: "mock_embed d query = Inr qv"
  shows "\<exists>cs. rag_retrieve query k r = Inr cs \<and> length cs = min k (vs_size (eng_store (re_engine r)))
    \<and> (\<forall>dc ts i v. D dc = Some ts \<longrightarrow> i < length ts \<longrightarrow> mock_embed d (ts ! i) = Inr v \<longrightarrow>
         (\<exists>c \<in> set cs. rc_doc_id c = dc \<and> rc_text c = ts ! i)
       \<or> (\<forall>c \<in> set cs. f32_key (rc_score c) \<le> f32_key (metric_value (rg_metric cfg) qv v)))"
proof -
  let ?e = "re_engine r" and ?s = "eng_store (re_engine r)"
  have I: "rag_wf r D" "moderate_rag r" "re_model r = mock_model d" "re_cfg r = cfg"
    using inv(1) by (simp_all add: rag_inv_def)
  then have W: "engine_wf ?e" "cfg_dim (eng_cfg ?e) = d" "cfg_metric (eng_cfg ?e) = rg_metric cfg" "holds_docs (mock_model d) D (store_abs ?s)"
    by (simp_all add: rag_wf_def mem_engine_def mock_model_def)
  have wf: "store_wf ?s"
    by (rule engine_wfD(1) [OF W(1)])
  have emb: "em_embed (re_model r) query = Inr qv"
    using qv by (simp add: I(3) mock_model_def)
  obtain x where x: "eng_index ?e = Flat x"
    using flat by (auto simp: is_flat_def split: index.splits)
  have len: "length qv = unat (cfg_dim (eng_cfg ?e))"
    using mock_embed_ok [OF inv(2), of query] qv W(2) by simp
  have nan: "nan_free ?s (cfg_metric (eng_cfg ?e)) qv"
    by (rule moderate_rag_nan_free [OF I(2,1) _ emb]) (simp add: I(3) mock_model_seam inv(2))
  from flat_engine_exact [OF W(1) x len nan, of k None 0] obtain hits where hits: "engine_search qv k None 0 ?e = Inr hits"
    "length hits = min k (card (dom (store_abs ?s)))"
    "\<forall>key v m. store_abs ?s key = Some (v, m) \<longrightarrow> (\<exists>h \<in> set hits. external_id ?s (sr_id h) = Inr key)
       \<or> (\<forall>h \<in> set hits. hit_key h \<le> f32_key (metric_value (rg_metric cfg) qv v))"
    unfolding matching_none W(3) by (auto simp: filter_ok_def)
  have score: "rc_score (retrieved ?s h) = sr_score h" for h
    by (simp add: retrieved_def split: option.split)
  have "(\<exists>h \<in> set hits. rc_doc_id (retrieved ?s h) = dc \<and> rc_text (retrieved ?s h) = ts ! i)
      \<or> (\<forall>h \<in> set hits. f32_key (rc_score (retrieved ?s h)) \<le> f32_key (metric_value (rg_metric cfg) qv v))"
    if c: "D dc = Some ts" "i < length ts" "mock_embed d (ts ! i) = Inr v" for dc ts i v
  proof -
    have entry: "store_abs ?s (chunk_id dc i) = Some (v, chunk_meta dc (ts ! i))"
      using W(4) c by (auto simp: holds_docs_def entry_of_def mock_model_def)
    with hits(3) consider h where "h \<in> set hits" "external_id ?s (sr_id h) = Inr (chunk_id dc i)"
      | "\<forall>h \<in> set hits. hit_key h \<le> f32_key (metric_value (rg_metric cfg) qv v)"
      by blast
    then show ?thesis
    proof cases
      case 1
      then have "retrieved ?s h = \<lparr>rc_doc_id = dc, rc_text = ts ! i, rc_score = sr_score h\<rparr>"
        using entry_metadata [OF wf _ entry, of "sr_id h"] by (simp add: retrieved_def chunk_meta_string)
      with 1(1) show ?thesis
        by force
    qed (simp add: score hit_key_def)
  qed
  with hits(1,2) size_card [OF wf] emb show ?thesis
    by (intro exI [of _ "map (retrieved ?s) hits"]) (simp add: rag_retrieve_def)
qed

section \<open>Properties\<close>

text \<open>C22: With the flat index a query retrieves as many chunks as it asks for or as there are, and exactly the
  closest: for every chunk of a present document, either it is among the answers, or none of them is farther from the
  query than it is. This holds after any history of ingestions and removals.\<close>

theorem rag_run_exact:
  assumes "rag_run d cfg reqs r" and "d \<noteq> 0" and "rg_index cfg = Flat_kind"
  defines "D \<equiv> fold (docs_after (rg_chunk cfg)) reqs Map.empty"
  shows "\<exists>qv cs. mock_embed d query = Inr qv \<and> rag_retrieve query k r = Inr cs
    \<and> length cs = min k (\<Sum>dc \<in> dom D. length (the (D dc)))
    \<and> (\<forall>dc ts i v. D dc = Some ts \<longrightarrow> i < length ts \<longrightarrow> mock_embed d (ts ! i) = Inr v \<longrightarrow>
         (\<exists>c \<in> set cs. rc_doc_id c = dc \<and> rc_text c = ts ! i)
       \<or> (\<forall>c \<in> set cs. f32_key (rc_score c) \<le> f32_key (metric_value (rg_metric cfg) qv v)))"
proof -
  have inv: "rag_inv d cfg D r"
    unfolding D_def by (rule rag_run_inv [OF assms(1,2)])
  then have "vs_size (eng_store (re_engine r)) = (\<Sum>dc \<in> dom D. length (the (D dc)))"
    by (intro rag_wf_counts(2)) (simp add: rag_inv_def)
  moreover obtain qv where qv: "mock_embed d query = Inr qv"
    using mock_embed_ok [OF assms(2)] by blast
  ultimately show ?thesis
    using rag_retrieve_flat [OF inv assms(2) rag_run_flat [OF assms(1,3)] qv, of k] by simp
qed

theorem rag_run_exact_witness:
  "\<exists>r cs. rag_run 128 demo_rag_config [Ingest \<lparr>doc_id = ''d'', doc_text = ''a b c''\<rparr>] r
     \<and> rag_retrieve ''b'' 1 r = Inr cs \<and> length cs = 1"
proof -
  obtain r where r: "rag_run 128 demo_rag_config [Ingest \<lparr>doc_id = ''d'', doc_text = ''a b c''\<rparr>] r"
    using demo_rag_run by blast
  have D: "fold (docs_after (rg_chunk demo_rag_config)) [Ingest \<lparr>doc_id = ''d'', doc_text = ''a b c''\<rparr>] Map.empty = [''d'' \<mapsto> [''a b'', ''c'']]"
    by (simp add: demo_rag_config_def demo_chunks)
  show ?thesis
    using rag_run_exact [OF r, of "''b''" 1] r unfolding D by (auto simp: demo_rag_config_def)
qed

end
