(* ===== verification/Rag_Demo.thy ===== *)
theory Rag_Demo
  imports Rag_Exact
begin

text \<open>
  \<^verbatim>\<open>examples/rag_demo.cpp\<close>: the program that ingests a small corpus with the hashing model, retrieves chunks for a
  question and assembles a prompt. Its result is the record of what it prints. The lemmas determine the numbers
  it reports and show that its answers come from the corpus and its prompt stays within the budget.
\<close>

section \<open>The program\<close>

definition demo_cfg :: rag_config where
  "demo_cfg = \<lparr>rg_chunk = \<lparr>cc_window = 12, cc_overlap = 4\<rparr>, rg_metric = Cosine, rg_index = Flat_kind,
     rg_retrieve_k = 3, rg_token_budget = 128\<rparr>"

definition corpus :: "document list" where
  "corpus =
    [\<lparr>doc_id = ''hnsw'', doc_text = ''HNSW is a graph based approximate nearest neighbour index that uses a '' @
        ''hierarchy of navigable small world layers to find close vectors quickly.''\<rparr>,
     \<lparr>doc_id = ''wal'', doc_text = ''A write ahead log records every mutation before it is applied so the '' @
        ''database can recover its state after a crash by replaying the log.''\<rparr>,
     \<lparr>doc_id = ''cosine'', doc_text = ''Cosine similarity measures the angle between two vectors and is a common '' @
        ''distance metric for comparing text embeddings in a vector database.''\<rparr>,
     \<lparr>doc_id = ''rag'', doc_text = ''Retrieval augmented generation retrieves relevant documents and injects them '' @
        ''into the prompt so a language model can answer using grounded context.''\<rparr>]"

definition demo_query :: string where
  "demo_query = ''how does a database recover after a crash''"

fun ingest_corpus :: "document list \<Rightarrow> nat \<Rightarrow> rag_engine \<Rightarrow> rag_engine \<times> nat res" where
  "ingest_corpus [] total_chunks r = (r, Inr total_chunks)"
| "ingest_corpus (doc # docs) total_chunks r =
     (case rag_ingest doc r of
        (r', Inl er) \<Rightarrow> (r', Inl er)
      | (r', Inr n) \<Rightarrow> ingest_corpus docs (total_chunks + n) r')"

record demo_output =
  do_documents :: nat
  do_total_chunks :: nat
  do_indexed :: nat
  do_hits :: "retrieved_chunk list"
  do_prompt :: string

definition rag_demo :: "(nat \<Rightarrow> nat) \<Rightarrow> demo_output res" where
  "rag_demo levels =
     rbind (rag_new levels (mock_model 256) demo_cfg) (\<lambda>r0.
       case ingest_corpus corpus 0 r0 of
         (_, Inl er) \<Rightarrow> Inl er
       | (r, Inr total_chunks) \<Rightarrow>
           rbind (rag_retrieve demo_query (rg_retrieve_k demo_cfg) r) (\<lambda>hits.
           rbind (rag_build_prompt demo_query r) (\<lambda>prompt.
             Inr \<lparr>do_documents = length corpus, do_total_chunks = total_chunks,
               do_indexed = vs_size (eng_store (re_engine r)), do_hits = hits, do_prompt = prompt\<rparr>)))"

section \<open>The corpus\<close>

definition chunks_of :: "rag_config \<Rightarrow> document list \<Rightarrow> nat" where
  "chunks_of cfg docs = sum_list (map (\<lambda>doc. length (chunk_text (doc_text doc) (rg_chunk cfg))) docs)"


lemma corpus_tokens: "map (\<lambda>doc. (doc_id doc, length (tokenize (doc_text doc)))) corpus
    = [(''hnsw'', 23), (''wal'', 25), (''cosine'', 22), (''rag'', 21)]"
  by code_simp

lemma demo_query_tokens: "approx_tokens demo_query + kScaffoldTokens \<le> rg_token_budget demo_cfg"
  by code_simp

lemma corpus_chunks: "map (\<lambda>doc. (doc_id doc, length (chunk_text (doc_text doc) (rg_chunk demo_cfg)))) corpus
    = [(''hnsw'', 3), (''wal'', 3), (''cosine'', 3), (''rag'', 3)]"
proof -
  have steps: "chunk_window (rg_chunk demo_cfg) = 12" "chunk_step (rg_chunk demo_cfg) = 8"
    by (simp_all add: demo_cfg_def chunk_window_def chunk_step_def chunk_overlap_def)
  have "map (\<lambda>doc. (doc_id doc, length (chunk_text (doc_text doc) (rg_chunk demo_cfg)))) corpus
      = map (\<lambda>(d, n). (d, if n = 0 then 0 else Suc ((n - 12 + 7) div 8))) (map (\<lambda>doc. (doc_id doc, length (tokenize (doc_text doc)))) corpus)"
    by (simp add: length_chunk_text steps)
  then show ?thesis
    unfolding corpus_tokens by simp
qed

section \<open>Ingesting the corpus\<close>

lemma ingest_corpus_ok:
  assumes "rag_inv d cfg D r" and "d \<noteq> 0" and "slot_count (eng_store (re_engine r)) + chunks_of cfg docs \<le> 2 ^ 32 - 1"
  shows "\<exists>r'. ingest_corpus docs total_chunks r = (r', Inr (total_chunks + chunks_of cfg docs))
    \<and> r' = fold rag_perform (map Ingest docs) r \<and> rag_inv d cfg (fold (docs_after (rg_chunk cfg)) (map Ingest docs) D) r'"
  using assms(1,3)
proof (induction docs arbitrary: D r total_chunks)
  case (Cons doc docs)
  let ?n = "length (chunk_text (doc_text doc) (rg_chunk cfg))"
  have I: "rag_wf r D" "re_model r = mock_model d" "re_cfg r = cfg"
    using Cons.prems(1) by (simp_all add: rag_inv_def)
  have room: "?n \<le> store_room (eng_store (re_engine r))"
    using Cons.prems(2) by (simp add: store_room_def chunks_of_def)
  then obtain r1 where r1: "rag_ingest doc r = (r1, Inr ?n)" "slot_count (eng_store (re_engine r1)) \<le> slot_count (eng_store (re_engine r)) + ?n"
    using embedding_seam.ingest_ok [OF mock_model_seam [OF assms(2)] I(1,2), of doc] I(3) by auto
  then have step: "rag_perform (Ingest doc) r = r1"
    by simp
  have "rag_inv d cfg (docs_after (rg_chunk cfg) (Ingest doc) D) r1"
    using rag_inv_step [OF Cons.prems(1) assms(2), of "Ingest doc"] room I(3) step by simp
  from Cons.IH [OF this, of "total_chunks + ?n"] Cons.prems(2) r1 step show ?case
    by (simp add: chunks_of_def add.assoc del: docs_after.simps)
qed (simp add: chunks_of_def)

lemma docs_origin:
  "fold (docs_after cc) (map Ingest docs) D k = Some ts
     \<Longrightarrow> D k = Some ts \<or> (\<exists>doc \<in> set docs. doc_id doc = k \<and> ts = map ck_text (chunk_text (doc_text doc) cc))"
  by (induction docs arbitrary: D) (fastforce simp: Let_def split: if_splits)+

lemma chunk_origin:
  assumes "fold (docs_after cc) (map Ingest docs) Map.empty k = Some ts" and "x \<in> set ts"
  shows "\<exists>doc \<in> set docs. k = doc_id doc \<and> x \<in> ck_text ` set (chunk_text (doc_text doc) cc)"
proof -
  from docs_origin [OF assms(1)] obtain doc where "doc \<in> set docs" "doc_id doc = k" "ts = map ck_text (chunk_text (doc_text doc) cc)"
    by auto
  with assms(2) show ?thesis
    by (intro bexI [of _ doc]) auto
qed

lemma docs_total:
  fixes cfg :: rag_config
  assumes "distinct (map doc_id docs)" and "finite (dom D)" and "dom D \<inter> doc_id ` set docs = {}"
  defines "D' \<equiv> fold (docs_after (rg_chunk cfg)) (map Ingest docs) D"
  shows "(\<Sum>k \<in> dom D'. length (the (D' k))) = (\<Sum>k \<in> dom D. length (the (D k))) + chunks_of cfg docs"
  using assms(1-3) unfolding D'_def
proof (induction docs arbitrary: D)
  case (Cons doc docs)
  let ?ts = "map ck_text (chunk_text (doc_text doc) (rg_chunk cfg))" and ?E = "docs_after (rg_chunk cfg) (Ingest doc) D"
  have new: "D (doc_id doc) = None"
    using Cons.prems(3) by auto
  have "(\<Sum>k \<in> dom ?E. length (the (?E k))) = (\<Sum>k \<in> dom D. length (the (D k))) + length ?ts"
  proof (cases "?ts = []")
    case False
    then have "?E = D(doc_id doc \<mapsto> ?ts)"
      by simp
    then have "(\<Sum>k \<in> dom ?E. length (the (?E k))) = length ?ts + (\<Sum>k \<in> dom D. length (the ((D(doc_id doc \<mapsto> ?ts)) k)))"
      using new Cons.prems(2) by (simp add: domIff)
    also have "(\<Sum>k \<in> dom D. length (the ((D(doc_id doc \<mapsto> ?ts)) k))) = (\<Sum>k \<in> dom D. length (the (D k)))"
      using new by (intro sum.cong) auto
    finally show ?thesis
      by (simp only: add.commute)
  qed (use new in \<open>simp add: fun_upd_idem\<close>)
  moreover have "finite (dom ?E)" "dom ?E \<inter> doc_id ` set docs = {}"
    using Cons.prems by (auto simp: Let_def)
  ultimately show ?case
    using Cons.IH [of ?E] Cons.prems(1) by (simp add: chunks_of_def del: docs_after.simps)
qed (simp add: chunks_of_def)

lemma ingest_flat:
  "is_flat (eng_index (re_engine r)) \<Longrightarrow> is_flat (eng_index (re_engine (fold rag_perform (map Ingest docs) r)))"
  by (induction docs arbitrary: r) (simp_all add: rag_perform_flat del: rag_perform.simps)

section \<open>Properties\<close>

text \<open>C32: The demo runs to its end. It reports four documents with twelve chunks and twelve indexed vectors, prints
  three retrieved chunks in order of their distance, each a chunk of the document it is attributed to, and a
  prompt built from these chunks that stays within the budget of 128 tokens.\<close>

theorem rag_demo_ok:
  "\<exists>out. rag_demo levels = Inr out \<and> do_documents out = 4 \<and> do_total_chunks out = 12 \<and> do_indexed out = 12
     \<and> length (do_hits out) = 3 \<and> sorted_wrt (\<lambda>a b. f32_key (rc_score a) \<le> f32_key (rc_score b)) (do_hits out)
     \<and> (\<forall>c \<in> set (do_hits out). \<exists>doc \<in> set corpus. rc_doc_id c = doc_id doc
          \<and> rc_text c \<in> ck_text ` set (chunk_text (doc_text doc) (rg_chunk demo_cfg)))
     \<and> do_prompt out = build_prompt_text 128 demo_query (do_hits out) \<and> approx_tokens (do_prompt out) \<le> 128"
proof -
  let ?D = "fold (docs_after (rg_chunk demo_cfg)) (map Ingest corpus) Map.empty"
  have cfg: "rg_index demo_cfg = Flat_kind" "rg_retrieve_k demo_cfg = 3" "rg_token_budget demo_cfg = 128"
    by (simp_all add: demo_cfg_def)
  have ids: "distinct (map doc_id corpus)" and four: "length corpus = 4" and twelve: "chunks_of demo_cfg corpus = 12"
    using arg_cong [OF corpus_chunks, of "map fst"] arg_cong [OF corpus_chunks, of length] arg_cong [OF corpus_chunks, of "\<lambda>xs. sum_list (map snd xs)"]
    by (simp_all add: chunks_of_def comp_def)
  have dim: "(256 :: dim) \<noteq> 0"
    by simp
  then have "em_dim (mock_model 256) \<noteq> 0"
    by (simp add: mock_model_def)
  from rag_new_ok [OF this] obtain r0 where r0: "rag_new levels (mock_model 256) demo_cfg = Inr r0"
    "store_room (eng_store (re_engine r0)) = 2 ^ 32 - 1"
    by blast
  have "slot_count (eng_store (re_engine r0)) = 0"
    using r0(2) by (simp add: store_room_def)
  with ingest_corpus_ok [OF rag_inv_new [OF dim r0(1)] dim, of corpus 0] twelve obtain r where r: "ingest_corpus corpus 0 r0 = (r, Inr 12)"
    "r = fold rag_perform (map Ingest corpus) r0" "rag_inv 256 demo_cfg ?D r"
    by auto
  have "vs_size (eng_store (re_engine r)) = (\<Sum>k \<in> dom ?D. length (the (?D k)))"
    using r(3) by (intro rag_wf_counts(2)) (simp add: rag_inv_def)
  with docs_total [OF ids, of Map.empty demo_cfg] twelve have size: "vs_size (eng_store (re_engine r)) = 12"
    by simp
  obtain qv hits where hits: "mock_embed 256 demo_query = Inr qv" "rag_retrieve demo_query 3 r = Inr hits"
    "sorted_wrt (\<lambda>a b. f32_key (rc_score a) \<le> f32_key (rc_score b)) hits"
    "\<forall>c \<in> set hits. \<exists>ts. ?D (rc_doc_id c) = Some ts \<and> rc_text c \<in> set ts"
    using rag_inv_retrieve [OF r(3) dim, of demo_query 3] by blast
  have flat: "is_flat (eng_index (re_engine r))"
    unfolding r(2) by (rule ingest_flat [OF rag_new_flat [OF r0(1) cfg(1)]])
  have three: "length hits = 3"
    using rag_retrieve_flat [OF r(3) dim flat hits(1), of 3] hits(2) size by auto
  have origin: "\<forall>c \<in> set hits. \<exists>doc \<in> set corpus. rc_doc_id c = doc_id doc
      \<and> rc_text c \<in> ck_text ` set (chunk_text (doc_text doc) (rg_chunk demo_cfg))"
    using hits(4) chunk_origin [of "rg_chunk demo_cfg" corpus] by blast
  have fits: "approx_tokens (build_prompt_text 128 demo_query hits) \<le> 128"
    using prompt_fits [OF demo_query_tokens, of hits] three cfg(3) by simp
  have "re_cfg r = demo_cfg"
    using r(3) by (simp add: rag_inv_def)
  then show ?thesis
    using r0(1) r(1) hits(2,3) size three four origin fits by (simp add: rag_demo_def rag_build_prompt_def cfg)
qed

theorem rag_demo_ok_witness: "\<exists>out. rag_demo (\<lambda>_. 0) = Inr out \<and> do_total_chunks out = 12 \<and> length (do_hits out) = 3"
  using rag_demo_ok [of "\<lambda>_. 0"] by blast

end
