(* ===== verification/Hnsw_Levels.thy ===== *)
theory Hnsw_Levels
  imports Hnsw_Index Float_Bounds
begin

text \<open>
  The random levels of \<^verbatim>\<open>hnsw_index.hpp\<close>. \<^verbatim>\<open>std::log\<close> is a parameter, since the standard leaves its rounding open;
  what is assumed of it are coarse bounds that every implementation meets. The conversion of the level to an
  \<^verbatim>\<open>int\<close> is shown never to leave the range of the type, for every draw of the generator.
\<close>

section \<open>Definitions\<close>

text \<open>\<^verbatim>\<open>static_cast<int>\<close> of a double truncates; a value outside the range of the type is undefined.\<close>

definition f64_to_int :: "f64 \<Rightarrow> int res" where
  "f64_to_int a =
     (let x = unpack64 a; v = int (mag binary64 (snd x) div 2 ^ 1074); i = (if fst x then - v else v)
      in if inf_bits binary64 \<le> snd x \<or> i < - (2 ^ 31) \<or> 2 ^ 31 \<le> i then Inl Undefined_behaviour else Inr i)"

text \<open>The member \<^verbatim>\<open>mL_\<close>, computed by the constructor from \<^verbatim>\<open>params.M\<close>.\<close>

definition level_scale :: "(f64 \<Rightarrow> f64) \<Rightarrow> int \<Rightarrow> f64" where
  "level_scale log m = f64_div f64_one (log (f64_of_int (max 2 m)))"

definition random_level :: "(f64 \<Rightarrow> f64) \<Rightarrow> f64 \<Rightarrow> f64 \<Rightarrow> int res" where
  "random_level log mL u =
     (let r = f64_sub f64_one u in f64_to_int (f64_mul (f64_neg (log r)) mL))"

section \<open>The bounds\<close>

text \<open>A draw of \<^verbatim>\<open>std::uniform_real_distribution<double>(0, 1)\<close>: at least zero and less than one.\<close>

definition unit_draw :: "f64 \<Rightarrow> bool" where
  "unit_draw u \<longleftrightarrow> \<not> fst (unpack64 u) \<and> snd (unpack64 u) < snd (unpack64 f64_one)"

text \<open>Of the logarithm: on \<open>(0, 1]\<close> it lies between \<open>-1024\<close> and zero, and from two on it is at least a half.\<close>

definition log_ok :: "(f64 \<Rightarrow> f64) \<Rightarrow> bool" where
  "log_ok log \<longleftrightarrow>
     (\<forall>r. \<not> fst (unpack64 r) \<longrightarrow> 0 < snd (unpack64 r) \<longrightarrow> snd (unpack64 r) \<le> snd (unpack64 f64_one) \<longrightarrow>
        bounded binary64 (2 ^ 1084) (unpack64 (log r)) \<and> (fst (unpack64 (log r)) \<or> snd (unpack64 (log r)) = 0))
   \<and> (\<forall>m. 2 \<le> m \<longrightarrow> m < 2 ^ 31 \<longrightarrow>
        \<not> fst (unpack64 (log (f64_of_int m))) \<and> snd (unpack64 (log (f64_of_int m))) < inf_bits binary64
        \<and> 2 ^ 1073 \<le> mag binary64 (snd (unpack64 (log (f64_of_int m)))))"

lemma one_bits: "unpack64 f64_one = (False, 0x3FF0000000000000)" "mag binary64 0x3FF0000000000000 = 2 ^ 1074"
  by (simp add: f64_one_def unpack64_def) (simp add: mag_def)

lemma round_one: "round_units binary64 (2 ^ 1074) 1 = 0x3FF0000000000000"
  unfolding one_bits(2) [symmetric] by (rule round_units_mag) simp_all

text \<open>The complement of a draw is positive and at most one, so its logarithm is finite.\<close>

lemma complement_unit:
  assumes "unit_draw u"
  shows "\<not> fst (unpack64 (f64_sub f64_one u))" "0 < snd (unpack64 (f64_sub f64_one u))"
    "snd (unpack64 (f64_sub f64_one u)) \<le> snd (unpack64 f64_one)"
proof -
  define v where "v = (2 :: nat) ^ 1074 - mag binary64 (snd (unpack64 u))"
  have u: "\<not> fst (unpack64 u)" "snd (unpack64 u) < 0x3FF0000000000000"
    using assms by (simp_all add: unit_draw_def one_bits)
  have less: "mag binary64 (snd (unpack64 u)) < 2 ^ 1074"
    using mag_strict_mono [OF u(2), of binary64] one_bits(2) by simp
  then have v: "0 < v" "v \<le> 2 ^ 1074"
    by (simp_all add: v_def)
  have "sval binary64 (unpack64 f64_one) + sval binary64 (fp_neg (unpack64 u)) = int v"
    using u(1) less unfolding one_bits(1) sval_def v_def by (simp add: one_bits(2) fp_neg_def of_nat_diff)
  moreover have "\<not> fp_is_nan binary64 (unpack64 f64_one)" "\<not> fp_is_inf binary64 (unpack64 f64_one)"
    "\<not> fp_is_nan binary64 (fp_neg (unpack64 u))" "\<not> fp_is_inf binary64 (fp_neg (unpack64 u))"
    using u(2) by (simp_all add: one_bits fp_is_nan_def fp_is_inf_def fp_neg_def)
  ultimately have sub: "unpack64 (f64_sub f64_one u) = (False, round_units binary64 v 1)"
    using v(1) by (simp add: unpack_f64_sub fp_sub_def fp_add_def)
  then show "\<not> fst (unpack64 (f64_sub f64_one u))"
    by simp
  have "round_units binary64 1 1 \<le> round_units binary64 v 1" "round_units binary64 v 1 \<le> round_units binary64 (2 ^ 1074) 1"
    using v by (intro round_units_mono; simp)+
  moreover have "round_units binary64 1 1 = 1"
    using round_units_mag [of 1 binary64] by (simp add: mag_def)
  ultimately show "0 < snd (unpack64 (f64_sub f64_one u))" "snd (unpack64 (f64_sub f64_one u)) \<le> snd (unpack64 f64_one)"
    unfolding sub round_one by (simp_all add: one_bits)
qed

lemma level_scale_bounded:
  assumes "log_ok log" and "m < 2 ^ 31"
  shows "\<not> fst (unpack64 (level_scale log m))" and "bounded binary64 (2 ^ 1075) (unpack64 (level_scale log m))"
proof -
  let ?x = "unpack64 (log (f64_of_int (max 2 m)))"
  have x: "\<not> fst ?x" "snd ?x < inf_bits binary64" "2 ^ 1073 \<le> mag binary64 (snd ?x)"
    using assms by (simp_all add: log_ok_def)
  have pos: "0 < mag binary64 (snd ?x)"
    using x(3) by (rule less_le_trans [rotated]) simp
  have one: "\<not> fst (unpack64 f64_one)" "snd (unpack64 f64_one) < inf_bits binary64" "mag binary64 (snd (unpack64 f64_one)) = 2 ^ 1074"
    by (simp_all only: one_bits fst_conv snd_conv) simp_all
  have div: "unpack64 (level_scale log m) = (False, round_units binary64 (2 ^ 1074 * 2 ^ 1074) (mag binary64 (snd ?x)))"
    using fp_div_pos [OF one(1) x(1) one(2) x(2) pos] by (simp add: level_scale_def unpack_f64_op one(3))
  have "2 ^ 1074 * 2 ^ 1074 = 2 ^ 1075 * (2 :: nat) ^ 1073"
    by (simp only: power_add [symmetric]) simp
  also have "\<dots> \<le> 2 ^ 1075 * mag binary64 (snd ?x)"
    using x(3) by (rule mult_le_mono2)
  finally show "bounded binary64 (2 ^ 1075) (unpack64 (level_scale log m))"
    unfolding div using pos representable64 [of 1075] by (intro bounded_round) simp_all
  show "\<not> fst (unpack64 (level_scale log m))"
    unfolding div by simp
qed

lemma f64_to_int_bounded:
  assumes "bounded binary64 (c * 2 ^ 1074) (unpack64 a)" and "\<not> fst (unpack64 a) \<or> snd (unpack64 a) = 0" and "c < 2 ^ 31"
  shows "\<exists>i. f64_to_int a = Inr i \<and> 0 \<le> i \<and> i \<le> int c"
proof -
  define x v where "x = unpack64 a" and "v = mag binary64 (snd x) div 2 ^ 1074"
  have "v \<le> c * 2 ^ 1074 div 2 ^ 1074"
    unfolding v_def x_def using assms(1) by (intro div_le_mono) (simp add: bounded_def)
  also have "\<dots> = c"
    by (rule nonzero_mult_div_cancel_right) simp
  finally have v: "v \<le> c" .
  have "fst x \<Longrightarrow> v = 0"
    using assms(2) by (simp add: x_def v_def mag_def)
  moreover have "snd x < inf_bits binary64"
    using assms(1) by (simp add: bounded_def x_def)
  ultimately have "f64_to_int a = Inr (int v)"
    using v assms(3) unfolding f64_to_int_def Let_def x_def [symmetric] v_def [symmetric] by auto
  with v show ?thesis
    by auto
qed

section \<open>Properties\<close>

text \<open>C33: The level of a new node is always defined: whatever number in \<open>[0, 1)\<close> the generator draws and whatever
  the parameter \<open>M\<close>, the logarithm is taken of a positive number, and the conversion to \<open>int\<close> gives a
  level between zero and \<open>2048\<close>.\<close>

theorem random_level_defined:
  assumes "log_ok log" and "unit_draw u" and "m < 2 ^ 31"
  shows "\<exists>level. random_level log (level_scale log m) u = Inr level \<and> 0 \<le> level \<and> level \<le> 2048"
proof -
  let ?y = "f64_neg (log (f64_sub f64_one u))" and ?mL = "level_scale log m"
  have y: "bounded binary64 (2 ^ 1084) (unpack64 ?y)" "\<not> fst (unpack64 ?y) \<or> snd (unpack64 ?y) = 0"
    using assms(1) complement_unit [OF assms(2)] unfolding log_ok_def by (auto simp: unpack_f64_sub fp_neg_def bounded_def)
  note s = level_scale_bounded [OF assms(1,3)]
  have c: "(2 :: nat) ^ 1084 * 2 ^ 1075 \<le> 2 ^ 1085 * 2 ^ unit_exp binary64"
    by (simp only: power_add [symmetric]) simp
  have prod: "bounded binary64 (2 ^ 1085) (unpack64 (f64_mul ?y ?mL))"
    using bounded_mul [OF y(1) s(2) representable64 c] by (simp add: unpack_f64_op)
  have fin: "snd (unpack64 ?y) < inf_bits binary64" "snd (unpack64 ?mL) < inf_bits binary64"
    using y(1) s(2) by (simp_all add: bounded_def)
  then have eq: "unpack64 (f64_mul ?y ?mL) = (fst (unpack64 ?y), round_units binary64
      (mag binary64 (snd (unpack64 ?y)) * mag binary64 (snd (unpack64 ?mL))) (2 ^ unit_exp binary64))"
    using s(1) by (simp add: unpack_f64_op fp_mul_def fp_is_nan_def fp_is_inf_def)
  have zero: "mag binary64 0 = 0" "round_units binary64 0 d = 0" for d
    by (auto simp: mag_def round_units_def rne_def)
  have "\<not> fst (unpack64 (f64_mul ?y ?mL)) \<or> snd (unpack64 (f64_mul ?y ?mL)) = 0"
    using y(2) zero by (auto simp: eq)
  moreover have "(2 :: nat) ^ 1085 = 2048 * 2 ^ 1074"
    using power_add [of "2 :: nat" 11 1074] by simp
  ultimately show ?thesis
    using f64_to_int_bounded [of 2048 "f64_mul ?y ?mL"] prod by (simp add: random_level_def)
qed

text \<open>A coarse logarithm that meets the bounds.\<close>

definition step_log :: "f64 \<Rightarrow> f64" where
  "step_log a = (if snd (unpack64 a) \<le> snd (unpack64 f64_one) then f64_neg f64_one else f64_one)"

theorem random_level_defined_witness:
  "\<exists>level. random_level step_log (level_scale step_log 16) 0x3FE0000000000000 = Inr level \<and> 0 \<le> level \<and> level \<le> 2048"
proof -
  have "2 ^ 1074 \<le> (2 :: nat) ^ 1084" "(2 :: nat) ^ 1073 \<le> 2 ^ 1074"
    by (rule power_increasing; simp)+
  then have "bounded binary64 (2 ^ 1084) (False, 0x3FF0000000000000)" "(2 :: nat) ^ 1073 \<le> mag binary64 0x3FF0000000000000"
    unfolding bounded_def snd_conv one_bits(2) by simp_all
  moreover have "\<forall>m. 2 \<le> m \<longrightarrow> m < 2 ^ 31 \<longrightarrow> \<not> snd (unpack64 (f64_of_int m)) \<le> snd (unpack64 f64_one)"
  proof (intro allI impI)
    fix m :: int
    assume that: "2 \<le> m" "m < 2 ^ 31"
    have "\<bar>m\<bar> \<le> 2 ^ 53"
      using that by simp
    note exact = sval_of_int_exact [OF this]
    have "\<not> fst (fp_of_int binary64 m)"
      using that by (simp add: fp_of_int_def)
    then have "int (mag binary64 (snd (fp_of_int binary64 m))) = m * 2 ^ 1074"
      using exact(2) by (simp only: sval_def if_False)
    moreover have "(2 :: int) ^ 1074 < m * 2 ^ 1074"
      using that(1) mult_strict_right_mono [of 1 m "2 ^ 1074"] by simp
    ultimately have "mag binary64 0x3FF0000000000000 < mag binary64 (snd (fp_of_int binary64 m))"
      unfolding one_bits(2) by (metis of_nat_less_iff of_nat_numeral of_nat_power)
    then have "\<not> snd (fp_of_int binary64 m) \<le> 0x3FF0000000000000"
      using mag_mono [of "snd (fp_of_int binary64 m)" "0x3FF0000000000000" binary64] by auto
    then show "\<not> snd (unpack64 (f64_of_int m)) \<le> snd (unpack64 f64_one)"
      by (simp add: one_bits unpack_f64_of_int)
  qed
  ultimately have "log_ok step_log"
    by (auto simp: log_ok_def step_log_def unpack_f64_sub fp_neg_def one_bits bounded_def)
  moreover have "unit_draw 0x3FE0000000000000"
    by (simp add: unit_draw_def one_bits) (simp add: unpack64_def)
  ultimately show ?thesis
    using random_level_defined [of step_log "0x3FE0000000000000" 16] by simp
qed

end
