(* ===== verification/Hnsw_Stranded.thy ===== *)
theory Hnsw_Stranded
  imports Hnsw_Connected
begin

text \<open>
  What happens to an entry that is inserted into a graph all of whose nodes are deleted. The search for neighbours admits
  live nodes only, so it finds none; unless the new node becomes the entry point, nothing ever leads to it.
\<close>

section \<open>Linking among deleted nodes\<close>

definition dead_but :: "vector_store \<Rightarrow> internal_id \<Rightarrow> node list \<Rightarrow> bool" where
  "dead_but s i nodes \<longleftrightarrow> (\<forall>j. has_layer nodes j 0 \<longrightarrow> j = i \<or> \<not> is_live s j)"

lemma dead_search:
  assumes "readable s q nodes" and "graph_ok nodes" and "allowed_wf a" and "vis_ok (length nodes) vis"
    and "\<forall>c \<in> set entries. cand_at s m q nodes l c" and "distinct (map c_id entries)"
    and dead: "dead_but s i nodes" "unlinked i nodes" "i \<notin> c_id ` set entries"
  shows "\<exists>vis'. search_layer s m nodes q entries ef l a vis = Inr (vis', []) \<and> vis_ok (length nodes) vis'"
proof -
  obtain vis' w where w: "search_layer s m nodes q entries ef l a vis = Inr (vis', w)" "vis_ok (length nodes) vis'"
    "\<forall>c \<in> set w. cand_at s m q nodes l c \<and> eligible s a (c_id c)"
    using search_layer_ok [OF assms(1-6), of ef] by blast
  have "c_id ` set w \<subseteq> - {i}"
    using search_layer_inside [OF w(1) unlinked_closed [OF dead(2)]] dead(3) by auto
  moreover have "has_layer nodes (c_id c) 0 \<and> is_live s (c_id c)" if "c \<in> set w" for c
    using w(3) that has_layer_mono [of nodes "c_id c" l 0] by (auto simp: cand_at_def eligible_def)
  ultimately have "w = []"
    using dead(1) by (cases w) (auto simp: dead_but_def)
  with w(1,2) show ?thesis
    by blast
qed

lemma dead_link_layers:
  assumes r: "readable s q nodes" and g: "graph_ok nodes" and e: "distinct (map c_id entries)"
    and dead: "dead_but s i nodes" "unlinked i nodes" "i \<notin> c_id ` set entries"
    and "\<forall>l \<in> set ls. \<forall>c \<in> set entries. cand_at s m q nodes l c" and "vis_ok (length nodes) vis"
  shows "\<exists>vis'. rfold (link_layer s m p q i) ls (entries, vis, nodes) = Inr (entries, vis', nodes)"
  using assms(7,8)
proof (induction ls arbitrary: vis)
  case (Cons l ls)
  obtain vis' where v: "search_layer s m nodes q entries (to_size (hp_efConstruction p)) l None vis = Inr (vis', [])" "vis_ok (length nodes) vis'"
    using dead_search [OF r g _ Cons.prems(2) _ e dead, of None m l "to_size (hp_efConstruction p)"] Cons.prems(1)
    by (auto simp: allowed_wf_def)
  then have "link_layer s m p q i l (entries, vis, nodes) = Inr (entries, vis', nodes)"
    by (simp add: link_layer_eq select_neighbors_eq sort_by_def)
  with Cons.IH [OF _ v(2)] Cons.prems(1) show ?case
    by simp
qed simp

lemma dead_zoom:
  assumes r: "readable s q nodes" and g: "graph_ok nodes" and un: "unlinked i nodes" and ep: "has_layer nodes ep n" "ep \<noteq> i"
    and "\<forall>l \<in> set ls. n \<le> l"
  shows "\<exists>c. zoom_in s m nodes q ls \<lparr>c_dist = metric_value m q (slot_vec s ep), c_id = ep\<rparr> = Inr c
    \<and> cand_at s m q nodes n c \<and> c_id c \<noteq> i"
proof -
  have "cand_at s m q nodes n \<lparr>c_dist = metric_value m q (slot_vec s ep), c_id = ep\<rparr>"
    using ep(1) by (simp add: cand_at_def)
  from zoom_in_ok [OF r g assms(6) this] obtain c
    where c: "zoom_in s m nodes q ls \<lparr>c_dist = metric_value m q (slot_vec s ep), c_id = ep\<rparr> = Inr c" "cand_at s m q nodes n c"
    by blast
  moreover have "c_id c \<noteq> i"
    using zoom_in_inside [OF c(1), of "- {i}"] unlinked_closed [OF un] ep(2) by auto
  ultimately show ?thesis
    by blast
qed

text \<open>A search that starts elsewhere finds nothing.\<close>

lemma dead_search_misses:
  assumes wf: "store_wf s" and x: "hnsw_wf s x" and dead: "dead_but s i (hn_nodes x)" "unlinked i (hn_nodes x)"
    and ep: "hn_entry x \<noteq> kInvalidId" "hn_entry x \<noteq> i" and q: "length q = unat (vs_dim s)" and a: "allowed_wf (sp_allowed params)"
  shows "hnsw_search s x q k params = Inr []"
proof -
  have r: "readable s q (hn_nodes x)" and g: "graph_ok (hn_nodes x)"
    and top: "has_layer (hn_nodes x) (hn_entry x) (nat (hn_max_level x))"
    using wf x q ep(1) by (auto simp: readable_def hnsw_wf_def)
  have "dist_to s (hn_metric x) q (hn_entry x) = Inr (metric_value (hn_metric x) q (slot_vec s (hn_entry x)))"
    using dist_to_value [OF r] top by (simp add: has_layer_def)
  moreover obtain c where c: "zoom_in s (hn_metric x) (hn_nodes x) q (rev [1 ..< nat (hn_max_level x + 1)])
      \<lparr>c_dist = metric_value (hn_metric x) q (slot_vec s (hn_entry x)), c_id = hn_entry x\<rparr> = Inr c"
    "cand_at s (hn_metric x) q (hn_nodes x) 0 c" "c_id c \<noteq> i"
    using dead_zoom [OF r g dead(2) has_layer_mono [OF top, of 0] ep(2)] by auto
  moreover from dead_search [OF r g a vis_ensure_ok _ _ dead, of "[c]" "hn_metric x" 0 "max (sp_ef params) k"] c(2,3)
  obtain vis' where "search_layer s (hn_metric x) (hn_nodes x) q [c] (max (sp_ef params) k) 0 (sp_allowed params)
      (vis_ensure (length (hn_nodes x)) vis_empty) = Inr (vis', [])"
    by auto
  ultimately show ?thesis
    by (simp add: hnsw_search_def sort_by_def)
qed

section \<open>The stranded entry\<close>

definition unbuilt :: "hnsw_index \<Rightarrow> internal_id \<Rightarrow> bool" where
  "unbuilt x i \<longleftrightarrow> (unat i < length (hn_built x) \<longrightarrow> hn_built x ! unat i = 0)"

text \<open>What the insertion leaves: the node with empty lists, the rest of the graph as it was.\<close>

lemma stranded_add:
  assumes wf: "store_wf s" and x: "hnsw_wf s x0" and slot: "unat i < slot_count s" and new: "unbuilt x0 i"
    and dead: "\<forall>j \<in> base_nodes (hn_nodes x0). \<not> is_live s j" and ep: "hn_entry x0 \<noteq> kInvalidId"
    and lv: "int (hp_levels (hn_params x0) (hn_draws x0)) \<le> hn_max_level x0"
  shows "hnsw_add s i x0 = Inr (add_node i (hnsw_grow (unat i + 1) x0))"
    and "dead_but s i (hn_nodes (add_node i (hnsw_grow (unat i + 1) x0)))"
    and "unlinked i (hn_nodes (add_node i (hnsw_grow (unat i + 1) x0)))" and "hn_entry x0 \<noteq> i"
    and "\<forall>l \<le> hp_levels (hn_params x0) (hn_draws x0). links_at (hn_nodes (add_node i (hnsw_grow (unat i + 1) x0))) i l = []"
proof -
  define x where "x = hnsw_grow (unat i + 1) x0"
  have x_eq: "hnsw_grow (Suc (unat i)) x0 = x"
    by (simp add: x_def)
  let ?lv = "hp_levels (hn_params x) (hn_draws x)" and ?x1 = "add_node i x" and ?q = "slot_vec s i" and ?m = "hn_metric x"
  have gx: "hnsw_wf s x" "unat i < length (hn_nodes x)"
    using grow_wf [OF x slot] by (simp_all add: x_def)
  have fx: "hn_params x = hn_params x0" "hn_entry x = hn_entry x0" "hn_max_level x = hn_max_level x0" "hn_draws x = hn_draws x0"
    by (simp_all add: x_def hnsw_grow_def)
  have len: "length (hn_built x) = length (hn_nodes x)" and lvs: "levels_ok (hn_built x) (shape (hn_nodes x)) (hn_max_level x)"
    and g: "graph_ok (hn_nodes x)" "capped (hn_params x) (hn_nodes x)" and sl: "length (hn_nodes x) \<le> slot_count s"
    and ml: "0 \<le> hn_max_level x" "has_layer (hn_nodes x) (hn_entry x) (nat (hn_max_level x))"
    using gx(1) ep fx(2) by (auto simp: hnsw_wf_def levels_ok_def dest: list_all2_lengthD)
  have new': "hn_built x ! unat i = 0"
    using new gx(2) len by (auto simp: unbuilt_def x_def hnsw_grow_def nth_append split: if_splits)
  note nl = levels_empty [OF lvs gx(2) new']
  have nodes1: "hn_nodes ?x1 = (hn_nodes x)[unat i := \<lparr>nd_level = ?lv, nd_links = replicate (?lv + 1) []\<rparr>]"
    by (simp add: add_node_def Let_def)
  note f = fresh_node [OF gx(2) nl, of ?lv, folded nodes1] and g1 = fresh_node_graph [OF gx(2) nl g, of ?lv, folded nodes1]
  have un: "unlinked i (hn_nodes ?x1)"
    using fresh_extends(2) [OF gx(2) nl g(1), of ?lv] by (simp add: nodes1)
  have db: "dead_but s i (hn_nodes ?x1)"
    using dead grow_base [of "unat i + 1" x0] unfolding dead_but_def f(1) base_nodes_def x_def [symmetric] by blast
  have epi: "hn_entry x \<noteq> i"
    using ml(2) nl by (auto simp: has_layer_def)
  have r: "readable s ?q (hn_nodes ?x1)"
    using wf sl slot length_slot_vec [OF wf slot] by (simp add: readable_def nodes1)
  have top: "has_layer (hn_nodes ?x1) (hn_entry x) ?lv"
    using has_layer_mono [OF ml(2), of ?lv] lv fx ml(1) by (simp add: f(1))
  have d: "dist_to s ?m ?q (hn_entry x) = Inr (metric_value ?m ?q (slot_vec s (hn_entry x)))"
    using dist_to_value [OF r] top by (simp add: has_layer_def)
  obtain c where c: "zoom_in s ?m (hn_nodes ?x1) ?q (rev [?lv + 1 ..< nat (hn_max_level x + 1)])
      \<lparr>c_dist = metric_value ?m ?q (slot_vec s (hn_entry x)), c_id = hn_entry x\<rparr> = Inr c"
    "cand_at s ?m ?q (hn_nodes ?x1) ?lv c" "c_id c \<noteq> i"
    using dead_zoom [OF r g1(1) un top epi, of "rev [?lv + 1 ..< nat (hn_max_level x + 1)]" ?m] by auto
  have "\<forall>l \<in> set (rev [0 ..< nat (min (int ?lv) (hn_max_level x) + 1)]). \<forall>c' \<in> set [c]. cand_at s ?m ?q (hn_nodes ?x1) l c'"
    using c(2) has_layer_mono [of "hn_nodes ?x1" "c_id c" ?lv] by (auto simp: cand_at_def)
  from dead_link_layers [OF r g1(1) _ db un _ this vis_ensure_ok, of "hn_params x"] c(3) obtain vis'
    where v: "rfold (link_layer s ?m (hn_params x) ?q i) (rev [0 ..< nat (min (int ?lv) (hn_max_level x) + 1)])
      ([c], vis_ensure (length (hn_nodes ?x1)) vis_empty, hn_nodes ?x1) = Inr ([c], vis', hn_nodes ?x1)"
    by auto
  have "hnsw_add s i x0 = Inr ?x1"
    using gx(2) len new' ep fx lv d c(1) v vs_get_slot [OF wf slot]
    by (simp add: hnsw_add_eq Let_def x_eq vec_simps add_node_def)
  moreover have "\<forall>l \<le> ?lv. links_at (hn_nodes ?x1) i l = []"
    using f(2) [of i] by (simp add: f(1))
  ultimately show "hnsw_add s i x0 = Inr (add_node i (hnsw_grow (unat i + 1) x0))"
    and "dead_but s i (hn_nodes (add_node i (hnsw_grow (unat i + 1) x0)))"
    and "unlinked i (hn_nodes (add_node i (hnsw_grow (unat i + 1) x0)))" and "hn_entry x0 \<noteq> i"
    and "\<forall>l \<le> hp_levels (hn_params x0) (hn_draws x0). links_at (hn_nodes (add_node i (hnsw_grow (unat i + 1) x0))) i l = []"
    using db un epi unfolding x_def [symmetric] fx by blast+
qed

text \<open>
  C39: When every node of a graph that is not empty is deleted, a new live entry whose level does not exceed the maximal one
  is stranded: the insertion succeeds and leaves the node without a link in either direction, on every layer, and no
  search of the index, whatever the query, the number of hits, the breadth and the filter, returns anything.
\<close>

theorem hnsw_misses_live_entry:
  assumes "store_wf s" and "hnsw_wf s x" and "is_live s i" and "unbuilt x i"
    and "\<forall>j \<in> base_nodes (hn_nodes x). \<not> is_live s j" and "hn_entry x \<noteq> kInvalidId"
    and "int (hp_levels (hn_params x) (hn_draws x)) \<le> hn_max_level x"
  shows "\<exists>x'. hnsw_add s i x = Inr x' \<and> i \<in> base_nodes (hn_nodes x')
    \<and> (\<forall>l. has_layer (hn_nodes x') i l \<longrightarrow> links_at (hn_nodes x') i l = [])
    \<and> (\<forall>j l. has_layer (hn_nodes x') j l \<longrightarrow> i \<notin> set (links_at (hn_nodes x') j l))
    \<and> (\<forall>q k params. length q = unat (vs_dim s) \<longrightarrow> allowed_wf (sp_allowed params) \<longrightarrow> hnsw_search s x' q k params = Inr [])"
proof -
  note slot = is_live_slot [OF assms(1,3)]
  note st = stranded_add [OF assms(1,2) slot assms(4-7)]
  let ?x' = "add_node i (hnsw_grow (unat i + 1) x)"
  have wf': "hnsw_wf s ?x'"
    using hnsw_add_ok [OF assms(1,2) slot] st(1) by auto
  have len: "unat i < length (hn_nodes (hnsw_grow (unat i + 1) x))"
    using grow_wf(2) [OF assms(2) slot] .
  have "has_layer (hn_nodes ?x') i l \<longleftrightarrow> l \<le> hp_levels (hn_params x) (hn_draws x)" for l
    using len by (auto simp: add_node_def Let_def has_layer_def hnsw_grow_def simp del: replicate.simps)
  moreover have "hn_entry ?x' = hn_entry x"
    by (simp add: add_node_def Let_def)
  ultimately show ?thesis
    using st dead_search_misses [OF assms(1) wf' st(2,3)] assms(6) by (auto simp: unlinked_def base_nodes_def)
qed

theorem hnsw_misses_live_entry_witness:
  "\<exists>x'. hnsw_add demo_two 1 demo_index = Inr x' \<and> is_live demo_two 1 \<and> neighbor_count x' 1 0 = Inr 0
     \<and> (\<forall>k. hnsw_search demo_two x' [f32_zero] k default_params = Inr [])"
proof -
  have x: "hnsw_wf demo_two demo_index"
    using demo_index_wf [of demo_two] by (simp add: demo_two_def slot_count_def)
  have live: "is_live demo_two 1" "\<not> is_live demo_two 0" and dim: "vs_dim demo_two = 1"
    by (simp_all add: demo_two_def is_live_def)
  have "unbuilt demo_index 1" "hn_entry demo_index \<noteq> kInvalidId"
    "int (hp_levels (hn_params demo_index) (hn_draws demo_index)) \<le> hn_max_level demo_index"
    by (simp_all add: unbuilt_def demo_index_def make_hnsw_index_def kInvalidId_def demo_params_def)
  moreover have "\<forall>j \<in> base_nodes (hn_nodes demo_index). \<not> is_live demo_two j"
    using live(2) by (simp add: demo_base)
  ultimately obtain x' where
    x': "hnsw_add demo_two 1 demo_index = Inr x'" "has_layer (hn_nodes x') 1 0" "links_at (hn_nodes x') 1 0 = []"
      "\<forall>q k params. length q = unat (vs_dim demo_two) \<longrightarrow> allowed_wf (sp_allowed params) \<longrightarrow> hnsw_search demo_two x' q k params = Inr []"
    using hnsw_misses_live_entry [OF demo_two_wf x live(1)] unfolding base_nodes_def by blast
  have "neighbor_count x' 1 0 = Inr 0"
    using x'(2,3) by (simp add: neighbor_count_def has_layer_def links_at_def vec_simps)
  moreover have "hnsw_search demo_two x' [f32_zero] k default_params = Inr []" for k
    using x'(4) by (simp add: dim default_params_def allowed_wf_def)
  ultimately show ?thesis
    using x'(1) live(1) by blast
qed

end
