(* ===== verification/Spec2Isabelle.thy ===== *)
theory Spec2Isabelle
  imports Graph_Runs Engine_Failures Server_Main Bench_Program Rag_Demo Hnsw_Levels Hnsw_Stranded
begin

text \<open>
  \<^bold>\<open>A verification of toy-vector-db.\<close> The repository is a single-node vector database in C++: a vector store with
  tombstones, an exact and an approximate (HNSW) index over it, metadata filters, a write-ahead log and
  snapshots for durability, an engine that ties them together, and a retrieval layer for documents on top.
  The theories below translate these parts from the sources and prove what makes them correct.

  \<^bold>\<open>The parts and how they interact.\<close> \<^verbatim>\<open>Engine\<close> owns a \<^verbatim>\<open>VectorStore\<close> and an \<^verbatim>\<open>Index\<close>, and, if it is durable, a
  \<^verbatim>\<open>LogStore\<close> and a \<^verbatim>\<open>BlobStore\<close>. A mutation becomes an \<^verbatim>\<open>Op\<close>: it is encoded and appended to the log, applied to the
  store, and the index is told of new and deleted ids. A search turns its filter into a bitset of admitted ids
  and asks the index, which reads vectors from the store. A snapshot writes the live entries as encoded
  insertions and truncates the log; opening an engine replays the snapshot and then the log. \<^verbatim>\<open>RagEngine\<close> cuts
  documents into chunks, embeds them and keeps them as entries of an in-memory engine. The HTTP server holds one
  engine of either kind and works on them under one mutex.

  \<^bold>\<open>Theories.\<close>
  \<^item> \<open>Prelude\<close>: machine types, the error type, its bind, bounds-checked vector access, failing loops.
  \<^item> \<open>Ieee_Float\<close>: binary32 and binary64 on bit patterns, each operation rounded to nearest, ties to even, with the
    lemmas on order, sign and rounding the metrics need.
  \<^item> \<open>Distance\<close>: \<^verbatim>\<open>types.hpp\<close>, \<^verbatim>\<open>distance.hpp\<close>; symmetry bit for bit, ranges, values inside the bounds.
  \<^item> \<open>Float_Bounds\<close>: magnitudes through rounding; no distance between vectors of moderate size is NaN, and no squared
    distance between finite ones.
  \<^item> \<open>Bitset\<close>: \<^verbatim>\<open>bitset.hpp\<close> over 64-bit words as a set of ids (interface \<open>id_set\<close>).
  \<^item> \<open>Metadata\<close>: \<^verbatim>\<open>metadata.hpp\<close>; values, comparison through doubles, filters.
  \<^item> \<open>Vector_Store\<close>: \<^verbatim>\<open>vector_store.hpp\<close> and \<^verbatim>\<open>.cpp\<close>; the arena, the id maps and tombstones refine a map from external ids
    to entries (interface \<open>op_store\<close>, which gives refinement along whole histories).
  \<^item> \<open>Priority_Queue\<close>: \<^verbatim>\<open>std::priority_queue\<close> and \<^verbatim>\<open>std::sort\<close> (interfaces \<open>max_queue\<close>, \<open>keyed_order\<close>).
  \<^item> \<open>Flat_Index\<close>, \<open>Hnsw_Index\<close>, \<open>Index\<close>: \<^verbatim>\<open>flat_index\<close>, \<^verbatim>\<open>hnsw_index\<close>, \<^verbatim>\<open>index.hpp\<close>; soundness and exactness of the flat
    search, the graph invariant of HNSW for every sort that meets the contract of \<^verbatim>\<open>std::sort\<close> (interface \<open>cand_sorter\<close>), and
    the contract \<open>index_seam\<close> both indexes and their dispatch meet.
  \<^item> \<open>Hnsw_Loops\<close>, \<open>Hnsw_Levels\<close>: the loops of an HNSW search as step relations, one step per iteration, with the number of
    steps bounded by the number of nodes; \<^verbatim>\<open>random_level\<close>, defined for every draw.
  \<^item> \<open>Hnsw_Exact\<close>, \<open>Hnsw_Connected\<close>: reachability over links; a beam as broad as the graph explores everything it can reach, so
    on a connected base layer HNSW answers as the flat index, and insertion keeps the base layer connected as
    long as its lists cannot reach their cap.
  \<^item> \<open>Hnsw_Stranded\<close>: an entry inserted among deleted nodes only gets no links and is never found.
  \<^item> \<open>Bytes\<close>, \<open>Crc32\<close>, \<open>Op_Codec\<close>: little-endian bytes, \<^verbatim>\<open>crc32.hpp\<close>, \<^verbatim>\<open>op_codec\<close> (interface \<open>codec\<close>); the table-driven
    checksum is the bitwise one, decoding inverts encoding and rejects every truncation.
  \<^item> \<open>Log_Store\<close>, \<open>Blob_Store\<close>: \<^verbatim>\<open>log_store\<close>, \<^verbatim>\<open>blob_store\<close> (interfaces \<open>log_seam\<close>, \<open>blob_seam\<close>) with partial, interrupted and
    failing system calls.
  \<^item> \<open>Engine\<close>, \<open>Engine_Queries\<close>, \<open>Engine_Durability\<close>, \<open>Engine_Runs\<close>: \<^verbatim>\<open>engine.hpp\<close> and \<^verbatim>\<open>.cpp\<close>; the operations, the query
    path with batches under every interleaving, recovery after a crash at any byte of the log, snapshots and
    compaction, and runs of requests as a step relation with their invariant (interface \<open>kept_memory\<close>: what every
    operation keeps of store and index is kept by every run).
  \<^item> \<open>Moderate_Store\<close>, \<open>Index_Kind\<close>, \<open>Engine_Answers\<close>: engines keep vectors of moderate size and the kind of their index, so
    searches answer in every state of such a run, exactly when the index is flat.
  \<^item> \<open>Graph_Runs\<close>: runs without deletions keep small graphs connected, through snapshots, compactions and restarts, so an
    engine with the HNSW index answers exactly as well.
  \<^item> \<open>Engine_Failures\<close>: operations under failing system calls are atomic in memory and for the next process; a snapshot repairs
    a directory whose log was torn or holds a rejected record.
  \<^item> \<open>Rag_Text\<close>, \<open>Rag_Engine\<close>: \<^verbatim>\<open>rag.hpp\<close> and \<^verbatim>\<open>.cpp\<close>; tokenizer, chunker, hashing embedding and prompt builder, and the
    RAG engine over every embedding model that meets the contract \<open>embedding_seam\<close>.
  \<^item> \<open>Embedding_Bounds\<close>, \<open>Rag_Runs\<close>, \<open>Rag_Exact\<close>: the vectors of the hashing embedding are of moderate size, so runs of the RAG engine answer every query without a condition on the
    texts, and exactly when the index is flat.
  \<^item> \<open>Rag_Demo\<close>: \<^verbatim>\<open>examples/rag_demo.cpp\<close>; the demo on its corpus, with the numbers it prints.
  \<^item> \<open>Utf8_Text\<close>: well-formed UTF-8, which tokens, chunks and prompts inherit from the texts they are made of.
  \<^item> \<open>Server\<close>, \<open>Server_Main\<close>: \<^verbatim>\<open>server/server.cpp\<close>; the conversions from JSON, the handlers with their error paths, and runs of requests,
    which refine a map of vectors and a map of documents; the program around them, from the port on its command line to
    its exit status. A reply is serialised because its strings are UTF-8; the text of an exception need not be, and then
    the handler of the exception throws itself.
  \<^item> \<open>Number_Text\<close>: numbers on a command line, as \<^verbatim>\<open>std::strtoul\<close> and \<^verbatim>\<open>std::atoi\<close> read them.
  \<^item> \<open>Recall_Harness\<close>, \<open>Bench_Program\<close>: \<^verbatim>\<open>bench/recall_harness.cpp\<close>; the functions and the whole program of the benchmark,
    with its command line and clock. Recalls lie between zero and one in spite of rounding, percentiles are
    measured latencies in order, rates and speedups are non-negative numbers.

  \<^bold>\<open>Conventions.\<close> Exceptions are values of the sum type \<open>res\<close>, told apart by their C++ class; what the C++ standard
  leaves undefined (access out of bounds, division by zero) is the value \<open>Undefined_behaviour\<close>, so a theorem that a
  result is \<open>Inr\<close> includes memory safety. Operations that touch the log or the snapshots return the state they leave
  behind next to their result. Ids, dimensions, checksums and hashes are words of their width, with wrap-around;
  \<^verbatim>\<open>std::size_t\<close> counts are natural numbers, since memory runs out long before they overflow. A hash map is a map or the
  list of its entries. Floating-point expressions are evaluated in their type, without fused operations.
  \<^verbatim>\<open>std::priority_queue\<close> and \<^verbatim>\<open>std::sort\<close> are represented by one order of equal elements; the theorems do not depend
  on it. Parameters of the model: the sequence of random levels of HNSW, the outcomes of system calls, the
  schedule of the batch workers and the hardware concurrency, the embedding model, the random draws of the
  benchmark and the readings of its clock, the logarithm of the standard library, of which \<open>log_ok\<close> assumes coarse
  bounds, the sort that insertion into HNSW calls, the JSON library of the server, of which \<open>json_ok\<close> assumes that it
  reports misuse by exceptions, parses only UTF-8 and serialises every document of UTF-8 strings, with the texts of
  exceptions, of which nothing is assumed, and the function of its HTTP library that binds a port and dispatches requests.
  A failing allocation is not modelled.

  \<^bold>\<open>Loops.\<close> All loops are total functions with termination proofs: the greedy descent of HNSW by the strictly
  falling distance, its beam search by the unvisited nodes, replay by the unread bytes, chunking by the tokens
  left. No fuel is used. For the two loops of an HNSW search the number of iterations is bounded as well. Hypotheses of the theorems that bound sizes (a slot left for a new id, histories of fewer
  than 2 to the 32 operations, records within their length fields) mark where the 32-bit ids and lengths of the
  sources would wrap. The search theorems of the engine assume that no distance is NaN, without which the order of
  \<^verbatim>\<open>std::sort\<close> is undefined; for runs of a durable engine, the RAG engine, the server, the demo and the benchmark this follows from the inputs
  (components of magnitude at most 2 to the 50 for vectors from outside, finite noise for the benchmark, no condition for
  embedded texts). The operations of the insertion into HNSW take the sort as an argument (\<open>select_neighbors_by\<close>, \<open>prune_by\<close>,
  \<open>link_layer_by\<close>, \<open>hnsw_add_by\<close>); \<open>std_sort\<close> is undefined when a distance is NaN, and insertion with it is shown to be
  defined on stores without such distances. The engine is built on the instance \<open>hnsw_add\<close> with a sort that takes every
  list, which gives the same index there; on other stores the theorems on mutations of an engine with the HNSW index
  speak of that instance, not of the C++ sort.

  \<^bold>\<open>Not modelled.\<close> The routing and the static page of the server, which its HTTP library
  provides; the layout of what the benchmark and the demo print; \<^verbatim>\<open>tests/\<close>, whose
  programs only call the library; the Mersenne twister behind the random draws; capacity reservation; the release of
  file descriptors.
\<close>

end
